theory Spec2Isabelle
  imports
    Complex_Main
    "HOL-Library.AList"
    "HOL-Library.Char_ord"
    "HOL-Library.List_Lexorder"
    "HOL-Library.Product_Lexorder"
begin

section \<open>Data model of the tournament scheduler\<close>

text \<open>
  The scheduler is the TypeScript module with \<open>scheduleMatches\<close>,
  \<open>validateSchedule\<close> and \<open>rescheduleMatches\<close>.

  Conventions of the embedding.
  \<^item> An identity (\<open>string | number\<close>) is an \<open>ident\<close>; numeric identities are
    integers. JavaScript's \<open>undefined\<close> (an absent array element) is \<open>None\<close>.
  \<^item> A \<open>Date\<close> is its \<open>getTime()\<close> value, an integer number of milliseconds; all
    dates are taken to be valid dates, so comparisons are those of integers.
    Durations, rest time and court setup time are integer minutes, converted with
    \<open>* 60000\<close> as in the source.
  \<^item> A \<open>Map\<close> is an association list in insertion order with distinct keys
    (\<open>Map.set\<close> is \<open>AList.update\<close>, which overwrites in place or appends); a
    \<open>Set\<close> is a duplicate-free list in insertion order.
  \<^item> \<open>Array.prototype.sort\<close> with a comparator is the stable sort \<open>sort_key\<close>.
  \<^item> \<open>String(id).localeCompare(String(id'))\<close> is computed by the host's collation
    and is outside the repository. It is a total preorder on identities, represented by
    a parameter \<open>ck\<close> that maps an identity to a collation key in a linear order.
  \<^item> \<open>new Date()\<close>, the wall clock, is the parameter \<open>now\<close>.
\<close>

datatype ident = IdStr string | IdNum int

type_synonym tkey = "ident option"

text \<open>A participant slot is a \<open>Team\<close> object (only its \<open>id\<close> is read) or a bare identity.\<close>

datatype team_ref = TeamObj ident | TeamVal ident

record Court =
  court_id :: ident

record Match =
  m_id :: ident
  team1 :: team_ref
  team2 :: team_ref
  m_round :: int
  duration :: int
  dependencies :: "ident list option"

record SchedulerConfig =
  restTime :: int
  startTime :: "int option"
  courtSetupTime :: "int option"

record CompletedScheduledMatch =
  cm_matchId :: ident
  cm_courtId :: ident
  actualStartTime :: int
  actualEndTime :: int
  cm_team1Id :: ident
  cm_team2Id :: ident

record RescheduleConfig = SchedulerConfig +
  currentTime :: int
  completedMatches :: "CompletedScheduledMatch list"

record ScheduledMatch =
  sm_matchId :: ident
  sm_courtId :: ident
  sm_startTime :: int
  sm_endTime :: int
  sm_round :: int

record Summary =
  totalMatches :: nat
  totalDuration :: real
  courtsUsed :: nat
  sum_endTime :: int

record ScheduleResult =
  schedule :: "ScheduledMatch list"
  summary :: Summary

record TeamState =
  ts_teamId :: tkey
  ts_availableAt :: int
  ts_currentMatch :: "ident option"

record CourtState =
  cs_courtId :: ident
  cs_availableAt :: int
  cs_currentMatch :: "ident option"

record MatchTask =
  task_match :: Match
  remainingDependencies :: "ident list"

record Event =
  ev_time :: int
  ev_matchId :: ident
  ev_courtId :: ident
  ev_team1Id :: tkey
  ev_team2Id :: tkey

datatype error =
    NoMatches
  | NoCourts
  | SchedulingDeadlock
  | RescheduleDeadlock
  | FailedToScheduleAll nat nat
  | FailedToRescheduleAll nat nat

type_synonym team_states = "(tkey \<times> TeamState) list"

definition MAX_DATE :: int where
  "MAX_DATE = 8640000000000000"

section \<open>Helpers\<close>

text \<open>The truthiness test \<open>else if (match.team1)\<close>: \<open>0\<close> and the empty string are falsy.\<close>

fun truthy :: "ident \<Rightarrow> bool" where
  "truthy (IdStr s) = (s \<noteq> [])"
| "truthy (IdNum n) = (n \<noteq> 0)"

fun slotIds :: "team_ref \<Rightarrow> ident list" where
  "slotIds (TeamObj i) = [i]"
| "slotIds (TeamVal v) = (if truthy v then [v] else [])"

definition getTeamIds :: "Match \<Rightarrow> ident list" where
  "getTeamIds match = slotIds (team1 match) @ slotIds (team2 match)"

definition isTeamAvailable :: "ident \<Rightarrow> int \<Rightarrow> team_states \<Rightarrow> bool" where
  "isTeamAvailable teamId time teamStates =
     (case map_of teamStates (Some teamId) of
        None \<Rightarrow> True
      | Some state \<Rightarrow> ts_currentMatch state = None \<and> ts_availableAt state \<le> time)"

definition areTeamsAvailable :: "Match \<Rightarrow> int \<Rightarrow> team_states \<Rightarrow> bool" where
  "areTeamsAvailable match time teamStates =
     list_all (\<lambda>teamId. isTeamAvailable teamId time teamStates) (getTeamIds match)"

text \<open>
  \<open>findAvailableCourt\<close> returns a reference to a court state; the reference is the
  position of the court in \<open>courtStates\<close>.
\<close>

fun findAvailableCourt_from ::
  "int \<Rightarrow> nat \<Rightarrow> (nat \<times> CourtState) option \<Rightarrow> int \<Rightarrow> CourtState list \<Rightarrow> (nat \<times> int) option"
where
  "findAvailableCourt_from time i earliestCourt earliestTime [] =
     (case earliestCourt of
        Some (j, c) \<Rightarrow> Some (j, cs_availableAt c)
      | None \<Rightarrow> None)"
| "findAvailableCourt_from time i earliestCourt earliestTime (court # rest) =
     (if cs_availableAt court \<le> time \<and> cs_currentMatch court = None then Some (i, time)
      else if cs_availableAt court < earliestTime
        then findAvailableCourt_from time (Suc i) (Some (i, court)) (cs_availableAt court) rest
        else findAvailableCourt_from time (Suc i) earliestCourt earliestTime rest)"

definition findAvailableCourt :: "int \<Rightarrow> CourtState list \<Rightarrow> (nat \<times> int) option" where
  "findAvailableCourt time courtStates =
     findAvailableCourt_from time 0 None MAX_DATE courtStates"

definition calculateEarliestStartTime :: "Match \<Rightarrow> int \<Rightarrow> team_states \<Rightarrow> int" where
  "calculateEarliestStartTime match cur teamStates =
     fold (\<lambda>teamId earliestStart.
             case map_of teamStates (Some teamId) of
               Some state \<Rightarrow>
                 if ts_availableAt state > earliestStart then ts_availableAt state
                 else earliestStart
             | None \<Rightarrow> earliestStart)
          (getTeamIds match) cur"

definition ensureTeamState :: "tkey \<Rightarrow> team_states \<Rightarrow> int \<Rightarrow> TeamState \<times> team_states" where
  "ensureTeamState teamId teamStates initialTime =
     (case map_of teamStates teamId of
        None \<Rightarrow>
          (let state = \<lparr>ts_teamId = teamId, ts_availableAt = initialTime, ts_currentMatch = None\<rparr>
           in (state, AList.update teamId state teamStates))
      | Some state \<Rightarrow> (state, teamStates))"

section \<open>The ready queue\<close>

definition task_key :: "(ident \<Rightarrow> 'k::linorder) \<Rightarrow> MatchTask \<Rightarrow> int \<times> 'k" where
  "task_key ck task = (m_round (task_match task), ck (m_id (task_match task)))"

definition enqueue :: "(ident \<Rightarrow> 'k::linorder) \<Rightarrow> MatchTask \<Rightarrow> MatchTask list \<Rightarrow> MatchTask list" where
  "enqueue ck task tasks = sort_key (task_key ck) (tasks @ [task])"


definition peek :: "MatchTask list \<Rightarrow> MatchTask option" where
  "peek tasks = (case tasks of [] \<Rightarrow> None | t # ts \<Rightarrow> Some t)"

fun remove :: "ident \<Rightarrow> MatchTask list \<Rightarrow> MatchTask list" where
  "remove matchId [] = []"
| "remove matchId (t # ts) =
     (if m_id (task_match t) = matchId then ts else t # remove matchId ts)"


section \<open>The placement loop\<close>

text \<open>
  The mutable variables of the loop. \<open>matchMap\<close> maps a match identity to its task;
  the tasks in the queue are the objects of \<open>matchMap\<close>, and only their \<open>match\<close>
  field is read through the queue.
\<close>

record sched_state =
  st_schedule :: "ScheduledMatch list"
  st_teamStates :: team_states
  st_courtStates :: "CourtState list"
  st_matchMap :: "(ident \<times> MatchTask) list"
  st_queue :: "MatchTask list"
  st_events :: "Event list"
  st_currentTime :: int

text \<open>
  The loops of \<open>scheduleMatches\<close> and \<open>rescheduleMatches\<close> are the same text up to
  four places, which are fields of \<open>loop_params\<close>: the initial time given to
  \<open>ensureTeamState\<close> (\<open>startTime\<close>, resp. \<open>currentTime\<close>), the floor
  \<open>currentTime\<close> that only \<open>rescheduleMatches\<close> adds to the start time and to the
  candidates of the time advance (\<open>lp_floor = None\<close> in \<open>scheduleMatches\<close>), and the
  error thrown on a deadlock. The loop variable \<open>currentTime\<close> of \<open>scheduleMatches\<close>
  and \<open>simTime\<close> of \<open>rescheduleMatches\<close> are the field \<open>st_currentTime\<close>.
  \<open>dependents\<close> is built before the loop and never changed in it.
\<close>

record loop_params =
  lp_restTime :: int
  lp_courtSetupTime :: int
  lp_initialTime :: int
  lp_floor :: "int option"
  lp_deadlock :: error
  lp_dependents :: "(ident \<times> ident list) list"

datatype outcome = Continue sched_state | Break sched_state | Throw error

text \<open>\<open>courtStates.find(c => c.courtId === id)\<close> followed by the update of that court.\<close>

fun freeCourt :: "ident \<Rightarrow> int \<Rightarrow> CourtState list \<Rightarrow> CourtState list" where
  "freeCourt courtId t [] = []"
| "freeCourt courtId t (c # cs) =
     (if cs_courtId c = courtId
      then c\<lparr>cs_currentMatch := None, cs_availableAt := t\<rparr> # cs
      else c # freeCourt courtId t cs)"

definition freeTeam :: "tkey \<Rightarrow> int \<Rightarrow> int \<Rightarrow> team_states \<Rightarrow> team_states" where
  "freeTeam teamId initialTime restEndTime teamStates =
     (case ensureTeamState teamId teamStates initialTime of
        (state, teamStates') \<Rightarrow>
          AList.update teamId
            (state\<lparr>ts_currentMatch := None, ts_availableAt := restEndTime\<rparr>) teamStates')"

text \<open>The body of \<open>for (const depMatchId of deps)\<close>, on \<open>matchMap\<close> and the queue.\<close>

definition unlockDependent ::
  "(ident \<Rightarrow> 'k::linorder) \<Rightarrow> ident \<Rightarrow> ident \<Rightarrow>
   (ident \<times> MatchTask) list \<times> MatchTask list \<Rightarrow> (ident \<times> MatchTask) list \<times> MatchTask list"
where
  "unlockDependent ck evMatchId depMatchId mq =
     (case map_of (fst mq) depMatchId of
        None \<Rightarrow> mq
      | Some depTask \<Rightarrow>
          (let depTask' = depTask\<lparr>remainingDependencies :=
                 removeAll evMatchId (remainingDependencies depTask)\<rparr>;
               matchMap' = AList.update depMatchId depTask' (fst mq)
           in if remainingDependencies depTask' = []
              then (matchMap', enqueue ck depTask' (snd mq))
              else (matchMap', snd mq)))"

definition handleEvent ::
  "(ident \<Rightarrow> 'k::linorder) \<Rightarrow> loop_params \<Rightarrow> Event \<Rightarrow> sched_state \<Rightarrow> sched_state"
where
  "handleEvent ck p event s =
     (let courts = freeCourt (ev_courtId event)
                     (ev_time event + lp_courtSetupTime p * 60000) (st_courtStates s);
          restEndTime = ev_time event + lp_restTime p * 60000;
          teams1 = freeTeam (ev_team1Id event) (lp_initialTime p) restEndTime (st_teamStates s);
          teams2 = freeTeam (ev_team2Id event) (lp_initialTime p) restEndTime teams1;
          deps = (case map_of (lp_dependents p) (ev_matchId event) of
                    Some ds \<Rightarrow> ds | None \<Rightarrow> []);
          mq = fold (unlockDependent ck (ev_matchId event)) deps (st_matchMap s, st_queue s)
      in s\<lparr>st_courtStates := courts, st_teamStates := teams2,
            st_matchMap := fst mq, st_queue := snd mq\<rparr>)"

text \<open>\<open>while (events.length > 0 && events[0].time <= currentTime)\<close>, on the list of events.\<close>

fun processEvents ::
  "(ident \<Rightarrow> 'k::linorder) \<Rightarrow> loop_params \<Rightarrow> Event list \<Rightarrow> sched_state \<Rightarrow> sched_state"
where
  "processEvents ck p [] s = s\<lparr>st_events := []\<rparr>"
| "processEvents ck p (event # rest) s =
     (if ev_time event \<le> st_currentTime s
      then processEvents ck p rest (handleEvent ck p event (s\<lparr>st_events := rest\<rparr>))
      else s\<lparr>st_events := event # rest\<rparr>)"

definition occupyTeam :: "ident \<Rightarrow> int \<Rightarrow> ident \<Rightarrow> team_states \<Rightarrow> team_states" where
  "occupyTeam matchId initialTime teamId teamStates =
     (case ensureTeamState (Some teamId) teamStates initialTime of
        (state, teamStates') \<Rightarrow>
          AList.update (Some teamId) (state\<lparr>ts_currentMatch := Some matchId\<rparr>) teamStates')"

definition nth_opt :: "'a list \<Rightarrow> nat \<Rightarrow> 'a option" where
  "nth_opt xs i = (if i < length xs then Some (xs ! i) else None)"

text \<open>One candidate of the placement pass: \<open>None\<close> is \<open>continue\<close>.\<close>

definition tryTask :: "loop_params \<Rightarrow> sched_state \<Rightarrow> MatchTask \<Rightarrow> sched_state option" where
  "tryTask p s task =
     (let match = task_match task; cur = st_currentTime s in
      if \<not> areTeamsAvailable match cur (st_teamStates s) then None
      else case findAvailableCourt cur (st_courtStates s) of
        None \<Rightarrow> None
      | Some (ci, courtAvailableAt) \<Rightarrow>
          (let teamEarliestStart = calculateEarliestStartTime match cur (st_teamStates s);
               actualStartTime =
                 (case lp_floor p of
                    None \<Rightarrow> max courtAvailableAt teamEarliestStart
                  | Some fl \<Rightarrow> max (max courtAvailableAt teamEarliestStart) fl)
           in if actualStartTime > cur then None
              else
                (let endTime = actualStartTime + duration match * 60000;
                     court = st_courtStates s ! ci;
                     teamIds = getTeamIds match;
                     event = \<lparr>ev_time = endTime, ev_matchId = m_id match,
                              ev_courtId = cs_courtId court,
                              ev_team1Id = nth_opt teamIds 0, ev_team2Id = nth_opt teamIds 1\<rparr>
                 in Some (s\<lparr>
                      st_schedule := st_schedule s @
                        [\<lparr>sm_matchId = m_id match, sm_courtId = cs_courtId court,
                          sm_startTime = actualStartTime, sm_endTime = endTime,
                          sm_round = m_round match\<rparr>],
                      st_courtStates := (st_courtStates s)
                        [ci := court\<lparr>cs_currentMatch := Some (m_id match),
                                     cs_availableAt := endTime\<rparr>],
                      st_teamStates :=
                        fold (occupyTeam (m_id match) (lp_initialTime p)) teamIds (st_teamStates s),
                      st_events := sort_key ev_time (st_events s @ [event]),
                      st_queue := remove (m_id match) (st_queue s)\<rparr>))))"

fun placementPass :: "loop_params \<Rightarrow> sched_state \<Rightarrow> MatchTask list \<Rightarrow> sched_state option" where
  "placementPass p s [] = None"
| "placementPass p s (task # rest) =
     (case tryTask p s task of
        Some s' \<Rightarrow> Some s'
      | None \<Rightarrow> placementPass p s rest)"

definition candidate :: "int \<Rightarrow> int \<Rightarrow> int \<Rightarrow> int" where
  "candidate cur t nextTime = (if t > cur \<and> t < nextTime then t else nextTime)"

definition findNextTime :: "loop_params \<Rightarrow> sched_state \<Rightarrow> int" where
  "findNextTime p s =
     (let cur = st_currentTime s;
          n1 = fold (\<lambda>state. candidate cur (ts_availableAt state))
                    (map snd (st_teamStates s)) MAX_DATE;
          n2 = fold (\<lambda>court. candidate cur (cs_availableAt court)) (st_courtStates s) n1
      in case lp_floor p of None \<Rightarrow> n2 | Some fl \<Rightarrow> candidate cur fl n2)"

text \<open>The body of the main \<open>while\<close> loop.\<close>

definition iteration ::
  "(ident \<Rightarrow> 'k::linorder) \<Rightarrow> loop_params \<Rightarrow> sched_state \<Rightarrow> outcome"
where
  "iteration ck p s0 =
     (let s = processEvents ck p (st_events s0) s0 in
      case placementPass p s (st_queue s) of
        Some s' \<Rightarrow> Continue s'
      | None \<Rightarrow>
          if st_events s \<noteq> [] then Continue (s\<lparr>st_currentTime := ev_time (hd (st_events s))\<rparr>)
          else if st_queue s \<noteq> [] then
            (let nextTime = findNextTime p s in
             if nextTime < MAX_DATE then Continue (s\<lparr>st_currentTime := nextTime\<rparr>)
             else Throw (lp_deadlock p))
          else Break s)"

text \<open>
  The main loop. It need not terminate, so it is a partial function into \<open>option\<close>:
  \<open>None\<close> is a run that never leaves the loop.
\<close>

partial_function (option) mainLoop ::
  "(ident \<Rightarrow> 'k::linorder) \<Rightarrow> loop_params \<Rightarrow> sched_state \<Rightarrow> (error + sched_state) option"
where
  "mainLoop ck p s =
     (if st_queue s \<noteq> [] \<or> st_events s \<noteq> [] then
        (case iteration ck p s of
           Continue s' \<Rightarrow> mainLoop ck p s'
         | Break s' \<Rightarrow> Some (Inr s')
         | Throw e \<Rightarrow> Some (Inl e))
      else Some (Inr s))"

declare mainLoop.simps [code]

section \<open>scheduleMatches\<close>

definition set_add :: "'a \<Rightarrow> 'a list \<Rightarrow> 'a list" where
  "set_add x xs = (if x \<in> set xs then xs else xs @ [x])"

definition new_Set :: "'a list \<Rightarrow> 'a list" where
  "new_Set xs = fold set_add xs []"

definition deps_of :: "Match \<Rightarrow> ident list" where
  "deps_of match = (case dependencies match of Some ds \<Rightarrow> ds | None \<Rightarrow> [])"

definition addDependent ::
  "ident \<Rightarrow> ident \<Rightarrow> (ident \<times> ident list) list \<Rightarrow> (ident \<times> ident list) list"
where
  "addDependent matchId depId dependents =
     AList.update depId
       (set_add matchId (case map_of dependents depId of Some ds \<Rightarrow> ds | None \<Rightarrow> []))
       dependents"

text \<open>The loop that builds \<open>matchMap\<close> and \<open>dependents\<close>.\<close>

definition buildGraph ::
  "Match list \<Rightarrow> (ident \<times> MatchTask) list \<times> (ident \<times> ident list) list"
where
  "buildGraph matches =
     fold (\<lambda>match (matchMap, dependents).
             (AList.update (m_id match)
                \<lparr>task_match = match, remainingDependencies = new_Set (deps_of match)\<rparr> matchMap,
              fold (addDependent (m_id match)) (deps_of match) dependents))
          matches ([], [])"

definition initialQueue ::
  "(ident \<Rightarrow> 'k::linorder) \<Rightarrow> (ident \<times> MatchTask) list \<Rightarrow> MatchTask list"
where
  "initialQueue ck matchMap =
     fold (\<lambda>(matchId, task) queue.
             if remainingDependencies task = [] then enqueue ck task queue else queue)
          matchMap []"

definition mkSummary :: "ScheduledMatch list \<Rightarrow> ScheduledMatch list \<Rightarrow> int \<Rightarrow> int \<Rightarrow> Summary" where
  "mkSummary allSchedule outSchedule init origin =
     (let endTime = fold (\<lambda>s mx. if sm_endTime s > mx then sm_endTime s else mx) allSchedule init
      in \<lparr>totalMatches = length outSchedule,
          totalDuration = real_of_int (endTime - origin) / 60000,
          courtsUsed = card (set (map sm_courtId outSchedule)),
          sum_endTime = endTime\<rparr>)"

text \<open>The state of the variables when the main loop is entered, and its constants.\<close>

definition scheduleInit ::
  "(ident \<Rightarrow> 'k::linorder) \<Rightarrow> int \<Rightarrow> Match list \<Rightarrow> Court list \<Rightarrow> sched_state"
where
  "scheduleInit ck start matches courts =
     (let graph = buildGraph matches
      in \<lparr>st_schedule = [], st_teamStates = [],
          st_courtStates = map (\<lambda>court. \<lparr>cs_courtId = court_id court,
             cs_availableAt = start, cs_currentMatch = None\<rparr>) courts,
          st_matchMap = fst graph, st_queue = initialQueue ck (fst graph),
          st_events = [], st_currentTime = start\<rparr>)"

definition scheduleParams :: "int \<Rightarrow> Match list \<Rightarrow> SchedulerConfig \<Rightarrow> loop_params" where
  "scheduleParams start matches config =
     \<lparr>lp_restTime = restTime config,
      lp_courtSetupTime = (case courtSetupTime config of Some n \<Rightarrow> n | None \<Rightarrow> 0),
      lp_initialTime = start, lp_floor = None,
      lp_deadlock = SchedulingDeadlock, lp_dependents = snd (buildGraph matches)\<rparr>"

definition scheduleMatches ::
  "(ident \<Rightarrow> 'k::linorder) \<Rightarrow> int \<Rightarrow> Match list \<Rightarrow> Court list \<Rightarrow> SchedulerConfig \<Rightarrow>
   (error + ScheduleResult) option"
where
  "scheduleMatches ck now matches courts config =
     (if matches = [] then Some (Inl NoMatches)
      else if courts = [] then Some (Inl NoCourts)
      else
        (let start = (case startTime config of Some t \<Rightarrow> t | None \<Rightarrow> now)
         in case mainLoop ck (scheduleParams start matches config)
                   (scheduleInit ck start matches courts) of
              None \<Rightarrow> None
            | Some (Inl e) \<Rightarrow> Some (Inl e)
            | Some (Inr s) \<Rightarrow>
                if length (st_schedule s) \<noteq> length matches
                then Some (Inl (FailedToScheduleAll (length (st_schedule s)) (length matches)))
                else Some (Inr \<lparr>schedule = sort_key sm_startTime (st_schedule s),
                                summary = mkSummary (st_schedule s) (st_schedule s) start start\<rparr>)))"

section \<open>validateSchedule\<close>

text \<open>
  The error messages are strings built from the identities and times of a violation;
  a message is modelled by a constructor that carries the same values.
\<close>

datatype violation =
    PlaysSimultaneously ident ident ident
  | InsufficientRest ident ident ident int int
  | DependencyNotScheduled ident ident
  | StartsBeforeDependency ident ident int int

record occupancy =
  oc_start :: int
  oc_end :: int
  oc_matchId :: ident

record validation =
  valid :: bool
  errors :: "violation list"

text \<open>\<open>new Map(pairs)\<close>: a later pair with the same key overwrites the value.\<close>

definition new_Map :: "('k \<times> 'v) list \<Rightarrow> ('k \<times> 'v) list" where
  "new_Map pairs = fold (\<lambda>(k, v). AList.update k v) pairs []"

definition overlapping :: "ScheduledMatch \<Rightarrow> occupancy \<Rightarrow> bool" where
  "overlapping scheduled other \<longleftrightarrow>
     (sm_startTime scheduled \<ge> oc_start other \<and> sm_startTime scheduled < oc_end other) \<or>
     (sm_endTime scheduled > oc_start other \<and> sm_endTime scheduled \<le> oc_end other) \<or>
     (sm_startTime scheduled \<le> oc_start other \<and> sm_endTime scheduled \<ge> oc_end other)"

text \<open>Check 1, the body of \<open>for (const teamId of teamIds)\<close>.\<close>

definition checkTeam ::
  "ScheduledMatch \<Rightarrow> ident \<Rightarrow> (ident \<times> occupancy list) list \<times> violation list \<Rightarrow>
   (ident \<times> occupancy list) list \<times> violation list"
where
  "checkTeam scheduled teamId acc =
     (let occ = (case map_of (fst acc) teamId of Some os \<Rightarrow> os | None \<Rightarrow> []);
          found = map (\<lambda>other. PlaysSimultaneously teamId (sm_matchId scheduled) (oc_matchId other))
                      (filter (overlapping scheduled) occ)
      in (AList.update teamId
            (occ @ [\<lparr>oc_start = sm_startTime scheduled, oc_end = sm_endTime scheduled,
                     oc_matchId = sm_matchId scheduled\<rparr>]) (fst acc),
          snd acc @ found))"

definition checkScheduled ::
  "(ident \<times> Match) list \<Rightarrow> ScheduledMatch \<Rightarrow>
   (ident \<times> occupancy list) list \<times> violation list \<Rightarrow>
   (ident \<times> occupancy list) list \<times> violation list"
where
  "checkScheduled matchMap scheduled acc =
     (case map_of matchMap (sm_matchId scheduled) of
        None \<Rightarrow> acc
      | Some match \<Rightarrow> fold (checkTeam scheduled) (getTeamIds match) acc)"

text \<open>Check 2, the loop over \<open>sorted\<close> from index 1.\<close>

fun restErrors :: "int \<Rightarrow> ident \<Rightarrow> occupancy list \<Rightarrow> violation list" where
  "restErrors rest teamId (prv # cur # sorted') =
     (if real_of_int (oc_start cur - oc_end prv) / 60000 < real_of_int rest
      then [InsufficientRest teamId (oc_matchId prv) (oc_matchId cur)
              (oc_start cur - oc_end prv) rest]
      else []) @ restErrors rest teamId (cur # sorted')"
| "restErrors rest teamId sorted' = []"

text \<open>Check 3, the body of \<open>for (const match of matches)\<close>.\<close>

definition checkDependency ::
  "(ident \<times> ScheduledMatch) list \<Rightarrow> Match \<Rightarrow> ScheduledMatch \<Rightarrow> ident \<Rightarrow> violation list"
where
  "checkDependency scheduleMap match scheduled depId =
     (case map_of scheduleMap depId of
        None \<Rightarrow> [DependencyNotScheduled (m_id match) depId]
      | Some depScheduled \<Rightarrow>
          if sm_startTime scheduled < sm_endTime depScheduled
          then [StartsBeforeDependency (m_id match) depId
                  (sm_startTime scheduled) (sm_endTime depScheduled)]
          else [])"

definition checkMatch :: "(ident \<times> ScheduledMatch) list \<Rightarrow> Match \<Rightarrow> violation list" where
  "checkMatch scheduleMap match =
     (case map_of scheduleMap (m_id match) of
        None \<Rightarrow> []
      | Some scheduled \<Rightarrow>
          concat (map (checkDependency scheduleMap match scheduled) (deps_of match)))"

definition validateSchedule ::
  "ScheduledMatch list \<Rightarrow> Match list \<Rightarrow> SchedulerConfig \<Rightarrow> validation"
where
  "validateSchedule sched matches config =
     (let matchMap = new_Map (map (\<lambda>m. (m_id m, m)) matches);
          acc = fold (checkScheduled matchMap) sched ([], []);
          errors2 = concat (map (\<lambda>(teamId, occ).
                        restErrors (restTime config) teamId (sort_key oc_start occ)) (fst acc));
          scheduleMap = new_Map (map (\<lambda>s. (sm_matchId s, s)) sched);
          errors3 = concat (map (checkMatch scheduleMap) matches);
          errs = snd acc @ errors2 @ errors3
      in \<lparr>valid = (errs = []), errors = errs\<rparr>)"

section \<open>rescheduleMatches\<close>

definition completedEntry :: "Match list \<Rightarrow> CompletedScheduledMatch \<Rightarrow> ScheduledMatch" where
  "completedEntry matches completed =
     \<lparr>sm_matchId = cm_matchId completed, sm_courtId = cm_courtId completed,
      sm_startTime = actualStartTime completed, sm_endTime = actualEndTime completed,
      sm_round = (case find (\<lambda>m. m_id m = cm_matchId completed) matches of
                    Some m \<Rightarrow> m_round m | None \<Rightarrow> 0)\<rparr>"

fun paintCourt :: "ident \<Rightarrow> int \<Rightarrow> CourtState list \<Rightarrow> CourtState list" where
  "paintCourt courtId t [] = []"
| "paintCourt courtId t (c # cs) =
     (if cs_courtId c = courtId
      then (if t > cs_availableAt c then c\<lparr>cs_availableAt := t\<rparr> else c) # cs
      else c # paintCourt courtId t cs)"

definition paintTeam :: "tkey \<Rightarrow> int \<Rightarrow> int \<Rightarrow> team_states \<Rightarrow> team_states" where
  "paintTeam teamId initialTime restEnd teamStates =
     (case ensureTeamState teamId teamStates initialTime of
        (state, teamStates') \<Rightarrow>
          if restEnd > ts_availableAt state
          then AList.update teamId (state\<lparr>ts_availableAt := restEnd\<rparr>) teamStates'
          else teamStates')"

text \<open>The body of the loop that paints the timeline with one completed match.\<close>

definition paintCompleted ::
  "int \<Rightarrow> int \<Rightarrow> int \<Rightarrow> CompletedScheduledMatch \<Rightarrow>
   team_states \<times> CourtState list \<Rightarrow> team_states \<times> CourtState list"
where
  "paintCompleted cur rest setup completed tc =
     (let courts = paintCourt (cm_courtId completed)
                     (actualEndTime completed + setup * 60000) (snd tc);
          restEnd = actualEndTime completed + rest * 60000;
          teams1 = paintTeam (Some (cm_team1Id completed)) cur restEnd (fst tc);
          teams2 = paintTeam (Some (cm_team2Id completed)) cur restEnd teams1
      in (teams2, courts))"

text \<open>
  The loop that seeds the queue: a task whose remaining dependencies are all completed
  has them cleared and is enqueued.
\<close>

definition seedTask ::
  "(ident \<Rightarrow> 'k::linorder) \<Rightarrow> ident list \<Rightarrow> ident \<times> MatchTask \<Rightarrow>
   (ident \<times> MatchTask) list \<times> MatchTask list \<Rightarrow> (ident \<times> MatchTask) list \<times> MatchTask list"
where
  "seedTask ck completedMatchIds entry mq =
     (case entry of (matchId, task) \<Rightarrow>
        if list_all (\<lambda>depId. depId \<in> set completedMatchIds) (remainingDependencies task)
        then (let task' = task\<lparr>remainingDependencies := []\<rparr>
              in (AList.update matchId task' (fst mq), enqueue ck task' (snd mq)))
        else mq)"

definition completedMatchIds :: "RescheduleConfig \<Rightarrow> ident list" where
  "completedMatchIds config = new_Set (map cm_matchId (completedMatches config))"

definition pendingMatches :: "Match list \<Rightarrow> RescheduleConfig \<Rightarrow> Match list" where
  "pendingMatches matches config =
     filter (\<lambda>m. m_id m \<notin> set (completedMatchIds config)) matches"

text \<open>The state of the variables when the main loop is entered, and its constants.\<close>

definition rescheduleInit ::
  "(ident \<Rightarrow> 'k::linorder) \<Rightarrow> Match list \<Rightarrow> Court list \<Rightarrow> RescheduleConfig \<Rightarrow> sched_state"
where
  "rescheduleInit ck matches courts config =
     (let cur = currentTime config;
          setup = (case courtSetupTime config of Some n \<Rightarrow> n | None \<Rightarrow> 0);
          origin = (case startTime config of Some t \<Rightarrow> t | None \<Rightarrow> cur);
          painted = fold (paintCompleted cur (restTime config) setup) (completedMatches config)
                      ([], map (\<lambda>court. \<lparr>cs_courtId = court_id court,
                              cs_availableAt = origin, cs_currentMatch = None\<rparr>) courts);
          graph = buildGraph (pendingMatches matches config);
          seeded = fold (seedTask ck (completedMatchIds config)) (fst graph) (fst graph, [])
      in \<lparr>st_schedule = map (completedEntry matches) (completedMatches config),
          st_teamStates = fst painted, st_courtStates = snd painted,
          st_matchMap = fst seeded, st_queue = snd seeded,
          st_events = [], st_currentTime = cur\<rparr>)"

definition rescheduleParams :: "Match list \<Rightarrow> RescheduleConfig \<Rightarrow> loop_params" where
  "rescheduleParams matches config =
     \<lparr>lp_restTime = restTime config,
      lp_courtSetupTime = (case courtSetupTime config of Some n \<Rightarrow> n | None \<Rightarrow> 0),
      lp_initialTime = currentTime config, lp_floor = Some (currentTime config),
      lp_deadlock = RescheduleDeadlock,
      lp_dependents = snd (buildGraph (pendingMatches matches config))\<rparr>"

definition rescheduleMatches ::
  "(ident \<Rightarrow> 'k::linorder) \<Rightarrow> Match list \<Rightarrow> Court list \<Rightarrow> RescheduleConfig \<Rightarrow>
   (error + ScheduleResult) option"
where
  "rescheduleMatches ck matches courts config =
     (if matches = [] then Some (Inl NoMatches)
      else if courts = [] then Some (Inl NoCourts)
      else
        (case mainLoop ck (rescheduleParams matches config)
                (rescheduleInit ck matches courts config) of
           None \<Rightarrow> None
         | Some (Inl e) \<Rightarrow> Some (Inl e)
         | Some (Inr s) \<Rightarrow>
             (let futureSchedule =
                    filter (\<lambda>s. sm_matchId s \<notin> set (completedMatchIds config)) (st_schedule s);
                  origin = (case startTime config of Some t \<Rightarrow> t | None \<Rightarrow> currentTime config)
              in if length futureSchedule \<noteq> length (pendingMatches matches config)
                 then Some (Inl (FailedToRescheduleAll
                                   (length futureSchedule)
                                   (length (pendingMatches matches config))))
                 else Some (Inr \<lparr>schedule = sort_key sm_startTime futureSchedule,
                                 summary = mkSummary (st_schedule s) futureSchedule
                                             (currentTime config) origin\<rparr>))))"

section \<open>Vocabulary of the properties\<close>

text \<open>
  A concrete collation for the runs below: \<open>String(id)\<close> compared by code units. It
  orders identities made of upper-case letters and digits as the host collation does.
\<close>

fun nat_digits :: "nat \<Rightarrow> string" where
  "nat_digits n =
     (if n < 10 then [char_of (48 + n)]
      else nat_digits (n div 10) @ [char_of (48 + n mod 10)])"

fun String :: "ident \<Rightarrow> string" where
  "String (IdStr s) = s"
| "String (IdNum n) = (if n < 0 then CHR ''-'' # nat_digits (nat (- n)) else nat_digits (nat n))"

definition codeunit_key :: "ident \<Rightarrow> string" where
  "codeunit_key i = String i"

text \<open>
  A second collation, which ignores the case of letters as the collations of most
  locales do before all else: \<open>a\<close> comes before \<open>B\<close>, while by code units
  \<open>B\<close> comes before \<open>a\<close>.
\<close>

definition lower :: "char \<Rightarrow> char" where
  "lower c =
     (if 65 \<le> (of_char c :: nat) \<and> (of_char c :: nat) \<le> 90
      then char_of ((of_char c :: nat) + 32) else c)"

definition caseless_key :: "ident \<Rightarrow> string" where
  "caseless_key i = map lower (String i)"

text \<open>Two collations order a set of identities the same way.\<close>

definition same_order ::
  "(ident \<Rightarrow> 'a::linorder) \<Rightarrow> (ident \<Rightarrow> 'b::linorder) \<Rightarrow> ident set \<Rightarrow> bool"
where
  "same_order ck ck' S \<longleftrightarrow> (\<forall>a \<in> S. \<forall>b \<in> S. (ck a \<le> ck b) = (ck' a \<le> ck' b))"

text \<open>The order of the ready queue: the comparator of \<open>enqueue\<close> is not positive.\<close>

definition precedes :: "(ident \<Rightarrow> 'k::linorder) \<Rightarrow> MatchTask \<Rightarrow> MatchTask \<Rightarrow> bool" where
  "precedes ck a b \<longleftrightarrow>
     m_round (task_match a) < m_round (task_match b) \<or>
     (m_round (task_match a) = m_round (task_match b) \<and>
      ck (m_id (task_match a)) \<le> ck (m_id (task_match b)))"

text \<open>Sample data.\<close>

definition mkMatch :: "string \<Rightarrow> string \<Rightarrow> string \<Rightarrow> int \<Rightarrow> int \<Rightarrow> string list \<Rightarrow> Match" where
  "mkMatch i a b r d ds =
     \<lparr>m_id = IdStr i, team1 = TeamObj (IdStr a), team2 = TeamVal (IdStr b), m_round = r,
      duration = d, dependencies = (if ds = [] then None else Some (map IdStr ds))\<rparr>"


definition sample_matches :: "Match list" where
  "sample_matches =
     [mkMatch ''M1'' ''A'' ''B'' 1 30 [],
      mkMatch ''M2'' ''C'' ''D'' 1 30 [],
      mkMatch ''M3'' ''A'' ''C'' 2 30 [''M1'', ''M2'']]"

definition sample_courts :: "Court list" where
  "sample_courts = [\<lparr>court_id = IdNum 1\<rparr>, \<lparr>court_id = IdNum 2\<rparr>]"

definition sample_config :: SchedulerConfig where
  "sample_config = \<lparr>restTime = 15, startTime = Some 0, courtSetupTime = None\<rparr>"

definition clock_config :: SchedulerConfig where
  "clock_config = \<lparr>restTime = 15, startTime = None, courtSetupTime = None\<rparr>"

definition sample_schedule :: "ScheduledMatch list" where
  "sample_schedule =
     [\<lparr>sm_matchId = IdStr ''M1'', sm_courtId = IdNum 1, sm_startTime = 0,
       sm_endTime = 1800000, sm_round = 1\<rparr>,
      \<lparr>sm_matchId = IdStr ''M2'', sm_courtId = IdNum 2, sm_startTime = 0,
       sm_endTime = 1800000, sm_round = 1\<rparr>,
      \<lparr>sm_matchId = IdStr ''M3'', sm_courtId = IdNum 1, sm_startTime = 2700000,
       sm_endTime = 4500000, sm_round = 2\<rparr>]"

definition sample_result :: ScheduleResult where
  "sample_result =
     \<lparr>schedule = sample_schedule,
      summary = \<lparr>totalMatches = 3, totalDuration = 75, courtsUsed = 2,
                 sum_endTime = 4500000\<rparr>\<rparr>"

text \<open>
  A live reschedule of the same matches: \<open>M1\<close> has ended two minutes late and
  \<open>M2\<close> on time.
\<close>

definition sample_reconfig :: RescheduleConfig where
  "sample_reconfig =
     \<lparr>restTime = 15, startTime = Some 0, courtSetupTime = None,
      currentTime = 2100000,
      completedMatches =
        [\<lparr>cm_matchId = IdStr ''M1'', cm_courtId = IdNum 1, actualStartTime = 0,
          actualEndTime = 1920000, cm_team1Id = IdStr ''A'', cm_team2Id = IdStr ''B''\<rparr>,
         \<lparr>cm_matchId = IdStr ''M2'', cm_courtId = IdNum 2, actualStartTime = 0,
          actualEndTime = 1800000, cm_team1Id = IdStr ''C'', cm_team2Id = IdStr ''D''\<rparr>]\<rparr>"

definition sample_reresult :: ScheduleResult where
  "sample_reresult =
     \<lparr>schedule =
        [\<lparr>sm_matchId = IdStr ''M3'', sm_courtId = IdNum 1, sm_startTime = 2820000,
          sm_endTime = 4620000, sm_round = 2\<rparr>],
      summary = \<lparr>totalMatches = 1, totalDuration = 77, courtsUsed = 1,
                 sum_endTime = 4620000\<rparr>\<rparr>"

text \<open>
  A live reschedule in which only \<open>M1\<close> is completed: \<open>M3\<close> depends on the
  completed \<open>M1\<close> and on the pending \<open>M2\<close>.
\<close>

definition mixed_reconfig :: RescheduleConfig where
  "mixed_reconfig =
     \<lparr>restTime = 15, startTime = Some 0, courtSetupTime = None,
      currentTime = 2100000,
      completedMatches =
        [\<lparr>cm_matchId = IdStr ''M1'', cm_courtId = IdNum 1, actualStartTime = 0,
          actualEndTime = 1920000, cm_team1Id = IdStr ''A'', cm_team2Id = IdStr ''B''\<rparr>]\<rparr>"

text \<open>Inputs in which two matches share an identity.\<close>

definition norest_config :: SchedulerConfig where
  "norest_config = \<lparr>restTime = 0, startTime = Some 0, courtSetupTime = None\<rparr>"

definition dup_matches :: "Match list" where
  "dup_matches =
     [mkMatch ''M1'' ''A'' ''B'' 1 10 [''M2''],
      mkMatch ''M1'' ''A'' ''B'' 1 10 [],
      mkMatch ''M2'' ''C'' ''D'' 1 30 []]"

definition dup_dangling_matches :: "Match list" where
  "dup_dangling_matches =
     [mkMatch ''M1'' ''A'' ''B'' 1 10 [''M2'', ''M3''],
      mkMatch ''M1'' ''A'' ''B'' 1 10 [],
      mkMatch ''M2'' ''C'' ''D'' 1 30 [],
      mkMatch ''M3'' ''E'' ''F'' 1 30 [],
      mkMatch ''M4'' ''G'' ''H'' 1 30 [''M9'']]"

definition three_courts :: "Court list" where
  "three_courts = [\<lparr>court_id = IdNum 1\<rparr>, \<lparr>court_id = IdNum 2\<rparr>, \<lparr>court_id = IdNum 3\<rparr>]"

definition dup_result :: ScheduleResult where
  "dup_result =
     \<lparr>schedule =
        [\<lparr>sm_matchId = IdStr ''M1'', sm_courtId = IdNum 1, sm_startTime = 0,
          sm_endTime = 600000, sm_round = 1\<rparr>,
         \<lparr>sm_matchId = IdStr ''M2'', sm_courtId = IdNum 2, sm_startTime = 0,
          sm_endTime = 1800000, sm_round = 1\<rparr>,
         \<lparr>sm_matchId = IdStr ''M1'', sm_courtId = IdNum 1, sm_startTime = 1800000,
          sm_endTime = 2400000, sm_round = 1\<rparr>],
      summary = \<lparr>totalMatches = 3, totalDuration = 40, courtsUsed = 2,
                 sum_endTime = 2400000\<rparr>\<rparr>"

definition dup_dangling_result :: ScheduleResult where
  "dup_dangling_result =
     \<lparr>schedule =
        [\<lparr>sm_matchId = IdStr ''M1'', sm_courtId = IdNum 1, sm_startTime = 0,
          sm_endTime = 600000, sm_round = 1\<rparr>,
         \<lparr>sm_matchId = IdStr ''M2'', sm_courtId = IdNum 2, sm_startTime = 0,
          sm_endTime = 1800000, sm_round = 1\<rparr>,
         \<lparr>sm_matchId = IdStr ''M3'', sm_courtId = IdNum 3, sm_startTime = 0,
          sm_endTime = 1800000, sm_round = 1\<rparr>,
         \<lparr>sm_matchId = IdStr ''M1'', sm_courtId = IdNum 1, sm_startTime = 1800000,
          sm_endTime = 2400000, sm_round = 1\<rparr>,
         \<lparr>sm_matchId = IdStr ''M1'', sm_courtId = IdNum 1, sm_startTime = 2400000,
          sm_endTime = 3000000, sm_round = 1\<rparr>],
      summary = \<lparr>totalMatches = 5, totalDuration = 50, courtsUsed = 3,
                 sum_endTime = 3000000\<rparr>\<rparr>"

text \<open>A live reschedule at the start of the tournament: nothing is completed.\<close>

definition fresh_reconfig :: RescheduleConfig where
  "fresh_reconfig =
     \<lparr>restTime = 0, startTime = Some 0, courtSetupTime = None,
      currentTime = 0, completedMatches = []\<rparr>"

text \<open>
  The input of the repository's test \<open>should throw error for invalid dependency
  reference\<close>: one match whose only dependency names no match of the input.
\<close>

definition dangling_matches :: "Match list" where
  "dangling_matches =
     [\<lparr>m_id = IdStr ''M1'', team1 = TeamVal (IdStr ''Winner M999''), team2 = TeamObj (IdNum 2),
       m_round = 1, duration = 30, dependencies = Some [IdStr ''M999'']\<rparr>]"

definition one_court :: "Court list" where
  "one_court = [\<lparr>court_id = IdNum 1\<rparr>]"

definition norest_clock_config :: SchedulerConfig where
  "norest_clock_config = \<lparr>restTime = 0, startTime = None, courtSetupTime = None\<rparr>"

text \<open>Two matches whose identities differ in case.\<close>

definition case_matches :: "Match list" where
  "case_matches = [mkMatch ''a'' ''A'' ''B'' 1 30 [], mkMatch ''B'' ''A'' ''C'' 1 30 []]"

text \<open>
  The team identities of a match, as the data model has them: each of the two participant
  slots holds an identity, that of a \<open>Team\<close> object or a bare one. A schedule entry
  names its match by identity; a team plays an entry when an input match with that
  identity has the team in a slot.
\<close>

fun slot_id :: "team_ref \<Rightarrow> ident" where
  "slot_id (TeamObj i) = i"
| "slot_id (TeamVal v) = v"

definition participants :: "Match \<Rightarrow> ident list" where
  "participants m = [slot_id (team1 m), slot_id (team2 m)]"

definition plays :: "Match list \<Rightarrow> ident \<Rightarrow> ScheduledMatch \<Rightarrow> bool" where
  "plays matches T e \<longleftrightarrow>
     (\<exists>m \<in> set matches. m_id m = sm_matchId e \<and> T \<in> set (participants m))"

definition team_schedule ::
  "Match list \<Rightarrow> ident \<Rightarrow> ScheduledMatch list \<Rightarrow> ScheduledMatch list"
where
  "team_schedule matches T sched = filter (plays matches T) sched"

text \<open>
  A team identity that is the number \<open>0\<close> or the empty string and stands bare (not as
  a \<open>Team\<close> object) in a slot of some input match.
\<close>

definition untracked :: "Match list \<Rightarrow> ident \<Rightarrow> bool" where
  "untracked matches T \<longleftrightarrow>
     (T = IdNum 0 \<or> T = IdStr []) \<and>
     (\<exists>m \<in> set matches. team1 m = TeamVal T \<or> team2 m = TeamVal T)"

text \<open>
  Matches of the bare team \<open>0\<close> and of the bare team \<open>''\<close>, each against a
  \<open>Team\<close> object.
\<close>

definition bare_match :: "string \<Rightarrow> ident \<Rightarrow> int \<Rightarrow> Match" where
  "bare_match i T opp =
     \<lparr>m_id = IdStr i, team1 = TeamVal T, team2 = TeamObj (IdNum opp), m_round = 1,
      duration = 30, dependencies = None\<rparr>"

definition zero_matches :: "Match list" where
  "zero_matches =
     [bare_match ''M1'' (IdNum 0) 1, bare_match ''M2'' (IdNum 0) 2,
      bare_match ''M3'' (IdStr []) 3, bare_match ''M4'' (IdStr []) 4]"

definition four_courts :: "Court list" where
  "four_courts =
     [\<lparr>court_id = IdNum 1\<rparr>, \<lparr>court_id = IdNum 2\<rparr>, \<lparr>court_id = IdNum 3\<rparr>,
      \<lparr>court_id = IdNum 4\<rparr>]"

text \<open>
  Two matches with the identity \<open>M1\<close>: the first has the teams \<open>A\<close> and \<open>B\<close>
  and depends on \<open>M2\<close>, the second has the teams \<open>C\<close> and \<open>D\<close>; \<open>M5\<close> is
  another match of \<open>A\<close>.
\<close>

definition dup_team_matches :: "Match list" where
  "dup_team_matches =
     [mkMatch ''M1'' ''A'' ''B'' 1 10 [''M2''],
      mkMatch ''M1'' ''C'' ''D'' 1 10 [],
      mkMatch ''M2'' ''E'' ''F'' 1 30 [],
      mkMatch ''M5'' ''A'' ''G'' 1 30 []]"

text \<open>
  The input of the repository's test \<open>should handle rest time with dependencies\<close>:
  the teams of \<open>M3\<close> are the placeholders \<open>Winner M1\<close> and \<open>Winner M2\<close>.
\<close>

definition placeholder_matches :: "Match list" where
  "placeholder_matches =
     [\<lparr>m_id = IdStr ''M1'', team1 = TeamObj (IdNum 1), team2 = TeamObj (IdNum 2),
       m_round = 1, duration = 30, dependencies = None\<rparr>,
      \<lparr>m_id = IdStr ''M2'', team1 = TeamObj (IdNum 3), team2 = TeamObj (IdNum 4),
       m_round = 1, duration = 30, dependencies = None\<rparr>,
      \<lparr>m_id = IdStr ''M3'', team1 = TeamVal (IdStr ''Winner M1''),
       team2 = TeamVal (IdStr ''Winner M2''),
       m_round = 2, duration = 30, dependencies = Some [IdStr ''M1'', IdStr ''M2'']\<rparr>]"

definition rest20_config :: SchedulerConfig where
  "rest20_config = \<lparr>restTime = 20, startTime = Some 0, courtSetupTime = None\<rparr>"

definition entry :: "string \<Rightarrow> int \<Rightarrow> int \<Rightarrow> int \<Rightarrow> int \<Rightarrow> ScheduledMatch" where
  "entry i c s e r =
     \<lparr>sm_matchId = IdStr i, sm_courtId = IdNum c, sm_startTime = s, sm_endTime = e,
      sm_round = r\<rparr>"

definition zero_result :: ScheduleResult where
  "zero_result =
     \<lparr>schedule =
        [entry ''M1'' 1 0 1800000 1, entry ''M2'' 2 0 1800000 1,
         entry ''M3'' 3 0 1800000 1, entry ''M4'' 4 0 1800000 1],
      summary = \<lparr>totalMatches = 4, totalDuration = 30, courtsUsed = 4,
                 sum_endTime = 1800000\<rparr>\<rparr>"

definition dup_team_result :: ScheduleResult where
  "dup_team_result =
     \<lparr>schedule =
        [entry ''M1'' 1 0 600000 1, entry ''M2'' 2 0 1800000 1,
         entry ''M5'' 3 0 1800000 1, entry ''M1'' 1 1800000 2400000 1],
      summary = \<lparr>totalMatches = 4, totalDuration = 40, courtsUsed = 3,
                 sum_endTime = 2400000\<rparr>\<rparr>"

definition placeholder_result :: ScheduleResult where
  "placeholder_result =
     \<lparr>schedule =
        [entry ''M1'' 1 0 1800000 1, entry ''M2'' 1 1800000 3600000 1,
         entry ''M3'' 1 3600000 5400000 2],
      summary = \<lparr>totalMatches = 3, totalDuration = 90, courtsUsed = 1,
                 sum_endTime = 5400000\<rparr>\<rparr>"

text \<open>
  Dependency ordering of a schedule: every entry of a match that declares dependencies
  starts at or after the end of the entries of each dependency, and each dependency has
  an entry.
\<close>

definition dependencies_respected :: "Match list \<Rightarrow> ScheduledMatch list \<Rightarrow> bool" where
  "dependencies_respected matches sched \<longleftrightarrow>
     (\<forall>m \<in> set matches. \<forall>e \<in> set sched. sm_matchId e = m_id m \<longrightarrow>
        (\<forall>d \<in> set (deps_of m).
           (\<exists>e' \<in> set sched. sm_matchId e' = d) \<and>
           (\<forall>e' \<in> set sched. sm_matchId e' = d \<longrightarrow> sm_endTime e' \<le> sm_startTime e)))"

section \<open>Vocabulary of the loop invariants\<close>

text \<open>The state after a placement, with the start time it must have.\<close>

definition placeAt :: "loop_params \<Rightarrow> sched_state \<Rightarrow> MatchTask \<Rightarrow> nat \<Rightarrow> sched_state" where
  "placeAt p s task ci =
     (let match = task_match task; start = st_currentTime s;
          endTime = start + duration match * 60000;
          court = st_courtStates s ! ci;
          teamIds = getTeamIds match
      in s\<lparr>st_schedule := st_schedule s @
            [\<lparr>sm_matchId = m_id match, sm_courtId = cs_courtId court,
              sm_startTime = start, sm_endTime = endTime, sm_round = m_round match\<rparr>],
          st_courtStates := (st_courtStates s)
            [ci := court\<lparr>cs_currentMatch := Some (m_id match), cs_availableAt := endTime\<rparr>],
          st_teamStates := fold (occupyTeam (m_id match) (lp_initialTime p)) teamIds (st_teamStates s),
          st_events := sort_key ev_time (st_events s @
            [\<lparr>ev_time = endTime, ev_matchId = m_id match, ev_courtId = cs_courtId court,
              ev_team1Id = nth_opt teamIds 0, ev_team2Id = nth_opt teamIds 1\<rparr>]),
          st_queue := remove (m_id match) (st_queue s)\<rparr>)"

text \<open>After the event flush, no pending event is due.\<close>

definition flushed :: "sched_state \<Rightarrow> bool" where
  "flushed s \<longleftrightarrow>
     (case st_events s of [] \<Rightarrow> True | ev # rest \<Rightarrow> st_currentTime s < ev_time ev)"


text \<open>
  The match registered under an identity: \<open>matchMap.set(match.id, ...)\<close> keeps the last
  match of the input with that identity. A schedule entry names its match by identity, so
  the teams of an entry are the teams of the registered match (as in \<open>validateSchedule\<close>,
  whose \<open>matchMap\<close> is built the same way).
\<close>

definition registered :: "Match list \<Rightarrow> ident \<Rightarrow> Match option" where
  "registered matches k = find (\<lambda>m. m_id m = k) (rev matches)"

definition teams_of :: "(ident \<Rightarrow> Match option) \<Rightarrow> ScheduledMatch \<Rightarrow> ident list" where
  "teams_of lk e = (case lk (sm_matchId e) of Some m \<Rightarrow> getTeamIds m | None \<Rightarrow> [])"

definition team_entries ::
  "(ident \<Rightarrow> Match option) \<Rightarrow> ident \<Rightarrow> ScheduledMatch list \<Rightarrow> ScheduledMatch list"
where
  "team_entries lk T sched = filter (\<lambda>e. T \<in> set (teams_of lk e)) sched"

definition involves :: "ident \<Rightarrow> Event \<Rightarrow> bool" where
  "involves T ev \<longleftrightarrow> ev_team1Id ev = Some T \<or> ev_team2Id ev = Some T"

text \<open>
  \<open>next.start - prev.end >= restTime\<close>, with the rest time in minutes and the dates in
  milliseconds.
\<close>

definition gap_ok :: "int \<Rightarrow> ScheduledMatch \<Rightarrow> ScheduledMatch \<Rightarrow> bool" where
  "gap_ok rest prv nxt \<longleftrightarrow> sm_startTime nxt - sm_endTime prv \<ge> rest * 60000"

definition ends_before :: "ScheduledMatch \<Rightarrow> ScheduledMatch \<Rightarrow> bool" where
  "ends_before a b \<longleftrightarrow> sm_endTime a \<le> sm_startTime b"

text \<open>The half-open intervals \<open>[start, end)\<close> of two entries have a common point.\<close>

definition intervals_overlap :: "ScheduledMatch \<Rightarrow> ScheduledMatch \<Rightarrow> bool" where
  "intervals_overlap a b \<longleftrightarrow>
     max (sm_startTime a) (sm_startTime b) < min (sm_endTime a) (sm_endTime b)"

text \<open>Invariants of the main loop.\<close>

definition reg_inv :: "(ident \<Rightarrow> Match option) \<Rightarrow> sched_state \<Rightarrow> bool" where
  "reg_inv lk s \<longleftrightarrow>
     (\<forall>k t. map_of (st_matchMap s) k = Some t \<longrightarrow>
        lk k = Some (task_match t) \<and> m_id (task_match t) = k) \<and>
     (\<forall>t \<in> set (st_queue s). lk (m_id (task_match t)) = Some (task_match t))"

definition time_inv :: "sched_state \<Rightarrow> bool" where
  "time_inv s \<longleftrightarrow>
     sorted (map sm_startTime (st_schedule s)) \<and>
     (\<forall>e \<in> set (st_schedule s). sm_startTime e \<le> st_currentTime s)"

definition team_inv :: "(ident \<Rightarrow> Match option) \<Rightarrow> int \<Rightarrow> sched_state \<Rightarrow> ident \<Rightarrow> bool" where
  "team_inv lk rest s T \<longleftrightarrow>
     successively (gap_ok rest) (team_entries lk T (st_schedule s)) \<and>
     sorted_wrt ends_before (team_entries lk T (st_schedule s)) \<and>
     (case map_of (st_teamStates s) (Some T) of
        None \<Rightarrow>
          team_entries lk T (st_schedule s) = [] \<and> filter (involves T) (st_events s) = []
      | Some st \<Rightarrow>
          (case ts_currentMatch st of
             None \<Rightarrow>
               filter (involves T) (st_events s) = [] \<and>
               (\<forall>e \<in> set (team_entries lk T (st_schedule s)). sm_endTime e \<le> st_currentTime s) \<and>
               (team_entries lk T (st_schedule s) \<noteq> [] \<longrightarrow>
                  sm_endTime (last (team_entries lk T (st_schedule s))) + rest * 60000
                    \<le> ts_availableAt st)
           | Some m \<Rightarrow>
               team_entries lk T (st_schedule s) \<noteq> [] \<and>
               length (filter (involves T) (st_events s)) = 1 \<and>
               (\<forall>ev \<in> set (st_events s). involves T ev \<longrightarrow>
                  ev_time ev = sm_endTime (last (team_entries lk T (st_schedule s)))) \<and>
               (\<forall>e \<in> set (butlast (team_entries lk T (st_schedule s))).
                  sm_endTime e \<le> st_currentTime s)))"

text \<open>The registry invariant, on the pair of \<open>matchMap\<close> and queue.\<close>

definition reg_mq :: "(ident \<Rightarrow> Match option) \<Rightarrow> (ident \<times> MatchTask) list \<times> MatchTask list \<Rightarrow> bool" where
  "reg_mq lk mq \<longleftrightarrow>
     (\<forall>k t. map_of (fst mq) k = Some t \<longrightarrow>
        lk k = Some (task_match t) \<and> m_id (task_match t) = k) \<and>
     (\<forall>t \<in> set (snd mq). lk (m_id (task_match t)) = Some (task_match t))"

text \<open>The task that the graph construction stores for a match.\<close>

definition initialTask :: "Match \<Rightarrow> MatchTask" where
  "initialTask match = \<lparr>task_match = match, remainingDependencies = new_Set (deps_of match)\<rparr>"


definition sched_inv :: "(ident \<Rightarrow> Match option) \<Rightarrow> int \<Rightarrow> sched_state \<Rightarrow> bool" where
  "sched_inv lk rest s \<longleftrightarrow> reg_inv lk s \<and> time_inv s \<and> (\<forall>T. team_inv lk rest s T)"


text \<open>A dependency is done: an entry for it has ended by the current time.\<close>

definition dep_done :: "sched_state \<Rightarrow> ident \<Rightarrow> bool" where
  "dep_done s d \<longleftrightarrow>
     (\<exists>e \<in> set (st_schedule s). sm_matchId e = d \<and> sm_endTime e \<le> st_currentTime s)"

definition dep_inv :: "(ident \<Rightarrow> Match option) \<Rightarrow> sched_state \<Rightarrow> bool" where
  "dep_inv lk s \<longleftrightarrow>
     (\<forall>t \<in> set (st_queue s). \<forall>d \<in> set (deps_of (task_match t)). dep_done s d) \<and>
     (\<forall>e \<in> set (st_schedule s). \<forall>m. lk (sm_matchId e) = Some m \<longrightarrow>
        (\<forall>d \<in> set (deps_of m).
           \<exists>e' \<in> set (st_schedule s). sm_matchId e' = d \<and> sm_endTime e' \<le> sm_startTime e)) \<and>
     (\<forall>k t. map_of (st_matchMap s) k = Some t \<longrightarrow>
        (\<forall>d \<in> set (deps_of (task_match t)).
           d \<in> set (remainingDependencies t) \<or> dep_done s d)) \<and>
     (\<forall>ev \<in> set (st_events s).
        \<exists>e \<in> set (st_schedule s). sm_matchId e = ev_matchId ev \<and> sm_endTime e = ev_time ev)"

text \<open>The part of \<open>dep_inv\<close> about \<open>matchMap\<close> and the queue, for a fixed set of done dependencies.\<close>

definition dep_mq :: "(ident \<Rightarrow> bool) \<Rightarrow> (ident \<times> MatchTask) list \<times> MatchTask list \<Rightarrow> bool" where
  "dep_mq dn mq \<longleftrightarrow>
     (\<forall>t \<in> set (snd mq). \<forall>d \<in> set (deps_of (task_match t)). dn d) \<and>
     (\<forall>k t. map_of (fst mq) k = Some t \<longrightarrow>
        (\<forall>d \<in> set (deps_of (task_match t)). d \<in> set (remainingDependencies t) \<or> dn d))"

text \<open>
  Every match is enqueued, and so placed, at most once. This needs the identities of the
  input matches to be distinct; it is the invariant under which the loop terminates.
\<close>

definition qids :: "MatchTask list \<Rightarrow> ident list" where
  "qids q = map (\<lambda>t. m_id (task_match t)) q"

definition dependents_of :: "(ident \<times> ident list) list \<Rightarrow> ident \<Rightarrow> ident list" where
  "dependents_of dp d = (case map_of dp d of Some ds \<Rightarrow> ds | None \<Rightarrow> [])"

definition once_mq :: "ident set \<Rightarrow> (ident \<times> MatchTask) list \<times> MatchTask list \<Rightarrow> bool" where
  "once_mq P mq \<longleftrightarrow>
     distinct (qids (snd mq)) \<and> set (qids (snd mq)) \<inter> P = {} \<and>
     set (qids (snd mq)) \<subseteq> dom (map_of (fst mq)) \<and>
     (\<forall>k t. map_of (fst mq) k = Some t \<longrightarrow>
        (remainingDependencies t = [] \<longleftrightarrow> k \<in> set (qids (snd mq)) \<union> P))"

definition unflushed :: "sched_state \<Rightarrow> ident \<Rightarrow> bool" where
  "unflushed s d \<longleftrightarrow>
     d \<notin> set (map sm_matchId (st_schedule s)) \<or> d \<in> set (map ev_matchId (st_events s))"

definition once_inv :: "(ident \<times> ident list) list \<Rightarrow> sched_state \<Rightarrow> bool" where
  "once_inv dp s \<longleftrightarrow>
     distinct (map sm_matchId (st_schedule s)) \<and>
     once_mq (set (map sm_matchId (st_schedule s))) (st_matchMap s, st_queue s) \<and>
     distinct (map ev_matchId (st_events s)) \<and>
     set (map ev_matchId (st_events s)) \<subseteq> set (map sm_matchId (st_schedule s)) \<and>
     set (map sm_matchId (st_schedule s)) \<subseteq> dom (map_of (st_matchMap s)) \<and>
     distinct (map fst (st_matchMap s)) \<and>
     (\<forall>d X t. d \<in> dom (map_of (st_matchMap s)) \<longrightarrow> unflushed s d \<longrightarrow>
        X \<in> set (dependents_of dp d) \<longrightarrow>
        map_of (st_matchMap s) X = Some t \<longrightarrow> d \<in> set (remainingDependencies t))"

text \<open>What \<open>unlockDependent\<close> may change in \<open>matchMap\<close>: it removes one identity from remaining sets.\<close>

definition only_removed ::
  "ident \<Rightarrow> (ident \<times> MatchTask) list \<Rightarrow> (ident \<times> MatchTask) list \<Rightarrow> bool"
where
  "only_removed d mm mm' \<longleftrightarrow>
     dom (map_of mm') = dom (map_of mm) \<and>
     (\<forall>k t. map_of mm k = Some t \<longrightarrow>
        (\<exists>t'. map_of mm' k = Some t' \<and>
           set (remainingDependencies t) - {d} \<subseteq> set (remainingDependencies t')))"

text \<open>The invariant of the main loop of \<open>scheduleMatches\<close> on distinct match identities.\<close>

definition full_inv :: "(ident \<Rightarrow> Match option) \<Rightarrow> loop_params \<Rightarrow> sched_state \<Rightarrow> bool" where
  "full_inv lk p s \<longleftrightarrow>
     sched_inv lk (lp_restTime p) s \<and> dep_inv lk s \<and> once_inv (lp_dependents p) s \<and>
     (\<forall>d. distinct (dependents_of (lp_dependents p) d))"

text \<open>
  The part of the invariant that the end of the loop rests on; it also holds in
  \<open>rescheduleMatches\<close>, where the dependencies on completed matches are cleared
  before the loop.
\<close>

definition core_inv :: "(ident \<Rightarrow> Match option) \<Rightarrow> loop_params \<Rightarrow> sched_state \<Rightarrow> bool" where
  "core_inv lk p s \<longleftrightarrow>
     sched_inv lk (lp_restTime p) s \<and> once_inv (lp_dependents p) s \<and>
     (\<forall>d. distinct (dependents_of (lp_dependents p) d))"

text \<open>A match declares a dependency that no input match has as its identity.\<close>

definition dangling :: "Match list \<Rightarrow> bool" where
  "dangling matches \<longleftrightarrow>
     (\<exists>m \<in> set matches. \<exists>d \<in> set (deps_of m). d \<notin> set (map m_id matches))"

text \<open>
  The quantities that decrease, in lexicographic order, from one pass through the main
  loop to the next: the matches not yet placed; the pending events, counted once more
  while still in the future; the availability times still in the future.
\<close>

definition m_unplaced :: "sched_state \<Rightarrow> nat" where
  "m_unplaced s = length (st_matchMap s) - length (st_schedule s)"

definition m_events :: "sched_state \<Rightarrow> nat" where
  "m_events s =
     length (st_events s) + length (filter (\<lambda>ev. st_currentTime s < ev_time ev) (st_events s))"

definition m_wakeups :: "loop_params \<Rightarrow> sched_state \<Rightarrow> nat" where
  "m_wakeups p s =
     length (filter (\<lambda>st. st_currentTime s < ts_availableAt st) (map snd (st_teamStates s))) +
     length (filter (\<lambda>c. st_currentTime s < cs_availableAt c) (st_courtStates s)) +
     (case lp_floor p of Some fl \<Rightarrow> if st_currentTime s < fl then 1 else 0 | None \<Rightarrow> 0)"

definition loop_rel :: "loop_params \<Rightarrow> (sched_state \<times> sched_state) set" where
  "loop_rel p =
     inv_image (less_than <*lex*> less_than <*lex*> less_than)
       (\<lambda>s. (m_unplaced s, m_events s, m_wakeups p s))"

text \<open>
  The dates of a run stay below a horizon: each match still to be placed can push the
  latest date by at most its duration plus the larger of rest time and court setup time.
\<close>

definition max_duration :: "Match list \<Rightarrow> int" where
  "max_duration matches = fold (\<lambda>m d. max (duration m) d) matches 0"

definition turnaround :: "loop_params \<Rightarrow> int" where
  "turnaround p = max 0 (max (lp_restTime p) (lp_courtSetupTime p))"

definition slot_ms :: "int \<Rightarrow> loop_params \<Rightarrow> int" where
  "slot_ms D p = (D + turnaround p) * 60000"

definition horizon_inv :: "int \<Rightarrow> int \<Rightarrow> loop_params \<Rightarrow> sched_state \<Rightarrow> bool" where
  "horizon_inv H D p s \<longleftrightarrow>
     (\<forall>x \<in> set (st_teamStates s).
        ts_availableAt (snd x) \<le> H - int (m_unplaced s) * slot_ms D p) \<and>
     (\<forall>c \<in> set (st_courtStates s).
        cs_availableAt c \<le> H - int (m_unplaced s) * slot_ms D p) \<and>
     (\<forall>ev \<in> set (st_events s).
        ev_time ev + turnaround p * 60000 \<le> H - int (m_unplaced s) * slot_ms D p) \<and>
     st_currentTime s \<le> H - int (m_unplaced s) * slot_ms D p \<and>
     lp_initialTime p \<le> H - int (m_unplaced s) * slot_ms D p \<and>
     (\<forall>fl. lp_floor p = Some fl \<longrightarrow> fl \<le> st_currentTime s) \<and>
     st_courtStates s \<noteq> []"

text \<open>The latest date a run of \<open>scheduleMatches\<close> can reach.\<close>

definition horizon :: "int \<Rightarrow> Match list \<Rightarrow> SchedulerConfig \<Rightarrow> int" where
  "horizon start matches config =
     start + int (length matches) *
       ((max_duration matches +
         max 0 (max (restTime config)
                    (case courtSetupTime config of Some n \<Rightarrow> n | None \<Rightarrow> 0))) * 60000)"

text \<open>
  The latest date a run of \<open>rescheduleMatches\<close> can reach: the latest availability
  that the completed matches, the start time and the current time give, and one slot
  for each pending match.
\<close>

definition reschedule_turnaround :: "RescheduleConfig \<Rightarrow> int" where
  "reschedule_turnaround config =
     max 0 (max (restTime config) (case courtSetupTime config of Some n \<Rightarrow> n | None \<Rightarrow> 0))"

definition painted_latest :: "RescheduleConfig \<Rightarrow> int" where
  "painted_latest config =
     fold (\<lambda>c b. max (actualEndTime c + reschedule_turnaround config * 60000) b)
       (completedMatches config)
       (max (currentTime config)
            (case startTime config of Some t \<Rightarrow> t | None \<Rightarrow> currentTime config))"

definition reschedule_horizon :: "Match list \<Rightarrow> RescheduleConfig \<Rightarrow> int" where
  "reschedule_horizon matches config =
     painted_latest config +
     int (length (pendingMatches matches config)) *
       ((max_duration (pendingMatches matches config) + reschedule_turnaround config) * 60000)"

text \<open>
  The loop never reads the schedule: a run on a state with more entries in front of the
  schedule is the same run with those entries in front.
\<close>

definition rebase :: "ScheduledMatch list \<Rightarrow> sched_state \<Rightarrow> sched_state" where
  "rebase xs s = s\<lparr>st_schedule := xs @ st_schedule s\<rparr>"

fun rebase_outcome :: "ScheduledMatch list \<Rightarrow> outcome \<Rightarrow> outcome" where
  "rebase_outcome xs (Continue s) = Continue (rebase xs s)"
| "rebase_outcome xs (Break s) = Break (rebase xs s)"
| "rebase_outcome xs (Throw e) = Throw e"

text \<open>The state of \<open>rescheduleMatches\<close> at the entry of the loop, without the completed entries.\<close>

definition rescheduleInit0 ::
  "(ident \<Rightarrow> 'k::linorder) \<Rightarrow> Match list \<Rightarrow> Court list \<Rightarrow> RescheduleConfig \<Rightarrow> sched_state"
where
  "rescheduleInit0 ck matches courts config =
     (rescheduleInit ck matches courts config)\<lparr>st_schedule := []\<rparr>"

section \<open>Vocabulary of the validator\<close>

text \<open>The occupancy record that \<open>validateSchedule\<close> pushes for a schedule entry.\<close>

definition occ_of :: "ScheduledMatch \<Rightarrow> occupancy" where
  "occ_of e = \<lparr>oc_start = sm_startTime e, oc_end = sm_endTime e, oc_matchId = sm_matchId e\<rparr>"

text \<open>
  The entries of a team, in the order of the schedule: an entry stands once for each
  participant slot of its match that the team fills (once, unless both slots of a match
  name the same team).
\<close>

definition team_slots ::
  "(ident \<Rightarrow> Match option) \<Rightarrow> ident \<Rightarrow> ScheduledMatch list \<Rightarrow> ScheduledMatch list"
where
  "team_slots lk T sched =
     concat (map (\<lambda>e. map (\<lambda>t. e) (filter (\<lambda>t. t = T) (teams_of lk e))) sched)"

text \<open>The entries of the matches of a team, in the order of their start times.\<close>

definition team_sequence :: "Match list \<Rightarrow> ident \<Rightarrow> ScheduledMatch list \<Rightarrow> ScheduledMatch list" where
  "team_sequence matches T sched = sort_key sm_startTime (team_schedule matches T sched)"

text \<open>
  The entry scheduled for a match identity: \<open>new Map(schedule.map(s => [s.matchId, s]))\<close>
  keeps the last entry of the schedule with that identity.
\<close>

definition entry_of :: "ScheduledMatch list \<Rightarrow> ident \<Rightarrow> ScheduledMatch option" where
  "entry_of sched k = find (\<lambda>e. sm_matchId e = k) (rev sched)"

text \<open>The value of \<open>teamOccupancy.get(teamId)\<close>, with an absent key read as no occupancy.\<close>

definition occupancy_at :: "(ident \<times> occupancy list) list \<Rightarrow> ident \<Rightarrow> occupancy list" where
  "occupancy_at al T = (case map_of al T of Some os \<Rightarrow> os | None \<Rightarrow> [])"

text \<open>
  A schedule for the sample matches that breaks every rule: \<open>M3\<close> is played on the
  second court from minute 10 to minute 40, during \<open>M1\<close>, and \<open>M2\<close> is not scheduled.
\<close>

definition bad_schedule :: "ScheduledMatch list" where
  "bad_schedule =
     [\<lparr>sm_matchId = IdStr ''M1'', sm_courtId = IdNum 1, sm_startTime = 0,
       sm_endTime = 1800000, sm_round = 1\<rparr>,
      \<lparr>sm_matchId = IdStr ''M3'', sm_courtId = IdNum 2, sm_startTime = 600000,
       sm_endTime = 2400000, sm_round = 2\<rparr>]"

definition bad_errors :: "violation list" where
  "bad_errors =
     [PlaysSimultaneously (IdStr ''A'') (IdStr ''M3'') (IdStr ''M1''),
      InsufficientRest (IdStr ''A'') (IdStr ''M1'') (IdStr ''M3'') (- 1200000) 15,
      StartsBeforeDependency (IdStr ''M3'') (IdStr ''M1'') 600000 1800000,
      DependencyNotScheduled (IdStr ''M3'') (IdStr ''M2'')]"

text \<open>
  Schedules that the validator accepts. In the first only \<open>M1\<close> of the sample matches
  is scheduled. The second is for three matches of which two have the identity \<open>M1\<close>.
  The third has two entries for \<open>M3\<close>, the first of them an hour before its
  dependencies \<open>M1\<close> and \<open>M2\<close>.
\<close>

definition only_m1 :: "ScheduledMatch list" where
  "only_m1 = [entry ''M1'' 1 0 1800000 1]"

definition shared_id_matches :: "Match list" where
  "shared_id_matches =
     [mkMatch ''M1'' ''A'' ''B'' 1 30 [],
      mkMatch ''M1'' ''C'' ''D'' 1 30 [],
      mkMatch ''M5'' ''A'' ''G'' 1 30 []]"

definition shared_id_schedule :: "ScheduledMatch list" where
  "shared_id_schedule = [entry ''M1'' 1 0 1800000 1, entry ''M5'' 2 0 1800000 1]"

definition twice_schedule :: "ScheduledMatch list" where
  "twice_schedule =
     [entry ''M3'' 1 0 1800000 2,
      entry ''M1'' 1 3600000 5400000 1,
      entry ''M2'' 2 3600000 5400000 1,
      entry ''M3'' 1 6300000 8100000 2]"


section \<open>The ready queue is ordered\<close>

lemma set_remove_subset: "set (remove i q) \<subseteq> set q"
  by (induction q) auto




lemma precedes_key: "precedes ck a b \<longleftrightarrow> task_key ck a \<le> task_key ck b"
  by (auto simp: precedes_def task_key_def)




section \<open>Concrete runs\<close>

lemma run_sample:
  "scheduleMatches codeunit_key 7 sample_matches sample_courts sample_config
     = Some (Inr sample_result)"
  by code_simp

lemma rerun_sample:
  "rescheduleMatches codeunit_key sample_matches sample_courts sample_reconfig
     = Some (Inr sample_reresult)"
  by code_simp

section \<open>The returned list is in order of start time\<close>

lemma scheduleMatches_InrD:
  assumes "scheduleMatches ck now matches courts config = Some (Inr r)"
  obtains sched where "schedule r = sort_key sm_startTime sched"
  using assms
  by (auto simp: scheduleMatches_def Let_def split: if_splits option.splits sum.splits)

lemma rescheduleMatches_InrD:
  assumes "rescheduleMatches ck matches courts config = Some (Inr r)"
  obtains sched where "schedule r = sort_key sm_startTime sched"
  using assms
  by (auto simp: rescheduleMatches_def Let_def split: if_splits option.splits sum.splits)

text \<open>
  Claim C10. The list returned by \<open>scheduleMatches\<close> and the list returned by
  \<open>rescheduleMatches\<close> are in ascending order of start time.
\<close>

theorem C10_sorted_by_start:
  "(scheduleMatches ck now matches courts config = Some (Inr r) \<longrightarrow>
      sorted (map sm_startTime (schedule r))) \<and>
   (rescheduleMatches ck matches courts reconfig = Some (Inr r') \<longrightarrow>
      sorted (map sm_startTime (schedule r')))"
proof (intro conjI impI)
  assume "scheduleMatches ck now matches courts config = Some (Inr r)"
  then obtain sched where "schedule r = sort_key sm_startTime sched"
    by (rule scheduleMatches_InrD)
  then show "sorted (map sm_startTime (schedule r))" by simp
next
  assume "rescheduleMatches ck matches courts reconfig = Some (Inr r')"
  then obtain sched where "schedule r' = sort_key sm_startTime sched"
    by (rule rescheduleMatches_InrD)
  then show "sorted (map sm_startTime (schedule r'))" by simp
qed

theorem C10_sorted_by_start_witness:
  "scheduleMatches codeunit_key 7 sample_matches sample_courts sample_config
     = Some (Inr sample_result) \<and>
   sorted (map sm_startTime (schedule sample_result)) \<and>
   rescheduleMatches codeunit_key sample_matches sample_courts sample_reconfig
     = Some (Inr sample_reresult) \<and>
   sorted (map sm_startTime (schedule sample_reresult))"
  using C10_sorted_by_start [of codeunit_key 7 sample_matches sample_courts sample_config
      sample_result sample_reconfig sample_reresult]
    run_sample rerun_sample
  by blast


section \<open>The loop: decomposition and invariant rule\<close>

lemma handleEvent_frame [simp]:
  "st_schedule (handleEvent ck p ev s) = st_schedule s"
  "st_currentTime (handleEvent ck p ev s) = st_currentTime s"
  "st_events (handleEvent ck p ev s) = st_events s"
  by (simp_all add: handleEvent_def Let_def)

lemma processEvents_frame [simp]:
  "st_schedule (processEvents ck p evs s) = st_schedule s"
  "st_currentTime (processEvents ck p evs s) = st_currentTime s"
  by (induction evs arbitrary: s) simp_all

lemma fold_max_ge: 
  "cur \<le> fold (\<lambda>teamId earliestStart.
             case map_of teamStates (Some teamId) of
               Some state \<Rightarrow>
                 if ts_availableAt state > earliestStart then ts_availableAt state
                 else earliestStart
             | None \<Rightarrow> earliestStart) ids (cur::int)"
proof (induction ids arbitrary: cur)
  case Nil
  then show ?case by simp
next
  case (Cons a ids)
  show ?case
    apply (simp split: option.splits)
    apply (intro conjI impI allI)
    using Cons.IH order_trans less_imp_le apply blast
    using Cons.IH order_trans less_imp_le apply blast
    using Cons.IH order_trans less_imp_le apply blast
    done
qed

lemma calculateEarliestStartTime_ge:
  "cur \<le> calculateEarliestStartTime match cur teamStates"
  unfolding calculateEarliestStartTime_def by (rule fold_max_ge)

lemma findAvailableCourt_from_bound:
  "findAvailableCourt_from time i ec et courts = Some (j, t) \<Longrightarrow>
     (case ec of None \<Rightarrow> True | Some (k, c) \<Rightarrow> k < i) \<Longrightarrow>
     j < i + length courts"
proof (induction courts arbitrary: i ec et)
  case Nil
  then show ?case by (auto split: option.splits)
next
  case (Cons c courts)
  show ?case
  proof (cases "cs_availableAt c \<le> time \<and> cs_currentMatch c = None")
    case True
    with Cons.prems show ?thesis by simp
  next
    case False
    note nf = this
    show ?thesis
    proof (cases "cs_availableAt c < et")
      case True
      have "findAvailableCourt_from time (Suc i) (Some (i, c)) (cs_availableAt c) courts = Some (j, t)"
        using Cons.prems(1) by (simp only: findAvailableCourt_from.simps if_not_P [OF nf] if_P [OF True])
      from Cons.IH [OF this] show ?thesis by simp
    next
      case False
      have "findAvailableCourt_from time (Suc i) ec et courts = Some (j, t)"
        using Cons.prems(1) by (simp only: findAvailableCourt_from.simps if_not_P [OF nf] if_not_P [OF False])
      moreover have "(case ec of None \<Rightarrow> True | Some (k, c) \<Rightarrow> k < Suc i)"
        using Cons.prems(2) by (auto split: option.splits)
      ultimately show ?thesis using Cons.IH [of "Suc i" ec et] by simp
    qed
  qed
qed

lemma findAvailableCourt_bound:
  "findAvailableCourt time courts = Some (j, t) \<Longrightarrow> j < length courts"
  using findAvailableCourt_from_bound [of time 0 None MAX_DATE courts j t]
  by (simp add: findAvailableCourt_def)

lemma tryTask_SomeD:
  assumes "tryTask p s task = Some s'"
  shows "\<exists>ci cav. findAvailableCourt (st_currentTime s) (st_courtStates s) = Some (ci, cav) \<and>
           cav \<le> st_currentTime s \<and>
           ci < length (st_courtStates s) \<and>
           areTeamsAvailable (task_match task) (st_currentTime s) (st_teamStates s) \<and>
           calculateEarliestStartTime (task_match task) (st_currentTime s) (st_teamStates s) = st_currentTime s \<and>
           (\<forall>fl. lp_floor p = Some fl \<longrightarrow> fl \<le> st_currentTime s) \<and>
           s' = placeAt p s task ci"
proof -
  from assms have av: "areTeamsAvailable (task_match task) (st_currentTime s) (st_teamStates s)"
    by (auto simp: tryTask_def Let_def split: if_splits)
  from assms av obtain ci cav where fc: "findAvailableCourt (st_currentTime s) (st_courtStates s) = Some (ci, cav)"
    by (auto simp: tryTask_def Let_def split: if_splits option.splits)
  let ?te = "calculateEarliestStartTime (task_match task) (st_currentTime s) (st_teamStates s)"
  let ?st = "(case lp_floor p of None \<Rightarrow> max cav ?te | Some fl \<Rightarrow> max (max cav ?te) fl)"
  have ge: "st_currentTime s \<le> ?te" by (rule calculateEarliestStartTime_ge)
  from assms av fc have le: "?st \<le> st_currentTime s"
    by (auto simp: tryTask_def Let_def split: if_splits)
  have ge2: "?te \<le> ?st" by (auto split: option.splits)
  from ge le ge2 have te: "?te = st_currentTime s" by linarith
  have ge3: "cav \<le> ?st" by (auto split: option.splits)
  with le have cav: "cav \<le> st_currentTime s" by linarith
  have fl: "\<forall>fl. lp_floor p = Some fl \<longrightarrow> fl \<le> st_currentTime s"
    using le by (auto split: option.splits)
  have st: "?st = st_currentTime s" using le ge ge2 by linarith
  from assms av fc le have "s' = placeAt p s task ci"
    unfolding tryTask_def placeAt_def Let_def using st by (simp split: if_splits)
  with fc cav findAvailableCourt_bound [OF fc] av te fl show ?thesis by blast
qed

lemma placementPass_SomeD:
  "placementPass p s q = Some s' \<Longrightarrow> \<exists>task \<in> set q. tryTask p s task = Some s'"
  by (induction q) (auto split: option.splits)

lemma placementPass_NoneD:
  "placementPass p s q = None \<Longrightarrow> task \<in> set q \<Longrightarrow> tryTask p s task = None"
  by (induction q) (auto split: option.splits)

lemma state_events_id [simp]: "s\<lparr>st_events := st_events s\<rparr> = s"
  by simp

lemma processEvents_inv:
  assumes "I s" and "st_events s = evs"
    and step: "\<And>s ev rest. I s \<Longrightarrow> st_events s = ev # rest \<Longrightarrow>
                 ev_time ev \<le> st_currentTime s \<Longrightarrow>
                 I (handleEvent ck p ev (s\<lparr>st_events := rest\<rparr>))"
  shows "I (processEvents ck p evs s) \<and> flushed (processEvents ck p evs s)"
  using assms(1,2)
proof (induction evs arbitrary: s)
  case Nil
  then have eq: "s\<lparr>st_events := []\<rparr> = s" by (cases s) auto
  have "flushed s" using Nil.prems(2) by (simp add: flushed_def)
  with Nil.prems(1) show ?case unfolding processEvents.simps eq by blast
next
  case (Cons ev rest)
  show ?case
  proof (cases "ev_time ev \<le> st_currentTime s")
    case True
    let ?s1 = "handleEvent ck p ev (s\<lparr>st_events := rest\<rparr>)"
    have "I ?s1" using step [OF Cons.prems(1) Cons.prems(2) True] .
    moreover have "st_events ?s1 = rest" by simp
    ultimately show ?thesis using Cons.IH [of ?s1] True by simp
  next
    case False
    have eq: "s\<lparr>st_events := ev # rest\<rparr> = s" using Cons.prems(2) by (cases s) auto
    have "flushed s" using Cons.prems(2) False by (simp add: flushed_def)
    with Cons.prems(1) show ?thesis
      unfolding processEvents.simps if_not_P [OF False] eq by blast
  qed
qed

lemma iteration_cases:
  assumes "iteration ck p s = out"
  obtains (placed) task s' where "out = Continue s'"
      "task \<in> set (st_queue (processEvents ck p (st_events s) s))"
      "tryTask p (processEvents ck p (st_events s) s) task = Some s'"
  | (next_event) "out = Continue ((processEvents ck p (st_events s) s)
        \<lparr>st_currentTime := ev_time (hd (st_events (processEvents ck p (st_events s) s)))\<rparr>)"
      "placementPass p (processEvents ck p (st_events s) s)
         (st_queue (processEvents ck p (st_events s) s)) = None"
      "st_events (processEvents ck p (st_events s) s) \<noteq> []"
  | (next_time) "out = Continue ((processEvents ck p (st_events s) s)
        \<lparr>st_currentTime := findNextTime p (processEvents ck p (st_events s) s)\<rparr>)"
      "placementPass p (processEvents ck p (st_events s) s)
         (st_queue (processEvents ck p (st_events s) s)) = None"
      "st_events (processEvents ck p (st_events s) s) = []"
      "st_queue (processEvents ck p (st_events s) s) \<noteq> []"
      "findNextTime p (processEvents ck p (st_events s) s) < MAX_DATE"
  | (deadlock) "out = Throw (lp_deadlock p)"
      "placementPass p (processEvents ck p (st_events s) s)
         (st_queue (processEvents ck p (st_events s) s)) = None"
      "st_events (processEvents ck p (st_events s) s) = []"
      "st_queue (processEvents ck p (st_events s) s) \<noteq> []"
      "\<not> findNextTime p (processEvents ck p (st_events s) s) < MAX_DATE"
  | (finished) "out = Break (processEvents ck p (st_events s) s)"
      "st_events (processEvents ck p (st_events s) s) = []"
      "st_queue (processEvents ck p (st_events s) s) = []"
proof (cases "placementPass p (processEvents ck p (st_events s) s)
         (st_queue (processEvents ck p (st_events s) s))")
  case (Some s')
  from placementPass_SomeD [OF Some] obtain task where
    "task \<in> set (st_queue (processEvents ck p (st_events s) s))"
    "tryTask p (processEvents ck p (st_events s) s) task = Some s'" by blast
  moreover from assms Some have "out = Continue s'" by (simp add: iteration_def Let_def)
  ultimately show ?thesis using placed by blast
next
  case None
  with assms show ?thesis
    by (cases "st_events (processEvents ck p (st_events s) s) = []";
        cases "st_queue (processEvents ck p (st_events s) s) = []";
        cases "findNextTime p (processEvents ck p (st_events s) s) < MAX_DATE")
       (auto simp: iteration_def Let_def intro: next_event next_time deadlock finished)
qed

lemma candidate_cases: "candidate cur t n = n \<or> (candidate cur t n = t \<and> cur < t \<and> t < n)"
  by (simp add: candidate_def)

lemma fold_candidate_gt:
  "n = M \<or> cur < n \<Longrightarrow>
     fold (\<lambda>x. candidate cur (f x)) xs n = M \<or> cur < fold (\<lambda>x. candidate cur (f x)) xs n"
proof (induction xs arbitrary: n)
  case Nil
  then show ?case by simp
next
  case (Cons x xs)
  have "candidate cur (f x) n = M \<or> cur < candidate cur (f x) n"
    using Cons.prems by (auto simp: candidate_def)
  from Cons.IH [OF this] show ?case by simp
qed

lemma findNextTime_gt:
  assumes "findNextTime p s < MAX_DATE"
  shows "st_currentTime s < findNextTime p s"
proof -
  let ?cur = "st_currentTime s"
  let ?n1 = "fold (\<lambda>state. candidate ?cur (ts_availableAt state)) (map snd (st_teamStates s)) MAX_DATE"
  let ?n2 = "fold (\<lambda>court. candidate ?cur (cs_availableAt court)) (st_courtStates s) ?n1"
  have 1: "?n1 = MAX_DATE \<or> ?cur < ?n1" by (rule fold_candidate_gt) simp
  have 2: "?n2 = MAX_DATE \<or> ?cur < ?n2" by (rule fold_candidate_gt) (rule 1)
  have 3: "findNextTime p s = MAX_DATE \<or> ?cur < findNextTime p s"
    using 2 by (auto simp: findNextTime_def Let_def candidate_def split: option.splits)
  with assms show ?thesis by auto
qed

lemma iteration_Break:
  "iteration ck p s = Break s' \<Longrightarrow> st_queue s' = [] \<and> st_events s' = []"
  by (auto simp: iteration_def Let_def split: option.splits if_splits)

lemma mainLoop_invariant:
  assumes run: "mainLoop ck p s = Some (Inr s')"
    and init: "I s"
    and step: "\<And>s s'. I s \<Longrightarrow> st_queue s \<noteq> [] \<or> st_events s \<noteq> [] \<Longrightarrow>
                 iteration ck p s = Continue s' \<Longrightarrow> I s'"
    and brk: "\<And>s s'. I s \<Longrightarrow> st_queue s \<noteq> [] \<or> st_events s \<noteq> [] \<Longrightarrow>
                 iteration ck p s = Break s' \<Longrightarrow> I s'"
  shows "I s' \<and> st_queue s' = [] \<and> st_events s' = []"
proof -
  define P where "P = (\<lambda>ck' p' s (y :: error + sched_state). ck' = ck \<and> p' = p \<and> I s \<longrightarrow>
          (\<forall>s'. y = Inr s' \<longrightarrow> I s' \<and> st_queue s' = [] \<and> st_events s' = []))"
  have "P ck p s (Inr s')"
  proof (rule mainLoop.raw_induct [OF _ run])
    fix loop :: "(ident \<Rightarrow> 'a) \<Rightarrow> loop_params \<Rightarrow> sched_state \<Rightarrow> (error + sched_state) option"
      and ck' p' s y
    assume IH: "\<And>ck p s y. loop ck p s = Some y \<Longrightarrow> P ck p s y"
      and body: "(if st_queue s \<noteq> [] \<or> st_events s \<noteq> []
        then case iteration ck' p' s of Continue s' \<Rightarrow> loop ck' p' s'
           | Break s' \<Rightarrow> Some (Inr s') | Throw e \<Rightarrow> Some (Inl e)
        else Some (Inr s)) = Some y"
    show "P ck' p' s y"
      unfolding P_def
    proof (intro impI allI, elim conjE)
      fix s'
      assume eq: "ck' = ck" "p' = p" and inv: "I s" and y: "y = Inr s'"
      show "I s' \<and> st_queue s' = [] \<and> st_events s' = []"
      proof (cases "st_queue s \<noteq> [] \<or> st_events s \<noteq> []")
        case False
        with body y inv show ?thesis by simp
      next
        case True
        show ?thesis
        proof (cases "iteration ck p s")
          case (Continue s1)
          with True body eq have "loop ck p s1 = Some y" by simp
          from IH [OF this] have "P ck p s1 y" .
          moreover have "I s1" using step [OF inv True Continue] .
          ultimately show ?thesis using y by (simp add: P_def)
        next
          case (Break s1)
          with True body eq y have "s1 = s'" by simp
          with brk [OF inv True Break] iteration_Break [OF Break] show ?thesis by simp
        next
          case (Throw e)
          with True body eq y show ?thesis by simp
        qed
      qed
    qed
  qed
  with init show ?thesis by (simp add: P_def)
qed

lemma loop_invariant:
  assumes run: "mainLoop ck p s = Some (Inr s')"
    and init: "I s"
    and flush: "\<And>s ev rest. I s \<Longrightarrow> st_events s = ev # rest \<Longrightarrow>
                 ev_time ev \<le> st_currentTime s \<Longrightarrow>
                 I (handleEvent ck p ev (s\<lparr>st_events := rest\<rparr>))"
    and place: "\<And>s task s'. I s \<Longrightarrow> flushed s \<Longrightarrow> task \<in> set (st_queue s) \<Longrightarrow>
                 tryTask p s task = Some s' \<Longrightarrow> I s'"
    and advance: "\<And>s t. I s \<Longrightarrow> flushed s \<Longrightarrow> st_currentTime s < t \<Longrightarrow>
                 I (s\<lparr>st_currentTime := t\<rparr>)"
  shows "I s' \<and> st_queue s' = [] \<and> st_events s' = []"
proof (rule mainLoop_invariant [where I = I, OF run init])
  fix s s'
  assume inv: "I s" and it: "iteration ck p s = Continue s'"
  let ?s1 = "processEvents ck p (st_events s) s"
  have s1: "I ?s1 \<and> flushed ?s1"
    by (rule processEvents_inv [OF inv refl flush])
  from it show "I s'"
  proof (cases rule: iteration_cases)
    case (placed task s'')
    with s1 place show ?thesis by blast
  next
    case next_event
    then have gt: "st_currentTime ?s1 < ev_time (hd (st_events ?s1))"
      using s1 by (cases "st_events ?s1") (auto simp: flushed_def)
    from next_event(1) advance [OF conjunct1 [OF s1] conjunct2 [OF s1] gt] show ?thesis by simp
  next
    case next_time
    from next_time(1) advance [OF conjunct1 [OF s1] conjunct2 [OF s1] findNextTime_gt [OF next_time(5)]]
    show ?thesis by simp
  next
    case deadlock
    then show ?thesis by simp
  next
    case finished
    then show ?thesis by simp
  qed
next
  fix s s'
  assume inv: "I s" and it: "iteration ck p s = Break s'"
  let ?s1 = "processEvents ck p (st_events s) s"
  have s1: "I ?s1 \<and> flushed ?s1"
    by (rule processEvents_inv [OF inv refl flush])
  from it show "I s'"
    by (cases rule: iteration_cases) (use s1 in auto)
qed

section \<open>What the entry points return\<close>

lemma set_set_add [simp]: "set (set_add x xs) = insert x (set xs)"
  by (auto simp: set_add_def)

lemma set_fold_set_add: "set (fold set_add xs acc) = set xs \<union> set acc"
  by (induction xs arbitrary: acc) auto

lemma set_new_Set [simp]: "set (new_Set xs) = set xs"
  by (simp add: new_Set_def set_fold_set_add)

lemma set_completedMatchIds [simp]:
  "set (completedMatchIds config) = cm_matchId ` set (completedMatches config)"
  by (simp add: completedMatchIds_def)

lemma rescheduleMatches_InrE:
  assumes "rescheduleMatches ck matches courts config = Some (Inr r)"
  obtains s where
    "mainLoop ck (rescheduleParams matches config) (rescheduleInit ck matches courts config)
       = Some (Inr s)"
    "schedule r = sort_key sm_startTime
       (filter (\<lambda>e. sm_matchId e \<notin> cm_matchId ` set (completedMatches config)) (st_schedule s))"
    "length (filter (\<lambda>e. sm_matchId e \<notin> cm_matchId ` set (completedMatches config)) (st_schedule s))
       = length (pendingMatches matches config)"
  using assms unfolding rescheduleMatches_def Let_def
  by (auto split: if_splits option.splits sum.splits)

lemma scheduleMatches_InrE:
  assumes "scheduleMatches ck now matches courts config = Some (Inr r)"
  obtains s start where
    "start = (case startTime config of Some t \<Rightarrow> t | None \<Rightarrow> now)"
    "mainLoop ck (scheduleParams start matches config) (scheduleInit ck start matches courts)
       = Some (Inr s)"
    "schedule r = sort_key sm_startTime (st_schedule s)"
    "length (st_schedule s) = length matches"
    "matches \<noteq> []" "courts \<noteq> []"
  using assms unfolding scheduleMatches_def Let_def
  by (auto split: if_splits option.splits sum.splits)

lemma placeAt_schedule:
  "st_schedule (placeAt p s task ci) = st_schedule s @
     [\<lparr>sm_matchId = m_id (task_match task),
       sm_courtId = cs_courtId (st_courtStates s ! ci),
       sm_startTime = st_currentTime s,
       sm_endTime = st_currentTime s + duration (task_match task) * 60000,
       sm_round = m_round (task_match task)\<rparr>]"
  by (simp add: placeAt_def Let_def)

section \<open>Effects of the loop on the team states\<close>

lemma map_of_freeTeam_other:
  "k' \<noteq> k \<Longrightarrow> map_of (freeTeam k init t ts) k' = map_of ts k'"
  by (auto simp: freeTeam_def ensureTeamState_def Let_def update_conv' split: option.splits)

lemma map_of_freeTeam_same:
  "\<exists>st. map_of (freeTeam k init t ts) k = Some st \<and>
        ts_currentMatch st = None \<and> ts_availableAt st = t"
  by (auto simp: freeTeam_def ensureTeamState_def Let_def update_conv' split: option.splits)

lemma map_of_occupyTeam_other:
  "k' \<noteq> Some T \<Longrightarrow> map_of (occupyTeam mid init T ts) k' = map_of ts k'"
  by (auto simp: occupyTeam_def ensureTeamState_def Let_def update_conv' split: option.splits)

lemma map_of_occupyTeam_same:
  "\<exists>st. map_of (occupyTeam mid init T ts) (Some T) = Some st \<and> ts_currentMatch st = Some mid"
  by (auto simp: occupyTeam_def ensureTeamState_def Let_def update_conv' split: option.splits)

lemma map_of_fold_occupyTeam_other:
  "k \<notin> Some ` set ids \<Longrightarrow> map_of (fold (occupyTeam mid init) ids ts) k = map_of ts k"
  by (induction ids arbitrary: ts) (auto simp: map_of_occupyTeam_other)

lemma map_of_fold_occupyTeam_same:
  "T \<in> set ids \<Longrightarrow>
     \<exists>st. map_of (fold (occupyTeam mid init) ids ts) (Some T) = Some st \<and>
          ts_currentMatch st = Some mid"
proof (induction ids arbitrary: ts)
  case Nil
  then show ?case by simp
next
  case (Cons a ids)
  show ?case
  proof (cases "T \<in> set ids")
    case True
    from Cons.IH [OF True] show ?thesis by simp
  next
    case False
    with Cons.prems have a: "a = T" by simp
    from False have "Some T \<notin> Some ` set ids" by auto
    from map_of_fold_occupyTeam_other [OF this]
    show ?thesis using map_of_occupyTeam_same [of mid init T ts] by (simp add: a)
  qed
qed

lemma getTeamIds_length: "length (getTeamIds m) \<le> 2"
  by (cases "team1 m"; cases "team2 m") (auto simp: getTeamIds_def)

lemma getTeamIds_nth_opt:
  "T \<in> set (getTeamIds m) \<longleftrightarrow>
     nth_opt (getTeamIds m) 0 = Some T \<or> nth_opt (getTeamIds m) 1 = Some T"
  by (cases "team1 m"; cases "team2 m") (auto simp: getTeamIds_def nth_opt_def)

lemma handleEvent_teamStates:
  "st_teamStates (handleEvent ck p ev s) =
     freeTeam (ev_team2Id ev) (lp_initialTime p) (ev_time ev + lp_restTime p * 60000)
       (freeTeam (ev_team1Id ev) (lp_initialTime p) (ev_time ev + lp_restTime p * 60000)
          (st_teamStates s))"
  by (simp add: handleEvent_def Let_def)

lemma placeAt_fields:
  "st_teamStates (placeAt p s task ci) =
     fold (occupyTeam (m_id (task_match task)) (lp_initialTime p))
       (getTeamIds (task_match task)) (st_teamStates s)"
  "st_currentTime (placeAt p s task ci) = st_currentTime s"
  "st_events (placeAt p s task ci) = sort_key ev_time (st_events s @
     [\<lparr>ev_time = st_currentTime s + duration (task_match task) * 60000,
       ev_matchId = m_id (task_match task),
       ev_courtId = cs_courtId (st_courtStates s ! ci),
       ev_team1Id = nth_opt (getTeamIds (task_match task)) 0,
       ev_team2Id = nth_opt (getTeamIds (task_match task)) 1\<rparr>])"
  "st_queue (placeAt p s task ci) = remove (m_id (task_match task)) (st_queue s)"
  "st_matchMap (placeAt p s task ci) = st_matchMap s"
  by (simp_all add: placeAt_def Let_def)

section \<open>The team invariant\<close>

lemma map_of_handleEvent_teams_other:
  assumes "\<not> involves T ev"
  shows "map_of (st_teamStates (handleEvent ck p ev s)) (Some T) = map_of (st_teamStates s) (Some T)"
proof -
  from assms have "Some T \<noteq> ev_team1Id ev" "Some T \<noteq> ev_team2Id ev"
    by (auto simp: involves_def)
  then show ?thesis by (simp add: handleEvent_teamStates map_of_freeTeam_other)
qed

lemma map_of_handleEvent_teams_same:
  assumes "involves T ev"
  shows "\<exists>st. map_of (st_teamStates (handleEvent ck p ev s)) (Some T) = Some st \<and>
           ts_currentMatch st = None \<and>
           ts_availableAt st = ev_time ev + lp_restTime p * 60000"
proof (cases "ev_team2Id ev = Some T")
  case True
  then show ?thesis
    using map_of_freeTeam_same [of "Some T"] by (simp add: handleEvent_teamStates)
next
  case False
  with assms have 1: "ev_team1Id ev = Some T" by (simp add: involves_def)
  from False have "Some T \<noteq> ev_team2Id ev" by simp
  then show ?thesis
    using map_of_freeTeam_same [of "Some T"]
    by (simp add: handleEvent_teamStates map_of_freeTeam_other 1)
qed

lemma team_inv_flush:
  assumes inv: "team_inv lk (lp_restTime p) s T"
    and ev: "st_events s = ev # rest"
    and due: "ev_time ev \<le> st_currentTime s"
  shows "team_inv lk (lp_restTime p) (handleEvent ck p ev (s\<lparr>st_events := rest\<rparr>)) T"
proof (cases "involves T ev")
  case False
  then have f: "filter (involves T) (st_events s) = filter (involves T) rest"
    by (simp add: ev)
  have t: "map_of (st_teamStates (handleEvent ck p ev (s\<lparr>st_events := rest\<rparr>))) (Some T)
             = map_of (st_teamStates s) (Some T)"
    using map_of_handleEvent_teams_other [OF False, of ck p "s\<lparr>st_events := rest\<rparr>"] by simp
  have sub: "set rest \<subseteq> set (st_events s)" by (auto simp: ev)
  from inv show ?thesis
    unfolding team_inv_def t
    using sub by (auto simp: f split: option.splits)
next
  case True
  let ?ET = "team_entries lk T (st_schedule s)"
  let ?s' = "handleEvent ck p ev (s\<lparr>st_events := rest\<rparr>)"
  from True have f: "filter (involves T) (st_events s) = ev # filter (involves T) rest"
    by (simp add: ev)
  from inv f obtain st m where
    st: "map_of (st_teamStates s) (Some T) = Some st" "ts_currentMatch st = Some m" and
    ne: "?ET \<noteq> []" and
    len: "length (filter (involves T) (st_events s)) = 1" and
    tm: "\<forall>ev \<in> set (st_events s). involves T ev \<longrightarrow> ev_time ev = sm_endTime (last ?ET)" and
    bl: "\<forall>e \<in> set (butlast ?ET). sm_endTime e \<le> st_currentTime s"
    unfolding team_inv_def by (auto split: option.splits)
  from inv have su: "successively (gap_ok (lp_restTime p)) ?ET" and so: "sorted_wrt ends_before ?ET"
    unfolding team_inv_def by auto
  from len f have f': "filter (involves T) rest = []" by simp
  from tm True have evt: "ev_time ev = sm_endTime (last ?ET)" by (simp add: ev)
  from map_of_handleEvent_teams_same [OF True, of ck p "s\<lparr>st_events := rest\<rparr>"]
  obtain st' where st': "map_of (st_teamStates ?s') (Some T) = Some st'"
    "ts_currentMatch st' = None" "ts_availableAt st' = ev_time ev + lp_restTime p * 60000"
    by blast
  have all: "\<forall>e \<in> set ?ET. sm_endTime e \<le> st_currentTime s"
  proof
    fix e assume "e \<in> set ?ET"
    then have "e \<in> set (butlast ?ET) \<or> e = last ?ET"
      using ne by (metis append_butlast_last_id in_set_conv_decomp insert_iff list.set(2) rotate1.simps(2) set_rotate1)
    with bl evt due show "sm_endTime e \<le> st_currentTime s" by auto
  qed
  show ?thesis
    unfolding team_inv_def
    using su so f' all evt st' by simp
qed

lemma team_inv_advance:
  assumes inv: "team_inv lk rest s T" and le: "st_currentTime s \<le> t"
  shows "team_inv lk rest (s\<lparr>st_currentTime := t\<rparr>) T"
  using inv le unfolding team_inv_def
  by (auto split: option.splits intro: order_trans)

lemma filter_involves_placeAt:
  "filter (involves T) (st_events (placeAt p s task ci)) =
     sort_key ev_time (filter (involves T) (st_events s) @
       (if T \<in> set (getTeamIds (task_match task))
        then [\<lparr>ev_time = st_currentTime s + duration (task_match task) * 60000,
               ev_matchId = m_id (task_match task),
               ev_courtId = cs_courtId (st_courtStates s ! ci),
               ev_team1Id = nth_opt (getTeamIds (task_match task)) 0,
               ev_team2Id = nth_opt (getTeamIds (task_match task)) 1\<rparr>]
        else []))"
  by (simp add: placeAt_fields filter_sort involves_def getTeamIds_nth_opt)

lemma team_entries_placeAt:
  assumes "lk (m_id (task_match task)) = Some (task_match task)"
  shows "team_entries lk T (st_schedule (placeAt p s task ci)) =
     team_entries lk T (st_schedule s) @
       (if T \<in> set (getTeamIds (task_match task))
        then [\<lparr>sm_matchId = m_id (task_match task),
               sm_courtId = cs_courtId (st_courtStates s ! ci),
               sm_startTime = st_currentTime s,
               sm_endTime = st_currentTime s + duration (task_match task) * 60000,
               sm_round = m_round (task_match task)\<rparr>]
        else [])"
  using assms by (simp add: team_entries_def placeAt_schedule teams_of_def)

lemma team_inv_place:
  assumes inv: "team_inv lk (lp_restTime p) s T"
    and reg: "lk (m_id (task_match task)) = Some (task_match task)"
    and avail: "areTeamsAvailable (task_match task) (st_currentTime s) (st_teamStates s)"
  shows "team_inv lk (lp_restTime p) (placeAt p s task ci) T"
proof (cases "T \<in> set (getTeamIds (task_match task))")
  case False
  then have "Some T \<notin> Some ` set (getTeamIds (task_match task))" by auto
  then have t: "map_of (st_teamStates (placeAt p s task ci)) (Some T) = map_of (st_teamStates s) (Some T)"
    by (simp add: placeAt_fields map_of_fold_occupyTeam_other)
  have f: "filter (involves T) (st_events (placeAt p s task ci))
             = sort_key ev_time (filter (involves T) (st_events s))"
    using False by (simp add: filter_involves_placeAt)
  have e: "team_entries lk T (st_schedule (placeAt p s task ci)) = team_entries lk T (st_schedule s)"
    using False by (simp add: team_entries_placeAt [of lk task, OF reg])
  have se: "\<And>ev. ev \<in> set (st_events (placeAt p s task ci)) \<Longrightarrow> involves T ev \<Longrightarrow>
              ev \<in> set (st_events s)"
  proof -
    fix ev assume "ev \<in> set (st_events (placeAt p s task ci))" "involves T ev"
    then have "ev \<in> set (filter (involves T) (st_events (placeAt p s task ci)))" by simp
    then show "ev \<in> set (st_events s)" unfolding f by simp
  qed
  from inv show ?thesis
    unfolding team_inv_def t e f
    by (auto simp: placeAt_fields(2) split: option.splits dest: se)
next
  case True
  let ?ET = "team_entries lk T (st_schedule s)"
  let ?cur = "st_currentTime s"
  let ?e = "\<lparr>sm_matchId = m_id (task_match task),
               sm_courtId = cs_courtId (st_courtStates s ! ci),
               sm_startTime = ?cur,
               sm_endTime = ?cur + duration (task_match task) * 60000,
               sm_round = m_round (task_match task)\<rparr>"
  let ?ev = "\<lparr>ev_time = ?cur + duration (task_match task) * 60000,
               ev_matchId = m_id (task_match task),
               ev_courtId = cs_courtId (st_courtStates s ! ci),
               ev_team1Id = nth_opt (getTeamIds (task_match task)) 0,
               ev_team2Id = nth_opt (getTeamIds (task_match task)) 1\<rparr>"
  from avail True have av: "isTeamAvailable T ?cur (st_teamStates s)"
    by (simp add: areTeamsAvailable_def list_all_iff)
  from inv have su: "successively (gap_ok (lp_restTime p)) ?ET" and so: "sorted_wrt ends_before ?ET"
    unfolding team_inv_def by auto
  from inv av have nf: "filter (involves T) (st_events s) = []"
    unfolding team_inv_def isTeamAvailable_def by (auto split: option.splits)
  from inv av have ends: "\<forall>e \<in> set ?ET. sm_endTime e \<le> ?cur"
    unfolding team_inv_def isTeamAvailable_def by (auto split: option.splits)
  from inv av have gap: "?ET \<noteq> [] \<longrightarrow> sm_endTime (last ?ET) + lp_restTime p * 60000 \<le> ?cur"
    unfolding team_inv_def isTeamAvailable_def by (auto split: option.splits)
  have e: "team_entries lk T (st_schedule (placeAt p s task ci)) = ?ET @ [?e]"
    using True by (simp add: team_entries_placeAt [of lk task, OF reg])
  have f: "filter (involves T) (st_events (placeAt p s task ci)) = [?ev]"
    using True nf by (simp add: filter_involves_placeAt)
  from map_of_fold_occupyTeam_same [OF True] obtain st' where
    t: "map_of (st_teamStates (placeAt p s task ci)) (Some T) = Some st'"
       "ts_currentMatch st' = Some (m_id (task_match task))"
    unfolding placeAt_fields by blast
  have su': "successively (gap_ok (lp_restTime p)) (?ET @ [?e])"
    using su gap by (auto simp: successively_append_iff gap_ok_def)
  have so': "sorted_wrt ends_before (?ET @ [?e])"
    using so ends by (auto simp: sorted_wrt_append ends_before_def)
  have tm: "\<forall>ev \<in> set (st_events (placeAt p s task ci)). involves T ev \<longrightarrow>
              ev_time ev = sm_endTime (last (?ET @ [?e]))"
  proof (intro ballI impI)
    fix ev assume "ev \<in> set (st_events (placeAt p s task ci))" "involves T ev"
    then have "ev \<in> set (filter (involves T) (st_events (placeAt p s task ci)))" by simp
    then have "ev = ?ev" unfolding f by simp
    then show "ev_time ev = sm_endTime (last (?ET @ [?e]))" by simp
  qed
  show ?thesis
    unfolding team_inv_def e f
    using su' so' tm ends t by (simp add: placeAt_fields(2) e)
qed

section \<open>The registry and the clock\<close>

lemma set_enqueue [simp]: "set (enqueue ck task q) = insert task (set q)"
  by (simp add: enqueue_def)

lemma reg_mq_unlockDependent:
  assumes "reg_mq lk mq"
  shows "reg_mq lk (unlockDependent ck evId depId mq)"
proof (cases "map_of (fst mq) depId")
  case None
  with assms show ?thesis by (simp add: unlockDependent_def)
next
  case (Some depTask)
  with assms have 1: "lk depId = Some (task_match depTask)" "m_id (task_match depTask) = depId"
    by (auto simp: reg_mq_def)
  show ?thesis
    using assms Some 1
    by (auto simp: unlockDependent_def Let_def reg_mq_def update_conv')
qed

lemma reg_mq_fold:
  "reg_mq lk mq \<Longrightarrow> reg_mq lk (fold (unlockDependent ck evId) deps mq)"
  by (induction deps arbitrary: mq) (simp_all add: reg_mq_unlockDependent)

lemma handleEvent_mq:
  "(st_matchMap (handleEvent ck p ev s), st_queue (handleEvent ck p ev s)) =
     fold (unlockDependent ck (ev_matchId ev))
       (case map_of (lp_dependents p) (ev_matchId ev) of Some ds \<Rightarrow> ds | None \<Rightarrow> [])
       (st_matchMap s, st_queue s)"
  by (simp add: handleEvent_def Let_def)

lemma reg_inv_mq: "reg_inv lk s \<longleftrightarrow> reg_mq lk (st_matchMap s, st_queue s)"
  by (simp add: reg_inv_def reg_mq_def)

lemma reg_inv_flush:
  assumes "reg_inv lk s"
  shows "reg_inv lk (handleEvent ck p ev (s\<lparr>st_events := rest\<rparr>))"
proof -
  from assms have "reg_mq lk (st_matchMap (s\<lparr>st_events := rest\<rparr>), st_queue (s\<lparr>st_events := rest\<rparr>))"
    by (simp add: reg_inv_mq)
  then show ?thesis
    unfolding reg_inv_mq handleEvent_mq by (rule reg_mq_fold)
qed

lemma reg_inv_place:
  assumes "reg_inv lk s"
  shows "reg_inv lk (placeAt p s task ci)"
  using assms set_remove_subset [of "m_id (task_match task)" "st_queue s"]
  by (auto simp: reg_inv_def placeAt_fields)

lemma reg_inv_advance:
  "reg_inv lk s \<Longrightarrow> reg_inv lk (s\<lparr>st_currentTime := t\<rparr>)"
  by (simp add: reg_inv_def)

lemma time_inv_flush:
  "time_inv s \<Longrightarrow> time_inv (handleEvent ck p ev (s\<lparr>st_events := rest\<rparr>))"
  by (simp add: time_inv_def)

lemma time_inv_place:
  "time_inv s \<Longrightarrow> time_inv (placeAt p s task ci)"
  by (auto simp: time_inv_def placeAt_schedule placeAt_fields sorted_append)

lemma time_inv_advance:
  "time_inv s \<Longrightarrow> st_currentTime s \<le> t \<Longrightarrow> time_inv (s\<lparr>st_currentTime := t\<rparr>)"
  by (auto simp: time_inv_def intro: order_trans)

section \<open>The dependency graph built from the input\<close>

lemma fold_pair_fst:
  "fst (fold (\<lambda>x (a, b). (f x a, g x b)) xs (a0, b0)) = fold f xs a0"
  by (induction xs arbitrary: a0 b0) auto

lemma fold_pair_snd:
  "snd (fold (\<lambda>x (a, b). (f x a, g x b)) xs (a0, b0)) = fold g xs b0"
  by (induction xs arbitrary: a0 b0) auto

lemma fst_buildGraph:
  "fst (buildGraph matches) = fold (\<lambda>m. AList.update (m_id m) (initialTask m)) matches []"
  unfolding buildGraph_def initialTask_def by (rule fold_pair_fst)

lemma snd_buildGraph:
  "snd (buildGraph matches) =
     fold (\<lambda>m. fold (addDependent (m_id m)) (deps_of m)) matches []"
  unfolding buildGraph_def by (rule fold_pair_snd)

lemma find_append:
  "find P (xs @ ys) = (case find P xs of Some x \<Rightarrow> Some x | None \<Rightarrow> find P ys)"
  by (induction xs) auto

lemma find_SomeD: "find P xs = Some x \<Longrightarrow> P x \<and> x \<in> set xs"
  by (induction xs) (auto split: if_splits)

lemma registered_Cons:
  "registered (m # ms) k =
     (case registered ms k of Some x \<Rightarrow> Some x
      | None \<Rightarrow> if m_id m = k then Some m else None)"
  by (simp add: registered_def find_append split: option.splits)

lemma map_of_fold_update:
  "map_of (fold (\<lambda>m. AList.update (m_id m) (initialTask m)) matches mm) k =
     (case registered matches k of Some m \<Rightarrow> Some (initialTask m) | None \<Rightarrow> map_of mm k)"
proof (induction matches arbitrary: mm)
  case Nil
  then show ?case by (simp add: registered_def)
next
  case (Cons m ms)
  show ?case
    by (simp add: Cons.IH registered_Cons update_conv' split: option.splits)
qed

lemma map_of_buildGraph:
  "map_of (fst (buildGraph matches)) k = map_option initialTask (registered matches k)"
  by (simp add: fst_buildGraph map_of_fold_update split: option.splits)

lemma registered_id: "registered matches k = Some m \<Longrightarrow> m_id m = k \<and> m \<in> set matches"
  unfolding registered_def by (auto dest: find_SomeD)

lemma registered_distinct:
  assumes "distinct (map m_id matches)" "m \<in> set matches"
  shows "registered matches (m_id m) = Some m"
proof -
  from assms(2) have "m \<in> set (rev matches)" by simp
  then obtain z where z: "registered matches (m_id m) = Some z"
    unfolding registered_def by (cases "find (\<lambda>x. m_id x = m_id m) (rev matches)") (auto simp: find_None_iff)
  from registered_id [OF z] have "m_id z = m_id m" "z \<in> set matches" by auto
  with assms have "z = m" by (meson distinct_map inj_onD)
  with z show ?thesis by simp
qed

lemma distinct_fold_update:
  "distinct (map fst mm) \<Longrightarrow> distinct (map fst (fold (\<lambda>m. AList.update (m_id m) (initialTask m)) matches mm))"
  by (induction matches arbitrary: mm) (auto simp: distinct_update)

lemma distinct_buildGraph: "distinct (map fst (fst (buildGraph matches)))"
  by (simp add: fst_buildGraph distinct_fold_update)

lemma set_initialQueue_fold:
  "set (fold (\<lambda>(matchId, task) queue.
             if remainingDependencies task = [] then enqueue ck task queue else queue) mm q)
     = set q \<union> {t. t \<in> snd ` set mm \<and> remainingDependencies t = []}"
  by (induction mm arbitrary: q) (auto split: prod.splits)

lemma set_initialQueue:
  "set (initialQueue ck mm) = {t. t \<in> snd ` set mm \<and> remainingDependencies t = []}"
  by (simp add: initialQueue_def set_initialQueue_fold)

lemma reg_inv_init:
  "reg_inv (registered matches) (scheduleInit ck start matches courts)"
proof -
  have q: "lk (m_id (task_match t)) = Some (task_match t)"
    if "t \<in> set (initialQueue ck (fst (buildGraph matches)))" and "lk = registered matches" for t lk
  proof -
    from that obtain k where "(k, t) \<in> set (fst (buildGraph matches))"
      by (auto simp: set_initialQueue)
    with distinct_buildGraph have "map_of (fst (buildGraph matches)) k = Some t" by simp
    then obtain z where z: "registered matches k = Some z" "t = initialTask z"
      by (auto simp: map_of_buildGraph)
    from registered_id [OF z(1)] have "m_id z = k" by simp
    with z that(2) show ?thesis by (simp add: initialTask_def)
  qed
  show ?thesis
    unfolding reg_inv_def scheduleInit_def Let_def
    by (auto simp: map_of_buildGraph initialTask_def q dest: registered_id)
qed

section \<open>Live reschedule\<close>

text \<open>
  Claim C2. Every match in the schedule that \<open>rescheduleMatches\<close> returns starts at
  or after the \<open>currentTime\<close> of the config.
\<close>

theorem C2_no_past:
  "rescheduleMatches ck matches courts config = Some (Inr r) \<Longrightarrow>
     \<forall>e \<in> set (schedule r). currentTime config \<le> sm_startTime e"
proof -
  assume "rescheduleMatches ck matches courts config = Some (Inr r)"
  then obtain s where
    run: "mainLoop ck (rescheduleParams matches config) (rescheduleInit ck matches courts config)
       = Some (Inr s)" and
    r: "schedule r = sort_key sm_startTime
       (filter (\<lambda>e. sm_matchId e \<notin> cm_matchId ` set (completedMatches config)) (st_schedule s))" and
    len: "length (filter (\<lambda>e. sm_matchId e \<notin> cm_matchId ` set (completedMatches config)) (st_schedule s))
       = length (pendingMatches matches config)"
    by (rule rescheduleMatches_InrE)
  define I where "I = (\<lambda>s :: sched_state. \<forall>e \<in> set (st_schedule s).
     sm_matchId e \<in> cm_matchId ` set (completedMatches config) \<or> currentTime config \<le> sm_startTime e)"
  have "I s \<and> st_queue s = [] \<and> st_events s = []"
  proof (rule loop_invariant [where I = I, OF run])
    show "I (rescheduleInit ck matches courts config)"
      by (auto simp: I_def rescheduleInit_def Let_def completedEntry_def)
  next
    fix s ev rest
    assume "I s"
    then show "I (handleEvent ck (rescheduleParams matches config) ev (s\<lparr>st_events := rest\<rparr>))"
      by (simp add: I_def)
  next
    fix s task s'
    assume inv: "I s" and tt: "tryTask (rescheduleParams matches config) s task = Some s'"
    from tryTask_SomeD [OF tt] obtain ci where
      "currentTime config \<le> st_currentTime s"
      "s' = placeAt (rescheduleParams matches config) s task ci"
      by (auto simp: rescheduleParams_def)
    with inv show "I s'" by (auto simp: I_def placeAt_schedule)
  next
    fix s :: sched_state and t
    assume "I s"
    then show "I (s\<lparr>st_currentTime := t\<rparr>)" by (simp add: I_def)
  qed
  then show ?thesis by (auto simp: I_def r)
qed

theorem C2_no_past_witness:
  "rescheduleMatches codeunit_key sample_matches sample_courts sample_reconfig
     = Some (Inr sample_reresult) \<and>
   schedule sample_reresult \<noteq> [] \<and>
   list_all (\<lambda>e. currentTime sample_reconfig \<le> sm_startTime e) (schedule sample_reresult)"
  using C2_no_past [OF rerun_sample] rerun_sample
  by (simp add: list_all_iff sample_reresult_def)


section \<open>Teams in the schedule of scheduleMatches\<close>

lemma sched_inv_init:
  "sched_inv (registered matches) rest (scheduleInit ck start matches courts)"
proof -
  have "time_inv (scheduleInit ck start matches courts)"
    by (simp add: time_inv_def scheduleInit_def Let_def)
  moreover have "team_inv (registered matches) rest (scheduleInit ck start matches courts) T" for T
    by (simp add: team_inv_def scheduleInit_def Let_def team_entries_def)
  ultimately show ?thesis using reg_inv_init by (simp add: sched_inv_def)
qed

lemma sched_inv_final:
  assumes run: "mainLoop ck p s0 = Some (Inr s)"
    and init: "sched_inv lk (lp_restTime p) s0"
  shows "sched_inv lk (lp_restTime p) s"
proof -
  have "sched_inv lk (lp_restTime p) s \<and> st_queue s = [] \<and> st_events s = []"
  proof (rule loop_invariant [where I = "sched_inv lk (lp_restTime p)", OF run init])
    fix s ev rest
    assume "sched_inv lk (lp_restTime p) s" "st_events s = ev # rest" "ev_time ev \<le> st_currentTime s"
    then show "sched_inv lk (lp_restTime p) (handleEvent ck p ev (s\<lparr>st_events := rest\<rparr>))"
      unfolding sched_inv_def
      by (auto intro: reg_inv_flush time_inv_flush team_inv_flush)
  next
    fix s task s'
    assume inv: "sched_inv lk (lp_restTime p) s" and q: "task \<in> set (st_queue s)"
      and tt: "tryTask p s task = Some s'"
    from tryTask_SomeD [OF tt] obtain ci where
      av: "areTeamsAvailable (task_match task) (st_currentTime s) (st_teamStates s)" and
      s': "s' = placeAt p s task ci" by blast
    from inv q have reg: "lk (m_id (task_match task)) = Some (task_match task)"
      by (simp add: sched_inv_def reg_inv_def)
    have tp: "team_inv lk (lp_restTime p) (placeAt p s task ci) T"
      if "team_inv lk (lp_restTime p) s T" for T
      using that reg av by (rule team_inv_place)
    from inv show "sched_inv lk (lp_restTime p) s'"
      unfolding sched_inv_def s'
      by (auto intro: reg_inv_place time_inv_place tp)
  next
    fix s :: sched_state and t
    assume "sched_inv lk (lp_restTime p) s" "st_currentTime s < t"
    then show "sched_inv lk (lp_restTime p) (s\<lparr>st_currentTime := t\<rparr>)"
      unfolding sched_inv_def
      by (auto intro: reg_inv_advance time_inv_advance team_inv_advance)
  qed
  then show ?thesis by simp
qed

lemma scheduleMatches_team_inv:
  assumes "scheduleMatches ck now matches courts config = Some (Inr r)"
  shows "sorted (map sm_startTime (schedule r)) \<and>
         successively (gap_ok (restTime config)) (team_entries (registered matches) T (schedule r)) \<and>
         sorted_wrt ends_before (team_entries (registered matches) T (schedule r))"
proof -
  from assms obtain s start where
    start: "start = (case startTime config of Some t \<Rightarrow> t | None \<Rightarrow> now)" and
    run: "mainLoop ck (scheduleParams start matches config) (scheduleInit ck start matches courts)
       = Some (Inr s)" and
    r: "schedule r = sort_key sm_startTime (st_schedule s)" and
    len: "length (st_schedule s) = length matches" and ne: "matches \<noteq> []" "courts \<noteq> []"
    by (rule scheduleMatches_InrE)
  have rest: "lp_restTime (scheduleParams start matches config) = restTime config"
    by (simp add: scheduleParams_def)
  have "sched_inv (registered matches) (lp_restTime (scheduleParams start matches config)) s"
    by (rule sched_inv_final [OF run sched_inv_init])
  then have inv: "sched_inv (registered matches) (restTime config) s" by (simp add: rest)
  then have "sorted (map sm_startTime (st_schedule s))" by (simp add: sched_inv_def time_inv_def)
  then have id: "schedule r = st_schedule s" by (simp add: r sort_key_id_if_sorted)
  from inv show ?thesis
    unfolding id sched_inv_def time_inv_def team_inv_def by blast
qed

text \<open>
  On distinct match identities, a team identity that is not the bare \<open>0\<close> or
  \<open>''\<close> plays exactly the entries whose registered match lists it in \<open>getTeamIds\<close>.
\<close>

lemma truthy_iff: "truthy T \<longleftrightarrow> \<not> (T = IdNum 0 \<or> T = IdStr [])"
  by (cases T) auto

lemma participants_getTeamIds:
  assumes "\<not> untracked matches T" and "m \<in> set matches"
  shows "T \<in> set (participants m) \<longleftrightarrow> T \<in> set (getTeamIds m)"
proof -
  have 1: "T \<in> set (slotIds sl) \<longleftrightarrow> slot_id sl = T"
    if "sl = TeamVal T \<longrightarrow> \<not> (T = IdNum 0 \<or> T = IdStr [])" for sl
    using that by (cases sl) (auto simp: truthy_iff)
  from assms have "team1 m = TeamVal T \<longrightarrow> \<not> (T = IdNum 0 \<or> T = IdStr [])"
    "team2 m = TeamVal T \<longrightarrow> \<not> (T = IdNum 0 \<or> T = IdStr [])"
    unfolding untracked_def by blast+
  from 1 [OF this(1)] 1 [OF this(2)] show ?thesis
    by (auto simp: participants_def getTeamIds_def)
qed

lemma plays_teams_of:
  assumes d: "distinct (map m_id matches)" and t: "\<not> untracked matches T"
  shows "plays matches T e \<longleftrightarrow> T \<in> set (teams_of (registered matches) e)"
proof
  assume "plays matches T e"
  then obtain m where m: "m \<in> set matches" "m_id m = sm_matchId e" "T \<in> set (participants m)"
    unfolding plays_def by blast
  from registered_distinct [OF d m(1)] m(2) have "registered matches (sm_matchId e) = Some m"
    by simp
  with participants_getTeamIds [OF t m(1)] m(3) show "T \<in> set (teams_of (registered matches) e)"
    by (simp add: teams_of_def)
next
  assume "T \<in> set (teams_of (registered matches) e)"
  then obtain m where r: "registered matches (sm_matchId e) = Some m" and T: "T \<in> set (getTeamIds m)"
    by (cases "registered matches (sm_matchId e)") (auto simp: teams_of_def)
  from registered_id [OF r] have m: "m_id m = sm_matchId e" "m \<in> set matches" by simp_all
  with participants_getTeamIds [OF t m(2)] T show "plays matches T e"
    unfolding plays_def by blast
qed

lemma team_schedule_entries:
  assumes "distinct (map m_id matches)" and "\<not> untracked matches T"
  shows "team_schedule matches T sched = team_entries (registered matches) T sched"
proof -
  have "plays matches T = (\<lambda>e. T \<in> set (teams_of (registered matches) e))"
    by (rule ext) (rule plays_teams_of [OF assms])
  then show ?thesis by (simp add: team_schedule_def team_entries_def)
qed

lemma run_zero:
  "scheduleMatches codeunit_key 0 zero_matches four_courts sample_config
     = Some (Inr zero_result)"
  by code_simp

lemma run_dup_team:
  "scheduleMatches codeunit_key 0 dup_team_matches three_courts sample_config
     = Some (Inr dup_team_result)"
  by code_simp

text \<open>
  A placeholder is a team identity of its own. In the run below \<open>M3\<close>, played by
  \<open>Winner M1\<close> and \<open>Winner M2\<close>, starts at the very end of \<open>M2\<close> although the
  rest time is 20 minutes; the repository's test of this input expects a rest of 20
  minutes between \<open>M2\<close> and \<open>M3\<close>.
\<close>

lemma run_placeholder:
  "scheduleMatches codeunit_key 0 placeholder_matches one_court rest20_config
     = Some (Inr placeholder_result)"
  by code_simp




text \<open>
  Claim C5 as stated fails on the same two inputs: the two entries of the bare team
  \<open>0\<close> have the same interval, and so have the entries \<open>M1\<close> and \<open>M5\<close> of
  \<open>A\<close> when two matches have the identity \<open>M1\<close>.
\<close>

theorem C5_untracked_counterexample:
  "scheduleMatches codeunit_key 0 zero_matches four_courts sample_config
     = Some (Inr zero_result) \<and>
   map sm_matchId (team_schedule zero_matches (IdNum 0) (schedule zero_result))
     = [IdStr ''M1'', IdStr ''M2''] \<and>
   intervals_overlap (team_schedule zero_matches (IdNum 0) (schedule zero_result) ! 0)
                     (team_schedule zero_matches (IdNum 0) (schedule zero_result) ! 1) \<and>
   map sm_matchId (team_schedule zero_matches (IdStr []) (schedule zero_result))
     = [IdStr ''M3'', IdStr ''M4''] \<and>
   intervals_overlap (team_schedule zero_matches (IdStr []) (schedule zero_result) ! 0)
                     (team_schedule zero_matches (IdStr []) (schedule zero_result) ! 1) \<and>
   scheduleMatches codeunit_key 0 dup_team_matches three_courts sample_config
     = Some (Inr dup_team_result) \<and>
   \<not> untracked dup_team_matches (IdStr ''A'') \<and>
   map sm_matchId (team_schedule dup_team_matches (IdStr ''A'') (schedule dup_team_result))
     = [IdStr ''M1'', IdStr ''M5'', IdStr ''M1''] \<and>
   intervals_overlap
     (team_schedule dup_team_matches (IdStr ''A'') (schedule dup_team_result) ! 0)
     (team_schedule dup_team_matches (IdStr ''A'') (schedule dup_team_result) ! 1)"
proof -
  have "map sm_matchId (team_schedule zero_matches (IdNum 0) (schedule zero_result))
     = [IdStr ''M1'', IdStr ''M2'']" by code_simp
  moreover have
    "intervals_overlap (team_schedule zero_matches (IdNum 0) (schedule zero_result) ! 0)
                       (team_schedule zero_matches (IdNum 0) (schedule zero_result) ! 1)"
    by code_simp
  moreover have "map sm_matchId (team_schedule zero_matches (IdStr []) (schedule zero_result))
     = [IdStr ''M3'', IdStr ''M4'']" by code_simp
  moreover have
    "intervals_overlap (team_schedule zero_matches (IdStr []) (schedule zero_result) ! 0)
                       (team_schedule zero_matches (IdStr []) (schedule zero_result) ! 1)"
    by code_simp
  moreover have "\<not> untracked dup_team_matches (IdStr ''A'')" by code_simp
  moreover have
    "map sm_matchId (team_schedule dup_team_matches (IdStr ''A'') (schedule dup_team_result))
     = [IdStr ''M1'', IdStr ''M5'', IdStr ''M1'']" by code_simp
  moreover have "intervals_overlap
     (team_schedule dup_team_matches (IdStr ''A'') (schedule dup_team_result) ! 0)
     (team_schedule dup_team_matches (IdStr ''A'') (schedule dup_team_result) ! 1)"
    by code_simp
  ultimately show ?thesis using run_zero run_dup_team by blast
qed

text \<open>
  Claim C5, amended. Let the identities of the input matches be pairwise distinct, and let
  \<open>T\<close> be a team identity that no match gives as the bare value \<open>0\<close> or \<open>''\<close>.
  In a schedule returned by \<open>scheduleMatches\<close>, the intervals \<open>[start, end)\<close> of any
  two distinct entries of matches of \<open>T\<close> do not overlap.
\<close>

theorem C5_no_double_booking:
  assumes ret: "scheduleMatches ck now matches courts config = Some (Inr r)"
    and d: "distinct (map m_id matches)"
    and t: "\<not> untracked matches T"
  shows "\<forall>i j. i < length (team_schedule matches T (schedule r)) \<and>
            j < length (team_schedule matches T (schedule r)) \<and> i \<noteq> j \<longrightarrow>
        \<not> intervals_overlap (team_schedule matches T (schedule r) ! i)
                             (team_schedule matches T (schedule r) ! j)"
proof -
  let ?TE = "team_schedule matches T (schedule r)"
  from scheduleMatches_team_inv [OF ret, of T]
  have so: "sorted_wrt ends_before ?TE" by (simp add: team_schedule_entries [OF d t])
  have lt: "\<not> intervals_overlap (?TE ! i) (?TE ! j) \<and> \<not> intervals_overlap (?TE ! j) (?TE ! i)"
    if "i < j" "j < length ?TE" for i j
  proof -
    from so that have "ends_before (?TE ! i) (?TE ! j)" by (simp add: sorted_wrt_iff_nth_less)
    then show ?thesis by (auto simp: ends_before_def intervals_overlap_def)
  qed
  show ?thesis
  proof (intro allI impI, elim conjE)
    fix i j assume "i < length ?TE" "j < length ?TE" "i \<noteq> j"
    then consider "i < j" | "j < i" by linarith
    then show "\<not> intervals_overlap (?TE ! i) (?TE ! j)"
      using lt \<open>i < length ?TE\<close> \<open>j < length ?TE\<close> by cases blast+
  qed
qed

theorem C5_no_double_booking_witness:
  "scheduleMatches codeunit_key 7 sample_matches sample_courts sample_config
     = Some (Inr sample_result) \<and>
   distinct (map m_id sample_matches) \<and>
   \<not> untracked sample_matches (IdStr ''A'') \<and>
   map sm_matchId (team_schedule sample_matches (IdStr ''A'') (schedule sample_result))
     = [IdStr ''M1'', IdStr ''M3''] \<and>
   \<not> intervals_overlap
       (team_schedule sample_matches (IdStr ''A'') (schedule sample_result) ! 0)
       (team_schedule sample_matches (IdStr ''A'') (schedule sample_result) ! 1)"
proof -
  have d: "distinct (map m_id sample_matches)" by code_simp
  have t: "\<not> untracked sample_matches (IdStr ''A'')" by code_simp
  have m: "map sm_matchId (team_schedule sample_matches (IdStr ''A'') (schedule sample_result))
     = [IdStr ''M1'', IdStr ''M3'']"
    by code_simp
  then have "length (team_schedule sample_matches (IdStr ''A'') (schedule sample_result)) = 2"
    by (metis length_map length_Cons list.size(3) numeral_2_eq_2)
  with C5_no_double_booking [OF run_sample d t] run_sample d t m show ?thesis by simp
qed


section \<open>The dependency invariant\<close>

lemma dep_mq_unlockDependent:
  assumes "dep_mq dn mq" and "dn evId"
  shows "dep_mq dn (unlockDependent ck evId depId mq)"
proof (cases "map_of (fst mq) depId")
  case None
  with assms show ?thesis by (simp add: unlockDependent_def)
next
  case (Some depTask)
  from assms(1) Some have 1: "\<forall>d \<in> set (deps_of (task_match depTask)).
      d \<in> set (remainingDependencies depTask) \<or> dn d"
    by (auto simp: dep_mq_def)
  have 2: "\<forall>d \<in> set (deps_of (task_match depTask)).
      d \<in> set (removeAll evId (remainingDependencies depTask)) \<or> dn d"
    using 1 assms(2) by auto
  have 3: "\<forall>d \<in> set (deps_of (task_match depTask)). dn d"
    if "removeAll evId (remainingDependencies depTask) = []"
    using 2 unfolding that by simp
  show ?thesis
    using assms(1) Some 2 3
    by (auto simp: unlockDependent_def Let_def dep_mq_def update_conv')
qed

lemma dep_mq_fold:
  "dep_mq dn mq \<Longrightarrow> dn evId \<Longrightarrow> dep_mq dn (fold (unlockDependent ck evId) deps mq)"
  by (induction deps arbitrary: mq) (simp_all add: dep_mq_unlockDependent)

lemma dep_inv_flush:
  assumes inv: "dep_inv lk s" and ev: "st_events s = ev # rest"
    and due: "ev_time ev \<le> st_currentTime s"
  shows "dep_inv lk (handleEvent ck p ev (s\<lparr>st_events := rest\<rparr>))"
proof -
  let ?s' = "handleEvent ck p ev (s\<lparr>st_events := rest\<rparr>)"
  have dn_eq: "dep_done ?s' = dep_done s" by (simp add: dep_done_def fun_eq_iff)
  from inv ev due have dn: "dep_done s (ev_matchId ev)"
    unfolding dep_inv_def dep_done_def by fastforce
  from inv have "dep_mq (dep_done s) (st_matchMap s, st_queue s)"
    by (simp add: dep_inv_def dep_mq_def)
  then have "dep_mq (dep_done s) (st_matchMap ?s', st_queue ?s')"
    unfolding handleEvent_mq using dn by (simp add: dep_mq_fold)
  moreover from inv ev have "\<forall>ev \<in> set rest.
        \<exists>e \<in> set (st_schedule s). sm_matchId e = ev_matchId ev \<and> sm_endTime e = ev_time ev"
    by (simp add: dep_inv_def)
  ultimately show ?thesis
    using inv unfolding dep_inv_def dn_eq by (simp add: dep_mq_def)
qed

lemma dep_done_mono:
  assumes "dep_done s d" "set (st_schedule s) \<subseteq> set (st_schedule s')"
    "st_currentTime s \<le> st_currentTime s'"
  shows "dep_done s' d"
  using assms unfolding dep_done_def by (meson order_trans subsetD)

lemma dep_inv_place:
  assumes inv: "dep_inv lk s" and reg: "reg_inv lk s" and q: "task \<in> set (st_queue s)"
  shows "dep_inv lk (placeAt p s task ci)"
proof -
  let ?s' = "placeAt p s task ci"
  let ?e = "\<lparr>sm_matchId = m_id (task_match task),
       sm_courtId = cs_courtId (st_courtStates s ! ci),
       sm_startTime = st_currentTime s,
       sm_endTime = st_currentTime s + duration (task_match task) * 60000,
       sm_round = m_round (task_match task)\<rparr>"
  have S: "st_schedule ?s' = st_schedule s @ [?e]" by (rule placeAt_schedule)
  have mono: "dep_done s d \<Longrightarrow> dep_done ?s' d" for d
    by (rule dep_done_mono) (auto simp: S placeAt_fields)
  from reg q have lk: "lk (m_id (task_match task)) = Some (task_match task)"
    by (simp add: reg_inv_def)
  from inv q have qd: "\<forall>d \<in> set (deps_of (task_match task)). dep_done s d"
    by (simp add: dep_inv_def)
  have 1: "\<forall>t \<in> set (st_queue ?s'). \<forall>d \<in> set (deps_of (task_match t)). dep_done ?s' d"
    using inv set_remove_subset [of "m_id (task_match task)" "st_queue s"] mono
    unfolding dep_inv_def placeAt_fields by blast
  have 2: "\<forall>e \<in> set (st_schedule ?s'). \<forall>m. lk (sm_matchId e) = Some m \<longrightarrow>
        (\<forall>d \<in> set (deps_of m).
           \<exists>e' \<in> set (st_schedule ?s'). sm_matchId e' = d \<and> sm_endTime e' \<le> sm_startTime e)"
  proof (intro ballI allI impI)
    fix e m d
    assume e: "e \<in> set (st_schedule ?s')" and m: "lk (sm_matchId e) = Some m"
      and d: "d \<in> set (deps_of m)"
    show "\<exists>e' \<in> set (st_schedule ?s'). sm_matchId e' = d \<and> sm_endTime e' \<le> sm_startTime e"
    proof (cases "e \<in> set (st_schedule s)")
      case True
      with inv m d obtain e' where "e' \<in> set (st_schedule s)" "sm_matchId e' = d"
        "sm_endTime e' \<le> sm_startTime e"
        unfolding dep_inv_def by blast
      then show ?thesis by (auto simp: S)
    next
      case False
      with e have e_eq: "e = ?e" by (simp add: S)
      with m lk have "m = task_match task" by simp
      with qd d have "dep_done s d" by simp
      then obtain e' where "e' \<in> set (st_schedule s)" "sm_matchId e' = d"
        "sm_endTime e' \<le> st_currentTime s"
        unfolding dep_done_def by blast
      then show ?thesis by (auto simp: S e_eq)
    qed
  qed
  have 3: "\<forall>k t. map_of (st_matchMap ?s') k = Some t \<longrightarrow>
        (\<forall>d \<in> set (deps_of (task_match t)).
           d \<in> set (remainingDependencies t) \<or> dep_done ?s' d)"
    using inv mono unfolding dep_inv_def placeAt_fields by blast
  have 4: "\<forall>ev \<in> set (st_events ?s').
        \<exists>e \<in> set (st_schedule ?s'). sm_matchId e = ev_matchId ev \<and> sm_endTime e = ev_time ev"
    using inv unfolding dep_inv_def by (auto simp: placeAt_fields S)
  from 1 2 3 4 show ?thesis unfolding dep_inv_def by blast
qed

lemma dep_inv_advance:
  assumes inv: "dep_inv lk s" and le: "st_currentTime s \<le> t"
  shows "dep_inv lk (s\<lparr>st_currentTime := t\<rparr>)"
proof -
  have mono: "dep_done s d \<Longrightarrow> dep_done (s\<lparr>st_currentTime := t\<rparr>) d" for d
    by (rule dep_done_mono) (use le in auto)
  from inv show ?thesis
    unfolding dep_inv_def using mono by (simp) blast
qed

lemma dep_inv_init: "dep_inv (registered matches) (scheduleInit ck start matches courts)"
proof -
  have q: "deps_of (task_match t) = []"
    if "t \<in> set (initialQueue ck (fst (buildGraph matches)))" for t
  proof -
    from that obtain k where "(k, t) \<in> set (fst (buildGraph matches))"
      and r: "remainingDependencies t = []"
      by (auto simp: set_initialQueue)
    with distinct_buildGraph have "map_of (fst (buildGraph matches)) k = Some t" by simp
    then obtain z where z: "t = initialTask z" by (auto simp: map_of_buildGraph)
    from r have "set (remainingDependencies t) = {}" by simp
    then show ?thesis by (simp add: z initialTask_def)
  qed
  show ?thesis
    unfolding dep_inv_def scheduleInit_def Let_def
    by (auto simp: q map_of_buildGraph initialTask_def)
qed

section \<open>Every match is placed at most once\<close>

lemma distinct_map_sort_key:
  "distinct (map f (sort_key g xs)) \<longleftrightarrow> distinct (map f xs)"
  by (simp add: distinct_map)

lemma set_qids_enqueue [simp]:
  "set (qids (enqueue ck t q)) = insert (m_id (task_match t)) (set (qids q))"
  by (simp add: qids_def)

lemma distinct_qids_enqueue [simp]:
  "distinct (qids (enqueue ck t q)) \<longleftrightarrow>
     distinct (qids q) \<and> m_id (task_match t) \<notin> set (qids q)"
  unfolding qids_def enqueue_def distinct_map_sort_key by auto

lemma qids_remove: "qids (remove x q) = remove1 x (qids q)"
  by (induction q) (auto simp: qids_def)

lemma only_removed_refl: "only_removed d mm mm"
  by (auto simp: only_removed_def)

lemma only_removed_trans:
  assumes 1: "only_removed d mm mm'" and 2: "only_removed d mm' mm''"
  shows "only_removed d mm mm''"
  unfolding only_removed_def
proof (intro conjI allI impI)
  show "dom (map_of mm'') = dom (map_of mm)"
    using 1 2 by (simp add: only_removed_def)
next
  fix k t assume "map_of mm k = Some t"
  with 1 obtain t' where t': "map_of mm' k = Some t'"
    "set (remainingDependencies t) - {d} \<subseteq> set (remainingDependencies t')"
    unfolding only_removed_def by blast
  with 2 obtain t'' where t'': "map_of mm'' k = Some t''"
    "set (remainingDependencies t') - {d} \<subseteq> set (remainingDependencies t'')"
    unfolding only_removed_def by blast
  from t'(2) t''(2) have "set (remainingDependencies t) - {d} \<subseteq> set (remainingDependencies t'')"
    by blast
  with t''(1) show "\<exists>t'. map_of mm'' k = Some t' \<and>
           set (remainingDependencies t) - {d} \<subseteq> set (remainingDependencies t')"
    by blast
qed

lemma only_removed_unlockDependent:
  "only_removed d (fst mq) (fst (unlockDependent ck d X mq))"
proof (cases "map_of (fst mq) X")
  case None
  then show ?thesis by (simp add: unlockDependent_def only_removed_refl)
next
  case (Some t)
  then have "X \<in> dom (map_of (fst mq))" by auto
  then have dm: "insert X (dom (map_of (fst mq))) = dom (map_of (fst mq))" by auto
  let ?t' = "t\<lparr>remainingDependencies := removeAll d (remainingDependencies t)\<rparr>"
  have fst: "fst (unlockDependent ck d X mq) = AList.update X ?t' (fst mq)"
    using Some by (simp add: unlockDependent_def Let_def)
  have sub: "set (remainingDependencies t) - {d} \<subseteq> set (remainingDependencies ?t')"
    by auto
  show ?thesis
    unfolding fst only_removed_def
    using Some dm sub by (auto simp: update_conv' simp del: set_removeAll)
qed

lemma distinct_fst_unlockDependent:
  "distinct (map fst (fst mq)) \<Longrightarrow> distinct (map fst (fst (unlockDependent ck d X mq)))"
  by (auto simp: unlockDependent_def Let_def distinct_update split: option.splits)

lemma distinct_fst_fold_unlock:
  "distinct (map fst (fst mq)) \<Longrightarrow>
     distinct (map fst (fst (fold (unlockDependent ck d) todo mq)))"
  by (induction todo arbitrary: mq) (simp_all add: distinct_fst_unlockDependent)

lemma only_removed_fold:
  "only_removed d (fst mq) (fst (fold (unlockDependent ck d) todo mq))"
proof (induction todo arbitrary: mq)
  case Nil
  then show ?case by (simp add: only_removed_refl)
next
  case (Cons X todo)
  show ?case
    using only_removed_trans [OF only_removed_unlockDependent Cons.IH]
    by simp
qed

lemma map_of_unlockDependent_other:
  "k \<noteq> X \<Longrightarrow> map_of (fst (unlockDependent ck d X mq)) k = map_of (fst mq) k"
  by (auto simp: unlockDependent_def Let_def update_conv' split: option.splits)

lemma once_mq_unlockDependent:
  assumes reg: "reg_mq lk mq" and once: "once_mq P mq"
    and rem: "\<forall>t. map_of (fst mq) X = Some t \<longrightarrow> d \<in> set (remainingDependencies t)"
  shows "once_mq P (unlockDependent ck d X mq)"
proof (cases "map_of (fst mq) X")
  case None
  then show ?thesis using once by (simp add: unlockDependent_def)
next
  case (Some t)
  with rem have d: "d \<in> set (remainingDependencies t)" by simp
  then have ne: "remainingDependencies t \<noteq> []" by auto
  with once Some have notin: "X \<notin> set (qids (snd mq))" "X \<notin> P"
    by (auto simp: once_mq_def)
  from reg Some have id: "m_id (task_match t) = X" by (simp add: reg_mq_def)
  from Some have dm: "insert X (dom (map_of (fst mq))) = dom (map_of (fst mq))" by auto
  show ?thesis
  proof (cases "removeAll d (remainingDependencies t) = []")
    case True
    with Some have u: "unlockDependent ck d X mq =
        (AList.update X (t\<lparr>remainingDependencies := []\<rparr>) (fst mq),
         enqueue ck (t\<lparr>remainingDependencies := []\<rparr>) (snd mq))"
      by (simp add: unlockDependent_def Let_def)
    show ?thesis
      unfolding u once_mq_def
      using once notin id dm
      by (auto simp: once_mq_def update_conv')
  next
    case False
    with Some have u: "unlockDependent ck d X mq =
        (AList.update X (t\<lparr>remainingDependencies := removeAll d (remainingDependencies t)\<rparr>) (fst mq),
         snd mq)"
      by (simp add: unlockDependent_def Let_def)
    show ?thesis
      unfolding u once_mq_def
      using once notin id dm False
      by (auto simp: once_mq_def update_conv')
  qed
qed

lemma once_mq_fold:
  assumes "reg_mq lk mq" "once_mq P mq" "distinct todo"
    "\<forall>X \<in> set todo. \<forall>t. map_of (fst mq) X = Some t \<longrightarrow> d \<in> set (remainingDependencies t)"
  shows "once_mq P (fold (unlockDependent ck d) todo mq)"
  using assms
proof (induction todo arbitrary: mq)
  case Nil
  then show ?case by simp
next
  case (Cons X todo)
  let ?mq1 = "unlockDependent ck d X mq"
  have 1: "reg_mq lk ?mq1" using Cons.prems(1) by (rule reg_mq_unlockDependent)
  have 2: "once_mq P ?mq1"
    using Cons.prems(1,2) Cons.prems(4) by (intro once_mq_unlockDependent) auto
  have 3: "distinct todo" using Cons.prems(3) by simp
  have 4: "\<forall>X' \<in> set todo. \<forall>t. map_of (fst ?mq1) X' = Some t \<longrightarrow> d \<in> set (remainingDependencies t)"
  proof (intro ballI allI impI)
    fix X' t assume X': "X' \<in> set todo" and m: "map_of (fst ?mq1) X' = Some t"
    from X' Cons.prems(3) have "X' \<noteq> X" by auto
    with m have "map_of (fst mq) X' = Some t" by (simp add: map_of_unlockDependent_other)
    with Cons.prems(4) X' show "d \<in> set (remainingDependencies t)" by simp
  qed
  from Cons.IH [OF 1 2 3 4] show ?case by simp
qed

lemma once_inv_flush:
  assumes inv: "once_inv (lp_dependents p) s" and reg: "reg_inv lk s"
    and dd: "\<forall>d. distinct (dependents_of (lp_dependents p) d)"
    and ev: "st_events s = ev # rest"
  shows "once_inv (lp_dependents p) (handleEvent ck p ev (s\<lparr>st_events := rest\<rparr>))"
proof -
  let ?s' = "handleEvent ck p ev (s\<lparr>st_events := rest\<rparr>)"
  let ?d0 = "ev_matchId ev"
  let ?todo = "dependents_of (lp_dependents p) ?d0"
  let ?mq = "(st_matchMap s, st_queue s)"
  let ?P = "set (map sm_matchId (st_schedule s))"
  have mq': "(st_matchMap ?s', st_queue ?s') = fold (unlockDependent ck ?d0) ?todo ?mq"
    by (simp add: handleEvent_mq dependents_of_def)
  have fst': "st_matchMap ?s' = fst (fold (unlockDependent ck ?d0) ?todo ?mq)"
    using mq' by (metis fst_conv)
  from ev have un0: "unflushed s ?d0" by (simp add: unflushed_def)
  from inv ev have dom0: "?d0 \<in> dom (map_of (st_matchMap s))"
    unfolding once_inv_def by auto
  from inv have U7: "\<And>d X t. d \<in> dom (map_of (st_matchMap s)) \<Longrightarrow> unflushed s d \<Longrightarrow>
        X \<in> set (dependents_of (lp_dependents p) d) \<Longrightarrow>
        map_of (st_matchMap s) X = Some t \<Longrightarrow> d \<in> set (remainingDependencies t)"
    unfolding once_inv_def by blast
  have todo: "\<forall>X \<in> set ?todo. \<forall>t. map_of (fst ?mq) X = Some t \<longrightarrow> ?d0 \<in> set (remainingDependencies t)"
    using U7 [OF dom0 un0] by simp
  from reg have regmq: "reg_mq lk ?mq" by (simp add: reg_inv_mq)
  from inv have om: "once_mq ?P ?mq" by (simp add: once_inv_def)
  have 1: "once_mq ?P (st_matchMap ?s', st_queue ?s')"
    unfolding mq' using regmq om dd todo by (intro once_mq_fold) auto
  have orm: "only_removed ?d0 (st_matchMap s) (st_matchMap ?s')"
    unfolding fst' using only_removed_fold [of ?d0 ?mq ck ?todo] by simp
  from inv ev have de: "distinct (map ev_matchId rest)" "?d0 \<notin> set (map ev_matchId rest)"
    "?d0 \<in> ?P" "set (map ev_matchId rest) \<subseteq> ?P"
    by (auto simp: once_inv_def)
  have dk: "distinct (map fst (st_matchMap ?s'))"
    unfolding fst' using inv by (intro distinct_fst_fold_unlock) (simp add: once_inv_def)
  have dm: "dom (map_of (st_matchMap ?s')) = dom (map_of (st_matchMap s))"
    using orm by (simp add: only_removed_def)
  have 7: "d \<in> set (remainingDependencies t')"
    if dd': "d \<in> dom (map_of (st_matchMap ?s'))" and u: "unflushed ?s' d"
      and X: "X \<in> set (dependents_of (lp_dependents p) d)"
      and m: "map_of (st_matchMap ?s') X = Some t'" for d X t'
  proof -
    from dd' dm have dd0: "d \<in> dom (map_of (st_matchMap s))" by simp
    from u de have ne: "d \<noteq> ?d0" and u0: "unflushed s d"
      by (auto simp: unflushed_def ev)
    from m dm obtain t where t: "map_of (st_matchMap s) X = Some t" by (metis domD domI)
    with orm m have sub: "set (remainingDependencies t) - {?d0} \<subseteq> set (remainingDependencies t')"
      unfolding only_removed_def by fastforce
    from U7 [OF dd0 u0 X t] ne sub show ?thesis by blast
  qed
  show ?thesis
    unfolding once_inv_def
    using inv 1 de dk dm 7 by (simp add: once_inv_def; blast)
qed

lemma once_inv_place:
  assumes inv: "once_inv dp s" and q: "task \<in> set (st_queue s)"
  shows "once_inv dp (placeAt p s task ci)"
proof -
  let ?s' = "placeAt p s task ci"
  let ?x0 = "m_id (task_match task)"
  let ?P = "set (map sm_matchId (st_schedule s))"
  from q have xq: "?x0 \<in> set (qids (st_queue s))" by (auto simp: qids_def)
  from inv have om: "once_mq ?P (st_matchMap s, st_queue s)" by (simp add: once_inv_def)
  with xq have xP: "?x0 \<notin> ?P" and xd: "?x0 \<in> dom (map_of (st_matchMap s))"
    and dq: "distinct (qids (st_queue s))"
    by (auto simp: once_mq_def)
  from inv xP have xE: "?x0 \<notin> set (map ev_matchId (st_events s))"
    by (auto simp: once_inv_def)
  have P': "set (map sm_matchId (st_schedule ?s')) = insert ?x0 ?P"
    by (simp add: placeAt_schedule)
  have E': "set (map ev_matchId (st_events ?s')) = insert ?x0 (set (map ev_matchId (st_events s)))"
    by (simp add: placeAt_fields)
  have 1: "distinct (map sm_matchId (st_schedule ?s'))"
    using inv xP by (simp add: placeAt_schedule once_inv_def)
  have 2: "once_mq (insert ?x0 ?P) (st_matchMap s, remove ?x0 (st_queue s))"
    using om xq dq unfolding once_mq_def by (auto simp: qids_remove set_remove1_eq)
  have 3: "distinct (map ev_matchId (st_events ?s'))"
    unfolding placeAt_fields distinct_map_sort_key using inv xE by (simp add: once_inv_def)
  have 7: "unflushed s d" if "unflushed ?s' d" for d
  proof (cases "d = ?x0")
    case True
    with xP show ?thesis unfolding unflushed_def by blast
  next
    case False
    with that show ?thesis unfolding unflushed_def P' E' by blast
  qed
  show ?thesis
    unfolding once_inv_def P' E'
    using inv 1 2 3 xd 7
    by (simp add: once_inv_def placeAt_fields P' [symmetric]; blast)
qed

lemma once_inv_advance:
  "once_inv dp s \<Longrightarrow> once_inv dp (s\<lparr>st_currentTime := t\<rparr>)"
  by (simp add: once_inv_def unflushed_def)

section \<open>The initial state of scheduleMatches\<close>

lemma dependents_of_addDependent:
  "dependents_of (addDependent X d dp) d' =
     (if d' = d then set_add X (dependents_of dp d) else dependents_of dp d')"
  by (simp add: dependents_of_def addDependent_def update_conv')

lemma distinct_set_add: "distinct xs \<Longrightarrow> distinct (set_add x xs)"
  by (simp add: set_add_def)

lemma dependents_of_fold_addDependent:
  "set (dependents_of (fold (addDependent X) ds dp) d') =
     set (dependents_of dp d') \<union> (if d' \<in> set ds then {X} else {})"
  by (induction ds arbitrary: dp) (auto simp: dependents_of_addDependent)

lemma distinct_dependents_fold_addDependent:
  "distinct (dependents_of dp d') \<Longrightarrow>
     distinct (dependents_of (fold (addDependent X) ds dp) d')"
proof (induction ds arbitrary: dp)
  case Nil
  then show ?case by simp
next
  case (Cons a ds)
  have "distinct (dependents_of (addDependent X a dp) d')"
    using Cons.prems by (auto simp: dependents_of_addDependent distinct_set_add)
  from Cons.IH [OF this] show ?case by simp
qed

lemma set_dependents_fold:
  "set (dependents_of (fold (\<lambda>m. fold (addDependent (m_id m)) (deps_of m)) matches dp) d) =
     set (dependents_of dp d) \<union> {m_id m |m. m \<in> set matches \<and> d \<in> set (deps_of m)}"
  by (induction matches arbitrary: dp) (auto simp: dependents_of_fold_addDependent)

lemma distinct_dependents_fold:
  "distinct (dependents_of dp d) \<Longrightarrow>
     distinct (dependents_of (fold (\<lambda>m. fold (addDependent (m_id m)) (deps_of m)) matches dp) d)"
proof (induction matches arbitrary: dp)
  case Nil
  then show ?case by simp
next
  case (Cons m ms)
  have "distinct (dependents_of (fold (addDependent (m_id m)) (deps_of m) dp) d)"
    using Cons.prems by (rule distinct_dependents_fold_addDependent)
  from Cons.IH [OF this] show ?case by simp
qed

lemma set_dependents_buildGraph:
  "set (dependents_of (snd (buildGraph matches)) d) =
     {m_id m |m. m \<in> set matches \<and> d \<in> set (deps_of m)}"
  by (simp add: snd_buildGraph set_dependents_fold) (simp add: dependents_of_def)

lemma distinct_dependents_buildGraph:
  "distinct (dependents_of (snd (buildGraph matches)) d)"
  unfolding snd_buildGraph by (rule distinct_dependents_fold) (simp add: dependents_of_def)

lemma initialQueue_fold_qids:
  assumes "distinct (map fst mm)" "\<forall>(k, t) \<in> set mm. m_id (task_match t) = k"
    "distinct (qids q)" "set (qids q) \<inter> fst ` set mm = {}"
  shows "distinct (qids (fold (\<lambda>(matchId, task) queue.
             if remainingDependencies task = [] then enqueue ck task queue else queue) mm q))"
  using assms
proof (induction mm arbitrary: q)
  case Nil
  then show ?case by simp
next
  case (Cons a mm)
  obtain k t where a: "a = (k, t)" by (cases a)
  from Cons.prems a have id: "m_id (task_match t) = k" by simp
  let ?q1 = "if remainingDependencies t = [] then enqueue ck t q else q"
  have 1: "distinct (qids ?q1)" using Cons.prems id a by auto
  have 2: "set (qids ?q1) \<inter> fst ` set mm = {}" using Cons.prems id a by auto
  have "distinct (map fst mm)" "\<forall>(k, t) \<in> set mm. m_id (task_match t) = k"
    using Cons.prems by auto
  from Cons.IH [OF this 1 2] show ?case by (simp add: a)
qed

lemma buildGraph_entries:
  "(k, t) \<in> set (fst (buildGraph matches)) \<Longrightarrow>
     m_id (task_match t) = k \<and> (\<exists>m \<in> set matches. t = initialTask m)"
proof -
  assume "(k, t) \<in> set (fst (buildGraph matches))"
  with distinct_buildGraph have "map_of (fst (buildGraph matches)) k = Some t" by simp
  then obtain z where z: "registered matches k = Some z" "t = initialTask z"
    by (auto simp: map_of_buildGraph)
  with registered_id [OF z(1)] show ?thesis by (auto simp: initialTask_def)
qed

lemma once_inv_init:
  assumes d: "distinct (map m_id matches)"
  shows "once_inv (snd (buildGraph matches)) (scheduleInit ck start matches courts)"
proof -
  let ?mm = "fst (buildGraph matches)"
  let ?q = "initialQueue ck ?mm"
  have ids: "\<forall>(k, t) \<in> set ?mm. m_id (task_match t) = k"
    using buildGraph_entries by blast
  have dq: "distinct (qids ?q)"
    unfolding initialQueue_def
    by (rule initialQueue_fold_qids [OF distinct_buildGraph ids]) (simp_all add: qids_def)
  have sq: "set (qids ?q) = {k. \<exists>t. map_of ?mm k = Some t \<and> remainingDependencies t = []}"
  proof (intro set_eqI iffI)
    fix k assume "k \<in> set (qids ?q)"
    then obtain t where t: "t \<in> set ?q" "m_id (task_match t) = k" by (auto simp: qids_def)
    then obtain k' where k': "(k', t) \<in> set ?mm" "remainingDependencies t = []"
      by (auto simp: set_initialQueue)
    with ids t have "k' = k" by auto
    with k' distinct_buildGraph have "map_of ?mm k = Some t" by simp
    with k' show "k \<in> {k. \<exists>t. map_of ?mm k = Some t \<and> remainingDependencies t = []}" by blast
  next
    fix k assume "k \<in> {k. \<exists>t. map_of ?mm k = Some t \<and> remainingDependencies t = []}"
    then obtain t where t: "map_of ?mm k = Some t" "remainingDependencies t = []" by blast
    then have in_mm: "(k, t) \<in> set ?mm" by (simp add: map_of_SomeD)
    with t have "t \<in> set ?q" by (force simp: set_initialQueue)
    moreover from in_mm ids have "m_id (task_match t) = k" by auto
    ultimately show "k \<in> set (qids ?q)" by (auto simp: qids_def)
  qed
  have om: "once_mq {} (?mm, ?q)"
    unfolding once_mq_def using dq sq by auto
  have 7: "dd \<in> set (remainingDependencies t)"
    if X: "X \<in> set (dependents_of (snd (buildGraph matches)) dd)" and m: "map_of ?mm X = Some t"
    for dd X t
  proof -
    from X obtain m' where m': "m' \<in> set matches" "m_id m' = X" "dd \<in> set (deps_of m')"
      by (auto simp: set_dependents_buildGraph)
    from registered_distinct [OF d m'(1)] m'(2) have "registered matches X = Some m'" by simp
    with m have "t = initialTask m'" by (simp add: map_of_buildGraph)
    with m'(3) show ?thesis by (simp add: initialTask_def)
  qed
  show ?thesis
    unfolding once_inv_def
    using om 7 distinct_buildGraph
    by (simp add: scheduleInit_def Let_def)
qed

section \<open>The full invariant\<close>

lemma sched_inv_flush:
  assumes "sched_inv lk (lp_restTime p) s" "st_events s = ev # rest" "ev_time ev \<le> st_currentTime s"
  shows "sched_inv lk (lp_restTime p) (handleEvent ck p ev (s\<lparr>st_events := rest\<rparr>))"
  using assms unfolding sched_inv_def
  by (auto intro: reg_inv_flush time_inv_flush team_inv_flush)

lemma sched_inv_place:
  assumes inv: "sched_inv lk (lp_restTime p) s" and q: "task \<in> set (st_queue s)"
    and av: "areTeamsAvailable (task_match task) (st_currentTime s) (st_teamStates s)"
  shows "sched_inv lk (lp_restTime p) (placeAt p s task ci)"
proof -
  from inv q have reg: "lk (m_id (task_match task)) = Some (task_match task)"
    by (simp add: sched_inv_def reg_inv_def)
  have tp: "team_inv lk (lp_restTime p) (placeAt p s task ci) T"
    if "team_inv lk (lp_restTime p) s T" for T
    using that reg av by (rule team_inv_place)
  from inv show ?thesis
    unfolding sched_inv_def
    by (auto intro: reg_inv_place time_inv_place tp)
qed

lemma sched_inv_advance:
  assumes "sched_inv lk rest s" "st_currentTime s \<le> t"
  shows "sched_inv lk rest (s\<lparr>st_currentTime := t\<rparr>)"
  using assms unfolding sched_inv_def
  by (auto intro: reg_inv_advance time_inv_advance team_inv_advance)

lemma full_inv_flush:
  assumes "full_inv lk p s" "st_events s = ev # rest" "ev_time ev \<le> st_currentTime s"
  shows "full_inv lk p (handleEvent ck p ev (s\<lparr>st_events := rest\<rparr>))"
proof -
  from assms(1) have reg: "reg_inv lk s" by (simp add: full_inv_def sched_inv_def)
  from assms show ?thesis
    unfolding full_inv_def
    by (auto intro: sched_inv_flush dep_inv_flush once_inv_flush [OF _ reg])
qed

lemma full_inv_place:
  assumes inv: "full_inv lk p s" and q: "task \<in> set (st_queue s)"
    and tt: "tryTask p s task = Some s'"
  shows "full_inv lk p s'"
proof -
  from tryTask_SomeD [OF tt] obtain ci where
    av: "areTeamsAvailable (task_match task) (st_currentTime s) (st_teamStates s)" and
    s': "s' = placeAt p s task ci" by blast
  from inv have reg: "reg_inv lk s" by (simp add: full_inv_def sched_inv_def)
  from inv show ?thesis
    unfolding full_inv_def s'
    by (auto intro: sched_inv_place [OF _ q av] dep_inv_place [OF _ reg q] once_inv_place [OF _ q])
qed

lemma full_inv_advance:
  assumes "full_inv lk p s" "st_currentTime s \<le> t"
  shows "full_inv lk p (s\<lparr>st_currentTime := t\<rparr>)"
  using assms unfolding full_inv_def
  by (auto intro: sched_inv_advance dep_inv_advance once_inv_advance)

lemma core_of_full: "full_inv lk p s \<Longrightarrow> core_inv lk p s"
  by (simp add: full_inv_def core_inv_def)

lemma core_inv_flush:
  assumes "core_inv lk p s" "st_events s = ev # rest" "ev_time ev \<le> st_currentTime s"
  shows "core_inv lk p (handleEvent ck p ev (s\<lparr>st_events := rest\<rparr>))"
proof -
  from assms(1) have reg: "reg_inv lk s" by (simp add: core_inv_def sched_inv_def)
  from assms show ?thesis
    unfolding core_inv_def
    by (auto intro: sched_inv_flush once_inv_flush [OF _ reg])
qed

lemma core_inv_place:
  assumes inv: "core_inv lk p s" and q: "task \<in> set (st_queue s)"
    and tt: "tryTask p s task = Some s'"
  shows "core_inv lk p s'"
proof -
  from tryTask_SomeD [OF tt] obtain ci where
    av: "areTeamsAvailable (task_match task) (st_currentTime s) (st_teamStates s)" and
    s': "s' = placeAt p s task ci" by blast
  from inv show ?thesis
    unfolding core_inv_def s'
    by (auto intro: sched_inv_place [OF _ q av] once_inv_place [OF _ q])
qed

lemma core_inv_advance:
  assumes "core_inv lk p s" "st_currentTime s \<le> t"
  shows "core_inv lk p (s\<lparr>st_currentTime := t\<rparr>)"
  using assms unfolding core_inv_def
  by (auto intro: sched_inv_advance once_inv_advance)

lemma full_inv_init:
  assumes "distinct (map m_id matches)"
  shows "full_inv (registered matches) (scheduleParams start matches config)
           (scheduleInit ck start matches courts)"
  unfolding full_inv_def
  by (simp add: scheduleParams_def sched_inv_init dep_inv_init once_inv_init [OF assms]
        distinct_dependents_buildGraph)

lemma full_inv_final:
  assumes run: "mainLoop ck p s0 = Some (Inr s)" and init: "full_inv lk p s0"
  shows "full_inv lk p s"
proof -
  have "full_inv lk p s \<and> st_queue s = [] \<and> st_events s = []"
  proof (rule loop_invariant [where I = "full_inv lk p", OF run init])
    fix s ev rest
    assume "full_inv lk p s" "st_events s = ev # rest" "ev_time ev \<le> st_currentTime s"
    then show "full_inv lk p (handleEvent ck p ev (s\<lparr>st_events := rest\<rparr>))"
      by (rule full_inv_flush)
  next
    fix s task s'
    assume "full_inv lk p s" "task \<in> set (st_queue s)" "tryTask p s task = Some s'"
    then show "full_inv lk p s'" by (rule full_inv_place)
  next
    fix s :: sched_state and t
    assume "full_inv lk p s" "st_currentTime s < t"
    then show "full_inv lk p (s\<lparr>st_currentTime := t\<rparr>)"
      by (intro full_inv_advance) auto
  qed
  then show ?thesis by simp
qed

text \<open>What the final state of a run on distinct identities looks like.\<close>

lemma card_eq_set_eq:
  assumes "distinct xs" "distinct ys" "set xs \<subseteq> set ys" "length xs = length ys"
  shows "set xs = set ys"
  using assms by (metis card_subset_eq distinct_card finite_set)

lemma scheduleMatches_distinct_final:
  assumes ret: "scheduleMatches ck now matches courts config = Some (Inr r)"
    and d: "distinct (map m_id matches)"
  shows "distinct (map sm_matchId (schedule r))"
    and "set (map sm_matchId (schedule r)) = set (map m_id matches)"
    and "\<forall>e \<in> set (schedule r). \<forall>m. registered matches (sm_matchId e) = Some m \<longrightarrow>
          (\<forall>d \<in> set (deps_of m).
             \<exists>e' \<in> set (schedule r). sm_matchId e' = d \<and> sm_endTime e' \<le> sm_startTime e)"
proof -
  from ret obtain s start where
    start: "start = (case startTime config of Some t \<Rightarrow> t | None \<Rightarrow> now)" and
    run: "mainLoop ck (scheduleParams start matches config) (scheduleInit ck start matches courts)
       = Some (Inr s)" and
    r: "schedule r = sort_key sm_startTime (st_schedule s)" and
    len: "length (st_schedule s) = length matches" and ne: "matches \<noteq> []" "courts \<noteq> []"
    by (rule scheduleMatches_InrE)
  have inv: "full_inv (registered matches) (scheduleParams start matches config) s"
    by (rule full_inv_final [OF run full_inv_init [OF d]])
  then have "sorted (map sm_startTime (st_schedule s))"
    by (simp add: full_inv_def sched_inv_def time_inv_def)
  then have id: "schedule r = st_schedule s" by (simp add: r sort_key_id_if_sorted)
  from inv have dP: "distinct (map sm_matchId (st_schedule s))"
    by (simp add: full_inv_def once_inv_def)
  then show "distinct (map sm_matchId (schedule r))" by (simp add: id)
  have sub: "set (map sm_matchId (st_schedule s)) \<subseteq> set (map m_id matches)"
  proof
    fix k assume "k \<in> set (map sm_matchId (st_schedule s))"
    with inv obtain t where "map_of (st_matchMap s) k = Some t"
      unfolding full_inv_def once_inv_def by blast
    with inv have "registered matches k = Some (task_match t)"
      by (simp add: full_inv_def sched_inv_def reg_inv_def)
    from registered_id [OF this] show "k \<in> set (map m_id matches)" by auto
  qed
  have "set (map sm_matchId (st_schedule s)) = set (map m_id matches)"
    by (rule card_eq_set_eq [OF dP d sub]) (simp add: len)
  then show "set (map sm_matchId (schedule r)) = set (map m_id matches)" by (simp add: id)
  from inv show "\<forall>e \<in> set (schedule r). \<forall>m. registered matches (sm_matchId e) = Some m \<longrightarrow>
          (\<forall>d \<in> set (deps_of m).
             \<exists>e' \<in> set (schedule r). sm_matchId e' = d \<and> sm_endTime e' \<le> sm_startTime e)"
    unfolding id full_inv_def dep_inv_def by blast
qed

lemma scheduleMatches_dangling_no_result:
  assumes d: "distinct (map m_id matches)" and dg: "dangling matches"
  shows "scheduleMatches ck now matches courts config \<noteq> Some (Inr r)"
proof
  assume ret: "scheduleMatches ck now matches courts config = Some (Inr r)"
  from dg obtain m dd where m: "m \<in> set matches" "dd \<in> set (deps_of m)"
    "dd \<notin> set (map m_id matches)"
    unfolding dangling_def by blast
  from scheduleMatches_distinct_final(2) [OF ret d] m(1)
  obtain e where e: "e \<in> set (schedule r)" "sm_matchId e = m_id m" by force
  from registered_distinct [OF d m(1)] e(2) have "registered matches (sm_matchId e) = Some m" by simp
  with scheduleMatches_distinct_final(3) [OF ret d] e(1) m(2)
  obtain e' where "e' \<in> set (schedule r)" "sm_matchId e' = dd" by blast
  then have "dd \<in> set (map sm_matchId (schedule r))" by force
  with scheduleMatches_distinct_final(2) [OF ret d] m(3) show False by simp
qed

section \<open>Termination of the main loop\<close>

lemma wf_loop_rel: "wf (loop_rel p)"
  unfolding loop_rel_def by (intro wf_inv_image wf_lex_prod wf_less_than)

lemma length_update_in:
  "k \<in> fst ` set al \<Longrightarrow> length (AList.update k v al) = length al"
  by (induction al) auto

lemma length_fst_unlockDependent:
  "length (fst (unlockDependent ck d X mq)) = length (fst mq)"
proof (cases "map_of (fst mq) X")
  case None
  then show ?thesis by (simp add: unlockDependent_def)
next
  case (Some t)
  then have "(X, t) \<in> set (fst mq)" by (rule map_of_SomeD)
  then have "X \<in> fst ` set (fst mq)" by force
  with Some show ?thesis by (simp add: unlockDependent_def Let_def length_update_in)
qed

lemma length_fst_fold_unlock:
  "length (fst (fold (unlockDependent ck d) todo mq)) = length (fst mq)"
  by (induction todo arbitrary: mq) (simp_all add: length_fst_unlockDependent)

lemma length_matchMap_handleEvent:
  "length (st_matchMap (handleEvent ck p ev s)) = length (st_matchMap s)"
proof -
  have "st_matchMap (handleEvent ck p ev s) = fst (fold (unlockDependent ck (ev_matchId ev))
       (case map_of (lp_dependents p) (ev_matchId ev) of Some ds \<Rightarrow> ds | None \<Rightarrow> [])
       (st_matchMap s, st_queue s))"
    using handleEvent_mq [of ck p ev s] by (metis fst_conv)
  then show ?thesis by (simp add: length_fst_fold_unlock)
qed

lemma processEvents_effect:
  assumes "st_events s = evs"
  shows "length (st_matchMap (processEvents ck p evs s)) = length (st_matchMap s) \<and>
         (\<exists>pre. evs = pre @ st_events (processEvents ck p evs s) \<and>
                (pre = [] \<longrightarrow> processEvents ck p evs s = s))"
  using assms
proof (induction evs arbitrary: s)
  case Nil
  then have "s\<lparr>st_events := []\<rparr> = s" by (cases s) auto
  with Nil.prems show ?case by simp
next
  case (Cons ev rest)
  show ?case
  proof (cases "ev_time ev \<le> st_currentTime s")
    case True
    let ?s1 = "handleEvent ck p ev (s\<lparr>st_events := rest\<rparr>)"
    have "st_events ?s1 = rest" by simp
    from Cons.IH [OF this] obtain pre where
      l: "length (st_matchMap (processEvents ck p rest ?s1)) = length (st_matchMap ?s1)" and
      pre: "rest = pre @ st_events (processEvents ck p rest ?s1)" by blast
    have "ev # rest = (ev # pre) @ st_events (processEvents ck p rest ?s1) \<and>
          (ev # pre = [] \<longrightarrow> processEvents ck p rest ?s1 = s)"
      using pre by simp
    then have "\<exists>pre'. ev # rest = pre' @ st_events (processEvents ck p rest ?s1) \<and>
          (pre' = [] \<longrightarrow> processEvents ck p rest ?s1 = s)" by (rule exI)
    with l True show ?thesis
      by (simp add: length_matchMap_handleEvent)
  next
    case False
    have eq: "s\<lparr>st_events := ev # rest\<rparr> = s" using Cons.prems by (cases s) auto
    show ?thesis using False Cons.prems by (simp add: eq)
  qed
qed

lemma length_filter_suffix:
  "length (filter P ys) \<le> length (filter P (xs @ ys))"
  by simp

lemma length_filter_less:
  assumes "\<And>x. x \<in> set xs \<Longrightarrow> P x \<Longrightarrow> Q x" "x \<in> set xs" "Q x" "\<not> P x"
  shows "length (filter P xs) < length (filter Q xs)"
  using assms
proof (induction xs)
  case Nil
  then show ?case by simp
next
  case (Cons a xs)
  have le: "length (filter P xs) \<le> length (filter Q xs)"
  proof -
    have "filter P xs = filter P (filter Q xs)"
      using Cons.prems(1) by (auto intro: filter_cong simp: filter_filter)
    then show ?thesis by (metis length_filter_le)
  qed
  show ?case
  proof (cases "x = a")
    case True
    with Cons.prems le show ?thesis by simp
  next
    case False
    with Cons.prems have "length (filter P xs) < length (filter Q xs)"
      by (intro Cons.IH) auto
    with Cons.prems(1) [of a] show ?thesis by auto
  qed
qed

lemma length_filter_mono:
  assumes "\<And>x. x \<in> set xs \<Longrightarrow> P x \<Longrightarrow> Q x"
  shows "length (filter P xs) \<le> length (filter Q xs)"
proof -
  have "filter P xs = filter P (filter Q xs)"
    using assms by (auto intro: filter_cong simp: filter_filter)
  then show ?thesis by (metis length_filter_le)
qed

lemma fold_candidate_mem:
  "fold (\<lambda>x. candidate cur (f x)) xs n = n \<or>
   fold (\<lambda>x. candidate cur (f x)) xs n \<in> f ` set xs"
proof (induction xs arbitrary: n)
  case Nil
  then show ?case by simp
next
  case (Cons x xs)
  from Cons.IH [of "candidate cur (f x) n"] show ?case
    by (auto simp: candidate_def split: if_splits)
qed

lemma findNextTime_mem:
  assumes "findNextTime p s < MAX_DATE"
  shows "(\<exists>st \<in> set (map snd (st_teamStates s)). ts_availableAt st = findNextTime p s) \<or>
         (\<exists>c \<in> set (st_courtStates s). cs_availableAt c = findNextTime p s) \<or>
         lp_floor p = Some (findNextTime p s)"
proof -
  let ?cur = "st_currentTime s"
  define T where "T = map snd (st_teamStates s)"
  let ?n1 = "fold (\<lambda>state. candidate ?cur (ts_availableAt state)) T MAX_DATE"
  let ?n2 = "fold (\<lambda>court. candidate ?cur (cs_availableAt court)) (st_courtStates s) ?n1"
  have 1: "?n1 = MAX_DATE \<or> (\<exists>st \<in> set T. ts_availableAt st = ?n1)"
    using fold_candidate_mem [of ?cur ts_availableAt T MAX_DATE] by auto
  have 2: "?n2 = ?n1 \<or> (\<exists>c \<in> set (st_courtStates s). cs_availableAt c = ?n2)"
    using fold_candidate_mem [of ?cur cs_availableAt "st_courtStates s" ?n1] by auto
  have 3: "findNextTime p s = ?n2 \<or> lp_floor p = Some (findNextTime p s)"
    by (auto simp: findNextTime_def Let_def candidate_def T_def split: option.splits)
  show ?thesis
  proof (cases "lp_floor p = Some (findNextTime p s)")
    case True
    then show ?thesis by simp
  next
    case False
    with 3 have e: "findNextTime p s = ?n2" by simp
    show ?thesis
    proof (cases "?n2 = ?n1")
      case True
      with e assms have "?n1 \<noteq> MAX_DATE" by simp
      with 1 have "\<exists>st \<in> set T. ts_availableAt st = ?n1" by simp
      with True e show ?thesis unfolding T_def by simp
    next
      case False
      with 2 have "\<exists>c \<in> set (st_courtStates s). cs_availableAt c = ?n2" by simp
      with e show ?thesis by simp
    qed
  qed
qed

lemma m_wakeups_decreases:
  assumes lt: "findNextTime p s < MAX_DATE"
  shows "m_wakeups p (s\<lparr>st_currentTime := findNextTime p s\<rparr>) < m_wakeups p s"
proof -
  let ?nt = "findNextTime p s"
  let ?cur = "st_currentTime s"
  from findNextTime_gt [OF lt] have gt: "?cur < ?nt" .
  let ?T = "map snd (st_teamStates s)"
  let ?C = "st_courtStates s"
  have t_le: "length (filter (\<lambda>st. ?nt < ts_availableAt st) ?T)
                \<le> length (filter (\<lambda>st. ?cur < ts_availableAt st) ?T)"
    using gt by (intro length_filter_mono) auto
  have c_le: "length (filter (\<lambda>c. ?nt < cs_availableAt c) ?C)
                \<le> length (filter (\<lambda>c. ?cur < cs_availableAt c) ?C)"
    using gt by (intro length_filter_mono) auto
  have f_le: "(case lp_floor p of Some fl \<Rightarrow> if ?nt < fl then 1 else 0 | None \<Rightarrow> 0)
                \<le> (case lp_floor p of Some fl \<Rightarrow> if ?cur < fl then (1::nat) else 0 | None \<Rightarrow> 0)"
    using gt by (auto split: option.splits)
  from findNextTime_mem [OF lt] consider
    (team) st where "st \<in> set ?T" "ts_availableAt st = ?nt"
    | (court) c where "c \<in> set ?C" "cs_availableAt c = ?nt"
    | (floor) "lp_floor p = Some ?nt"
    by blast
  then show ?thesis
  proof cases
    case team
    have "length (filter (\<lambda>st. ?nt < ts_availableAt st) ?T)
                < length (filter (\<lambda>st. ?cur < ts_availableAt st) ?T)"
      using gt team by (intro length_filter_less [of ?T _ _ st]) auto
    with c_le f_le show ?thesis unfolding m_wakeups_def by (simp cong: option.case_cong)
  next
    case court
    have "length (filter (\<lambda>c. ?nt < cs_availableAt c) ?C)
                < length (filter (\<lambda>c. ?cur < cs_availableAt c) ?C)"
      using gt court by (intro length_filter_less [of ?C _ _ c]) auto
    with t_le f_le show ?thesis unfolding m_wakeups_def by (simp cong: option.case_cong)
  next
    case floor
    with gt have "(case lp_floor p of Some fl \<Rightarrow> if ?nt < fl then 1 else 0 | None \<Rightarrow> 0)
                < (case lp_floor p of Some fl \<Rightarrow> if ?cur < fl then (1::nat) else 0 | None \<Rightarrow> 0)"
      by simp
    with t_le c_le show ?thesis unfolding m_wakeups_def by (simp cong: option.case_cong)
  qed
qed

lemma once_inv_room:
  assumes inv: "once_inv dp s" and q: "task \<in> set (st_queue s)"
  shows "length (st_schedule s) < length (st_matchMap s)"
proof -
  let ?x0 = "m_id (task_match task)"
  let ?P = "set (map sm_matchId (st_schedule s))"
  from q have xq: "?x0 \<in> set (qids (st_queue s))" by (auto simp: qids_def)
  from inv have om: "once_mq ?P (st_matchMap s, st_queue s)" by (simp add: once_inv_def)
  with xq have xP: "?x0 \<notin> ?P" and xd: "?x0 \<in> dom (map_of (st_matchMap s))"
    by (auto simp: once_mq_def)
  from inv have dP: "distinct (map sm_matchId (st_schedule s))"
    and sub: "?P \<subseteq> dom (map_of (st_matchMap s))"
    by (auto simp: once_inv_def)
  have "card (insert ?x0 ?P) \<le> card (dom (map_of (st_matchMap s)))"
    using sub xd by (intro card_mono) (auto simp: finite_dom_map_of)
  moreover have "card (insert ?x0 ?P) = Suc (length (st_schedule s))"
    using xP dP by (simp add: distinct_card [symmetric] del: set_map) (metis distinct_card length_map)
  moreover have "card (dom (map_of (st_matchMap s))) \<le> length (st_matchMap s)"
    by (simp add: dom_map_of_conv_image_fst) (metis card_image_le card_length finite_set le_trans)
  ultimately show ?thesis by linarith
qed

lemma core_inv_processEvents:
  assumes "core_inv lk p s"
  shows "core_inv lk p (processEvents ck p (st_events s) s) \<and>
         flushed (processEvents ck p (st_events s) s)"
  by (rule processEvents_inv [where I = "core_inv lk p", OF assms refl]) (rule core_inv_flush)

lemma in_loop_rel:
  "(s', s) \<in> loop_rel p \<longleftrightarrow>
     m_unplaced s' < m_unplaced s \<or>
     (m_unplaced s' = m_unplaced s \<and>
        (m_events s' < m_events s \<or>
         (m_events s' = m_events s \<and> m_wakeups p s' < m_wakeups p s)))"
  by (auto simp: loop_rel_def)

lemma core_inv_iteration:
  assumes inv: "core_inv lk p s" and it: "iteration ck p s = Continue s'"
  shows "core_inv lk p s' \<and> (s', s) \<in> loop_rel p"
proof -
  let ?s1 = "processEvents ck p (st_events s) s"
  from core_inv_processEvents [OF inv, where ck = ck] have inv1: "core_inv lk p ?s1" and fl: "flushed ?s1"
    by simp_all
  from processEvents_effect [of s "st_events s" ck p, OF refl] obtain pre where
    len: "length (st_matchMap ?s1) = length (st_matchMap s)" and
    pre: "st_events s = pre @ st_events ?s1" and
    same: "pre = [] \<longrightarrow> ?s1 = s"
    by blast
  have u1: "m_unplaced ?s1 = m_unplaced s" by (simp add: m_unplaced_def len)
  have e1: "m_events ?s1 \<le> m_events s"
    unfolding m_events_def by (subst (3 4) pre) simp
  have e1': "m_events ?s1 < m_events s" if "pre \<noteq> []"
    unfolding m_events_def using that by (subst (3 4) pre) (simp add: less_le_trans)
  from it show ?thesis
  proof (cases rule: iteration_cases)
    case (placed task s'')
    then have s'': "s'' = s'" by simp
    from placed have q: "task \<in> set (st_queue ?s1)" and tt: "tryTask p ?s1 task = Some s'"
      by (simp_all add: s'')
    from core_inv_place [OF inv1 q tt] have i': "core_inv lk p s'" .
    from tryTask_SomeD [OF tt] obtain ci where s': "s' = placeAt p ?s1 task ci" by blast
    from inv1 have "once_inv (lp_dependents p) ?s1" by (simp add: core_inv_def)
    from once_inv_room [OF this q] have "length (st_schedule ?s1) < length (st_matchMap ?s1)" .
    then have "m_unplaced s' < m_unplaced ?s1"
      unfolding m_unplaced_def s' by (simp add: placeAt_schedule placeAt_fields)
    with u1 i' show ?thesis by (simp add: in_loop_rel)
  next
    case next_event
    let ?t1 = "ev_time (hd (st_events ?s1))"
    from next_event have s': "s' = ?s1\<lparr>st_currentTime := ?t1\<rparr>" by simp
    from next_event(3) fl have gt: "st_currentTime ?s1 < ?t1"
      by (cases "st_events ?s1") (auto simp: flushed_def)
    have i': "core_inv lk p s'" unfolding s' using inv1 gt by (intro core_inv_advance) auto
    have "length (filter (\<lambda>ev. ?t1 < ev_time ev) (st_events ?s1))
            < length (filter (\<lambda>ev. st_currentTime ?s1 < ev_time ev) (st_events ?s1))"
      using gt next_event(3)
      by (intro length_filter_less [of _ _ _ "hd (st_events ?s1)"]) auto
    then have "m_events s' < m_events ?s1" unfolding m_events_def s' by simp
    moreover have "m_unplaced s' = m_unplaced ?s1" unfolding m_unplaced_def s' by simp
    ultimately show ?thesis using i' u1 e1 by (simp add: in_loop_rel)
  next
    case next_time
    let ?nt = "findNextTime p ?s1"
    from next_time have s': "s' = ?s1\<lparr>st_currentTime := ?nt\<rparr>" by simp
    from findNextTime_gt [OF next_time(5)] have gt: "st_currentTime ?s1 < ?nt" .
    have i': "core_inv lk p s'" unfolding s' using inv1 gt by (intro core_inv_advance) auto
    have u': "m_unplaced s' = m_unplaced ?s1" unfolding m_unplaced_def s' by simp
    have e': "m_events s' = 0" unfolding m_events_def s' using next_time(3) by simp
    show ?thesis
    proof (cases "pre = []")
      case True
      with same have eq: "?s1 = s" by simp
      from m_wakeups_decreases [OF next_time(5)] have "m_wakeups p s' < m_wakeups p ?s1"
        unfolding s' .
      moreover have "m_events ?s1 = 0" unfolding m_events_def using next_time(3) by simp
      ultimately show ?thesis using i' u' e' unfolding eq by (simp add: in_loop_rel)
    next
      case False
      from e1' [OF False] e' have "m_events s' < m_events s" by simp
      with i' u' u1 show ?thesis by (simp add: in_loop_rel)
    qed
  next
    case deadlock
    then show ?thesis by simp
  next
    case finished
    then show ?thesis by simp
  qed
qed

theorem mainLoop_terminates:
  assumes "core_inv lk p s"
  shows "\<exists>res. mainLoop ck p s = Some res"
  using assms
proof (induction s rule: wf_induct_rule [OF wf_loop_rel [of p]])
  case (1 s)
  show ?case
  proof (cases "st_queue s \<noteq> [] \<or> st_events s \<noteq> []")
    case False
    then show ?thesis by (subst mainLoop.simps) simp
  next
    case True
    show ?thesis
    proof (cases "iteration ck p s")
      case (Continue s')
      from core_inv_iteration [OF "1.prems" Continue]
      have "core_inv lk p s'" "(s', s) \<in> loop_rel p" by simp_all
      from "1.IH" [OF this(2,1)] obtain res where "mainLoop ck p s' = Some res" by blast
      with True Continue show ?thesis by (subst mainLoop.simps) simp
    next
      case (Break s')
      with True show ?thesis by (subst mainLoop.simps) simp
    next
      case (Throw e)
      with True show ?thesis by (subst mainLoop.simps) simp
    qed
  qed
qed

section \<open>Dependency ordering\<close>

lemma run_dup:
  "scheduleMatches codeunit_key 0 dup_matches sample_courts norest_config
     = Some (Inr dup_result)"
  by code_simp

text \<open>
  Claim C4 as stated fails on an input in which two matches share an identity: the first
  \<open>M1\<close> declares the dependency \<open>M2\<close>, the second \<open>M1\<close> overwrites it in
  \<open>matchMap\<close>, and the returned schedule has \<open>M1\<close> start at 0 while \<open>M2\<close> ends
  at minute 30.
\<close>

theorem C4_duplicate_counterexample:
  "scheduleMatches codeunit_key 0 dup_matches sample_courts norest_config
     = Some (Inr dup_result) \<and>
   \<not> dependencies_respected dup_matches (schedule dup_result)"
proof -
  have "\<not> dependencies_respected dup_matches (schedule dup_result)"
    by code_simp
  with run_dup show ?thesis by simp
qed

text \<open>
  Claim C4, amended. When the identities of the input matches are pairwise distinct, in
  every schedule returned by \<open>scheduleMatches\<close> each match that declares dependencies
  starts at or after the scheduled end of each of its dependencies (and each dependency
  is scheduled).
\<close>

theorem C4_dependency_order:
  assumes ret: "scheduleMatches ck now matches courts config = Some (Inr r)"
    and d: "distinct (map m_id matches)"
  shows "dependencies_respected matches (schedule r)"
  unfolding dependencies_respected_def
proof (intro ballI impI conjI)
  fix m e dd
  assume m: "m \<in> set matches" and e: "e \<in> set (schedule r)" "sm_matchId e = m_id m"
    and dd: "dd \<in> set (deps_of m)"
  from registered_distinct [OF d m] e(2) have reg: "registered matches (sm_matchId e) = Some m"
    by simp
  with scheduleMatches_distinct_final(3) [OF ret d] e(1) dd
  obtain e0 where e0: "e0 \<in> set (schedule r)" "sm_matchId e0 = dd"
    "sm_endTime e0 \<le> sm_startTime e" by blast
  then show "\<exists>e' \<in> set (schedule r). sm_matchId e' = dd" by blast
  fix e' assume e': "e' \<in> set (schedule r)" "sm_matchId e' = dd"
  from scheduleMatches_distinct_final(1) [OF ret d] e0(1,2) e'
  have "e' = e0" by (metis distinct_map inj_onD)
  with e0(3) show "sm_endTime e' \<le> sm_startTime e" by simp
qed

theorem C4_dependency_order_witness:
  "scheduleMatches codeunit_key 7 sample_matches sample_courts sample_config
     = Some (Inr sample_result) \<and>
   distinct (map m_id sample_matches) \<and>
   deps_of (sample_matches ! 2) = [IdStr ''M1'', IdStr ''M2''] \<and>
   dependencies_respected sample_matches (schedule sample_result)"
proof -
  have d: "distinct (map m_id sample_matches)" by code_simp
  have "deps_of (sample_matches ! 2) = [IdStr ''M1'', IdStr ''M2'']" by code_simp
  with d run_sample C4_dependency_order [OF run_sample d] show ?thesis by blast
qed

section \<open>The dates of a run stay below the horizon\<close>

lemma set_update_cases:
  "x \<in> set (AList.update k v al) \<Longrightarrow> x = (k, v) \<or> x \<in> set al"
  by (induction al) (auto split: if_splits)

lemma bounded_freeTeam:
  assumes "\<forall>x \<in> set ts. ts_availableAt (snd x) \<le> B" "t \<le> B"
  shows "\<forall>x \<in> set (freeTeam k init t ts). ts_availableAt (snd x) \<le> B"
proof
  fix x assume x: "x \<in> set (freeTeam k init t ts)"
  show "ts_availableAt (snd x) \<le> B"
  proof (cases "map_of ts k")
    case None
    with x have "x \<in> set (AList.update k
        \<lparr>ts_teamId = k, ts_availableAt = t, ts_currentMatch = None\<rparr>
        (AList.update k \<lparr>ts_teamId = k, ts_availableAt = init, ts_currentMatch = None\<rparr> ts))"
      by (simp add: freeTeam_def ensureTeamState_def Let_def)
    then have "x \<in> set (AList.update k
        \<lparr>ts_teamId = k, ts_availableAt = t, ts_currentMatch = None\<rparr> ts)"
      by simp
    from set_update_cases [OF this] assms show ?thesis by auto
  next
    case (Some st)
    with x have "x \<in> set (AList.update k (st\<lparr>ts_currentMatch := None, ts_availableAt := t\<rparr>) ts)"
      by (simp add: freeTeam_def ensureTeamState_def)
    from set_update_cases [OF this] assms show ?thesis by auto
  qed
qed

lemma bounded_occupyTeam:
  assumes "\<forall>x \<in> set ts. ts_availableAt (snd x) \<le> B" "init \<le> B"
  shows "\<forall>x \<in> set (occupyTeam mid init T ts). ts_availableAt (snd x) \<le> B"
proof
  fix x assume x: "x \<in> set (occupyTeam mid init T ts)"
  show "ts_availableAt (snd x) \<le> B"
  proof (cases "map_of ts (Some T)")
    case None
    with x have "x \<in> set (AList.update (Some T)
        \<lparr>ts_teamId = Some T, ts_availableAt = init, ts_currentMatch = Some mid\<rparr>
        (AList.update (Some T)
           \<lparr>ts_teamId = Some T, ts_availableAt = init, ts_currentMatch = None\<rparr> ts))"
      by (simp add: occupyTeam_def ensureTeamState_def Let_def)
    then have "x \<in> set (AList.update (Some T)
        \<lparr>ts_teamId = Some T, ts_availableAt = init, ts_currentMatch = Some mid\<rparr> ts)"
      by simp
    from set_update_cases [OF this] assms show ?thesis by auto
  next
    case (Some st)
    then have "(Some T, st) \<in> set ts" by (rule map_of_SomeD)
    with assms have st: "ts_availableAt st \<le> B" by force
    from Some x have "x \<in> set (AList.update (Some T) (st\<lparr>ts_currentMatch := Some mid\<rparr>) ts)"
      by (simp add: occupyTeam_def ensureTeamState_def)
    from set_update_cases [OF this] assms st show ?thesis by auto
  qed
qed

lemma bounded_fold_occupyTeam:
  assumes "\<forall>x \<in> set ts. ts_availableAt (snd x) \<le> B" "init \<le> B"
  shows "\<forall>x \<in> set (fold (occupyTeam mid init) ids ts). ts_availableAt (snd x) \<le> B"
  using assms
proof (induction ids arbitrary: ts)
  case Nil
  then show ?case by simp
next
  case (Cons T ids)
  from bounded_occupyTeam [OF Cons.prems]
  have "\<forall>x \<in> set (occupyTeam mid init T ts). ts_availableAt (snd x) \<le> B" .
  from Cons.IH [OF this Cons.prems(2)] show ?case by simp
qed

lemma bounded_freeCourt:
  assumes "\<forall>c \<in> set cs. cs_availableAt c \<le> B" "t \<le> B"
  shows "\<forall>c \<in> set (freeCourt k t cs). cs_availableAt c \<le> B"
  using assms by (induction cs) auto

lemma freeCourt_nonempty: "cs \<noteq> [] \<Longrightarrow> freeCourt k t cs \<noteq> []"
  by (cases cs) auto

lemma handleEvent_courtStates:
  "st_courtStates (handleEvent ck p ev s) =
     freeCourt (ev_courtId ev) (ev_time ev + lp_courtSetupTime p * 60000) (st_courtStates s)"
  by (simp add: handleEvent_def Let_def)

lemma m_unplaced_handleEvent: "m_unplaced (handleEvent ck p ev s) = m_unplaced s"
  by (simp add: m_unplaced_def length_matchMap_handleEvent)

lemma horizon_inv_flush:
  assumes inv: "horizon_inv H D p s" and ev: "st_events s = ev # rest"
  shows "horizon_inv H D p (handleEvent ck p ev (s\<lparr>st_events := rest\<rparr>))"
proof -
  let ?B = "H - int (m_unplaced s) * slot_ms D p"
  let ?s0 = "s\<lparr>st_events := rest\<rparr>"
  have m: "m_unplaced (handleEvent ck p ev ?s0) = m_unplaced s"
    by (simp add: m_unplaced_handleEvent) (simp add: m_unplaced_def)
  from inv ev have evb: "ev_time ev + turnaround p * 60000 \<le> ?B"
    by (simp add: horizon_inv_def)
  have "lp_restTime p \<le> turnaround p" "lp_courtSetupTime p \<le> turnaround p"
    by (simp_all add: turnaround_def)
  with evb have r: "ev_time ev + lp_restTime p * 60000 \<le> ?B"
    and c: "ev_time ev + lp_courtSetupTime p * 60000 \<le> ?B"
    by simp_all
  from inv have ts: "\<forall>x \<in> set (st_teamStates s). ts_availableAt (snd x) \<le> ?B"
    and cs: "\<forall>c \<in> set (st_courtStates s). cs_availableAt c \<le> ?B"
    by (simp_all add: horizon_inv_def)
  have 1: "\<forall>x \<in> set (st_teamStates (handleEvent ck p ev ?s0)). ts_availableAt (snd x) \<le> ?B"
    unfolding handleEvent_teamStates
    by (intro bounded_freeTeam r) (use ts in simp)
  have 2: "\<forall>c \<in> set (st_courtStates (handleEvent ck p ev ?s0)). cs_availableAt c \<le> ?B"
    unfolding handleEvent_courtStates
    by (intro bounded_freeCourt c) (use cs in simp)
  have 3: "st_courtStates (handleEvent ck p ev ?s0) \<noteq> []"
    unfolding handleEvent_courtStates using inv by (simp add: freeCourt_nonempty horizon_inv_def)
  from inv ev 1 2 3 show ?thesis
    unfolding horizon_inv_def m by simp
qed

lemma horizon_inv_place:
  assumes inv: "horizon_inv H D p s" and room: "length (st_schedule s) < length (st_matchMap s)"
    and dur: "duration (task_match task) \<le> D" and D: "0 \<le> D"
    and ci: "ci < length (st_courtStates s)"
  shows "horizon_inv H D p (placeAt p s task ci)"
proof -
  let ?B = "H - int (m_unplaced s) * slot_ms D p"
  let ?s' = "placeAt p s task ci"
  let ?B' = "H - int (m_unplaced ?s') * slot_ms D p"
  have ta: "0 \<le> turnaround p" by (simp add: turnaround_def)
  from room have "m_unplaced s = Suc (m_unplaced ?s')"
    by (simp add: m_unplaced_def placeAt_schedule placeAt_fields)
  then have B': "?B' = ?B + slot_ms D p" by (simp add: algebra_simps)
  from D ta have sl: "0 \<le> slot_ms D p" by (simp add: slot_ms_def)
  from inv have cur: "st_currentTime s \<le> ?B" by (simp add: horizon_inv_def)
  have "st_currentTime s + duration (task_match task) * 60000 + turnaround p * 60000
          \<le> ?B + (D + turnaround p) * 60000"
    using cur dur by (simp add: algebra_simps)
  then have e1: "st_currentTime s + duration (task_match task) * 60000 + turnaround p * 60000 \<le> ?B'"
    unfolding B' by (simp only: slot_ms_def)
  with ta have e2: "st_currentTime s + duration (task_match task) * 60000 \<le> ?B'" by simp
  from inv sl have ts: "\<forall>x \<in> set (st_teamStates s). ts_availableAt (snd x) \<le> ?B'"
    and init: "lp_initialTime p \<le> ?B'"
    unfolding B' horizon_inv_def by (auto intro: order_trans)
  have 1: "\<forall>x \<in> set (st_teamStates ?s'). ts_availableAt (snd x) \<le> ?B'"
    unfolding placeAt_fields by (rule bounded_fold_occupyTeam [OF ts init])
  have 2: "\<forall>c \<in> set (st_courtStates ?s'). cs_availableAt c \<le> ?B'"
  proof
    fix c assume "c \<in> set (st_courtStates ?s')"
    then have "c \<in> set ((st_courtStates s)
        [ci := (st_courtStates s ! ci)\<lparr>cs_currentMatch := Some (m_id (task_match task)),
           cs_availableAt := st_currentTime s + duration (task_match task) * 60000\<rparr>])"
      by (simp add: placeAt_def Let_def)
    then have "c \<in> set (st_courtStates s) \<or>
        cs_availableAt c = st_currentTime s + duration (task_match task) * 60000"
      using set_update_subset_insert by fastforce
    with inv sl e2 show "cs_availableAt c \<le> ?B'"
      unfolding B' horizon_inv_def by (auto intro: order_trans)
  qed
  from inv have old: "\<forall>ev \<in> set (st_events s). ev_time ev + turnaround p * 60000 \<le> ?B"
    by (simp add: horizon_inv_def)
  have 3: "\<forall>ev \<in> set (st_events ?s'). ev_time ev + turnaround p * 60000 \<le> ?B'"
  proof
    fix ev assume "ev \<in> set (st_events ?s')"
    then have "ev \<in> set (st_events s) \<or>
        ev_time ev = st_currentTime s + duration (task_match task) * 60000"
      by (auto simp: placeAt_fields)
    then show "ev_time ev + turnaround p * 60000 \<le> ?B'"
    proof
      assume "ev \<in> set (st_events s)"
      with old have "ev_time ev + turnaround p * 60000 \<le> ?B" by simp
      with sl show ?thesis unfolding B' by linarith
    next
      assume "ev_time ev = st_currentTime s + duration (task_match task) * 60000"
      with e1 show ?thesis by simp
    qed
  qed
  have 4: "st_courtStates ?s' \<noteq> []"
    using inv by (simp add: placeAt_def Let_def horizon_inv_def)
  from inv sl have 5: "st_currentTime s \<le> ?B'" "lp_initialTime p \<le> ?B'"
    unfolding B' horizon_inv_def by (auto intro: order_trans)
  from inv 1 2 3 4 5 show ?thesis
    unfolding horizon_inv_def by (simp add: placeAt_fields)
qed

lemma horizon_inv_advance:
  assumes inv: "horizon_inv H D p s" and le: "st_currentTime s \<le> t"
    and b: "t \<le> H - int (m_unplaced s) * slot_ms D p"
  shows "horizon_inv H D p (s\<lparr>st_currentTime := t\<rparr>)"
  using assms unfolding horizon_inv_def m_unplaced_def by (auto intro: order_trans)


lemma max_duration_fold:
  "d \<le> fold (\<lambda>m d. max (duration m) d) ms d \<and>
   (\<forall>m \<in> set ms. duration m \<le> fold (\<lambda>m d. max (duration m) d) ms d)"
proof (induction ms arbitrary: d)
  case Nil
  show ?case by simp
next
  case (Cons a ms)
  from Cons.IH [of "max (duration a) d"] show ?case by auto
qed

lemma max_duration_nonneg: "0 \<le> max_duration matches"
  using max_duration_fold [of 0 matches] by (simp add: max_duration_def)

lemma max_duration_ge: "m \<in> set matches \<Longrightarrow> duration m \<le> max_duration matches"
  using max_duration_fold [of 0 matches] by (simp add: max_duration_def)

lemma fold_candidate_le:
  "fold (\<lambda>x. candidate cur (f x)) xs n \<le> n"
proof (induction xs arbitrary: n)
  case Nil
  show ?case by simp
next
  case (Cons x xs)
  have "candidate cur (f x) n \<le> n" by (simp add: candidate_def)
  with Cons.IH [of "candidate cur (f x) n"] show ?case by simp
qed

lemma fold_candidate_le_mem:
  assumes "x \<in> set xs" "cur < f x"
  shows "fold (\<lambda>x. candidate cur (f x)) xs n \<le> f x"
  using assms(1)
proof (induction xs arbitrary: n)
  case Nil
  then show ?case by simp
next
  case (Cons y ys)
  show ?case
  proof (cases "x = y")
    case True
    have "candidate cur (f x) n \<le> f x" using assms(2) by (simp add: candidate_def)
    with fold_candidate_le [of cur f ys "candidate cur (f x) n"] show ?thesis
      using True by simp
  next
    case False
    with Cons.prems have "x \<in> set ys" by simp
    from Cons.IH [OF this] show ?thesis by simp
  qed
qed

lemma findNextTime_le:
  "findNextTime p s \<le> MAX_DATE"
  "st \<in> set (map snd (st_teamStates s)) \<Longrightarrow> st_currentTime s < ts_availableAt st \<Longrightarrow>
     findNextTime p s \<le> ts_availableAt st"
  "c \<in> set (st_courtStates s) \<Longrightarrow> st_currentTime s < cs_availableAt c \<Longrightarrow>
     findNextTime p s \<le> cs_availableAt c"
proof -
  let ?cur = "st_currentTime s"
  let ?n1 = "fold (\<lambda>state. candidate ?cur (ts_availableAt state)) (map snd (st_teamStates s)) MAX_DATE"
  let ?n2 = "fold (\<lambda>court. candidate ?cur (cs_availableAt court)) (st_courtStates s) ?n1"
  have f: "findNextTime p s \<le> ?n2"
    by (auto simp: findNextTime_def Let_def candidate_def split: option.splits)
  have n2: "?n2 \<le> ?n1" by (rule fold_candidate_le)
  have n1: "?n1 \<le> MAX_DATE" by (rule fold_candidate_le)
  from f n2 n1 show "findNextTime p s \<le> MAX_DATE" by linarith
  {
    assume "st \<in> set (map snd (st_teamStates s))" "?cur < ts_availableAt st"
    then have "?n1 \<le> ts_availableAt st" by (rule fold_candidate_le_mem)
    with f n2 show "findNextTime p s \<le> ts_availableAt st" by linarith
  }
  {
    assume "c \<in> set (st_courtStates s)" "?cur < cs_availableAt c"
    then have "?n2 \<le> cs_availableAt c" by (rule fold_candidate_le_mem)
    with f show "findNextTime p s \<le> cs_availableAt c" by linarith
  }
qed

lemma findAvailableCourt_from_all_free:
  assumes "\<forall>c \<in> set courts. cs_availableAt c \<le> time"
    and "case ec of Some (j, c) \<Rightarrow> cs_availableAt c \<le> time | None \<Rightarrow> time < et \<and> courts \<noteq> []"
  shows "\<exists>j t. findAvailableCourt_from time i ec et courts = Some (j, t) \<and> t \<le> time"
  using assms
proof (induction courts arbitrary: i ec et)
  case Nil
  then show ?case by (auto split: option.splits)
next
  case (Cons court courts)
  from Cons.prems(1) have av: "cs_availableAt court \<le> time"
    and rest: "\<forall>c \<in> set courts. cs_availableAt c \<le> time" by simp_all
  show ?case
  proof (cases "cs_availableAt court \<le> time \<and> cs_currentMatch court = None")
    case True
    then show ?thesis by simp
  next
    case nf: False
    show ?thesis
    proof (cases "cs_availableAt court < et")
      case True
      have "\<exists>j t. findAvailableCourt_from time (Suc i) (Some (i, court)) (cs_availableAt court) courts
               = Some (j, t) \<and> t \<le> time"
        by (rule Cons.IH [OF rest]) (simp add: av)
      then show ?thesis
        by (simp only: findAvailableCourt_from.simps if_not_P [OF nf] if_P [OF True])
    next
      case False
      with av Cons.prems(2) obtain j c where ec: "ec = Some (j, c)" "cs_availableAt c \<le> time"
        by (cases ec) auto
      have "\<exists>j t. findAvailableCourt_from time (Suc i) ec et courts = Some (j, t) \<and> t \<le> time"
        by (rule Cons.IH [OF rest]) (simp add: ec)
      then show ?thesis
        by (simp only: findAvailableCourt_from.simps if_not_P [OF nf] if_not_P [OF False])
    qed
  qed
qed

lemma findAvailableCourt_all_free:
  assumes "\<forall>c \<in> set courts. cs_availableAt c \<le> time" "courts \<noteq> []" "time < MAX_DATE"
  shows "\<exists>j t. findAvailableCourt time courts = Some (j, t) \<and> t \<le> time"
  unfolding findAvailableCourt_def
  by (rule findAvailableCourt_from_all_free) (use assms in simp_all)

lemma calculateEarliestStartTime_free:
  assumes "\<forall>x \<in> set teamStates. ts_availableAt (snd x) \<le> cur"
  shows "calculateEarliestStartTime match cur teamStates = cur"
proof -
  have "fold (\<lambda>teamId earliestStart.
             case map_of teamStates (Some teamId) of
               Some state \<Rightarrow>
                 if ts_availableAt state > earliestStart then ts_availableAt state
                 else earliestStart
             | None \<Rightarrow> earliestStart) ids cur = cur" for ids
  proof (induction ids)
    case Nil
    show ?case by simp
  next
    case (Cons a ids)
    have "(case map_of teamStates (Some a) of
               Some state \<Rightarrow> if ts_availableAt state > cur then ts_availableAt state else cur
             | None \<Rightarrow> cur) = cur"
      using assms by (auto split: option.splits dest!: map_of_SomeD)
    with Cons.IH show ?case by simp
  qed
  then show ?thesis by (simp add: calculateEarliestStartTime_def)
qed


lemma horizon_bounds:
  assumes inv: "horizon_inv H D p s" and D: "0 \<le> D"
  shows "H - int (m_unplaced s) * slot_ms D p \<le> H"
proof -
  have "0 \<le> turnaround p" by (simp add: turnaround_def)
  with D have "0 \<le> slot_ms D p" by (simp add: slot_ms_def)
  then have "0 \<le> int (m_unplaced s) * slot_ms D p" by simp
  then show ?thesis by simp
qed

text \<open>
  When nothing is pending and no availability time lies in the future, the first task of
  the queue can be placed.
\<close>

lemma tryTask_all_free:
  assumes teams: "\<forall>x \<in> set (st_teamStates s). ts_availableAt (snd x) \<le> st_currentTime s"
    and courts: "\<forall>c \<in> set (st_courtStates s). cs_availableAt c \<le> st_currentTime s"
    and ne: "st_courtStates s \<noteq> []" and lt: "st_currentTime s < MAX_DATE"
    and fl: "\<forall>fl. lp_floor p = Some fl \<longrightarrow> fl \<le> st_currentTime s"
    and idle: "\<forall>T st. map_of (st_teamStates s) (Some T) = Some st \<longrightarrow> ts_currentMatch st = None"
  shows "tryTask p s task \<noteq> None"
proof -
  let ?cur = "st_currentTime s"
  have av: "areTeamsAvailable (task_match task) ?cur (st_teamStates s)"
    unfolding areTeamsAvailable_def isTeamAvailable_def list_all_iff
    using teams idle by (fastforce split: option.splits dest: map_of_SomeD)
  from findAvailableCourt_all_free [OF courts ne lt] obtain j t where
    fc: "findAvailableCourt ?cur (st_courtStates s) = Some (j, t)" and t: "t \<le> ?cur" by blast
  have te: "calculateEarliestStartTime (task_match task) ?cur (st_teamStates s) = ?cur"
    by (rule calculateEarliestStartTime_free [OF teams])
  have "\<not> (case lp_floor p of None \<Rightarrow> max t ?cur | Some fl \<Rightarrow> max (max t ?cur) fl) > ?cur"
    using t fl by (auto split: option.splits)
  then show ?thesis
    unfolding tryTask_def Let_def te using av fc by simp
qed

lemma team_inv_idle:
  assumes inv: "team_inv lk rest s T" and ev: "st_events s = []"
    and x: "map_of (st_teamStates s) (Some T) = Some st"
  shows "ts_currentMatch st = None"
proof (rule ccontr)
  assume "ts_currentMatch st \<noteq> None"
  then obtain m where m: "ts_currentMatch st = Some m" by blast
  with inv x ev show False by (simp add: team_inv_def)
qed

text \<open>Below the horizon, the deadlock test of the loop never fires.\<close>

lemma no_deadlock:
  assumes full: "core_inv lk p s" and hor: "horizon_inv H D p s" and D: "0 \<le> D"
    and H: "H < MAX_DATE"
    and ev: "st_events s = []" and q: "st_queue s \<noteq> []"
    and pp: "placementPass p s (st_queue s) = None"
  shows "findNextTime p s < MAX_DATE"
proof (rule ccontr)
  assume n: "\<not> findNextTime p s < MAX_DATE"
  let ?cur = "st_currentTime s"
  let ?B = "H - int (m_unplaced s) * slot_ms D p"
  from horizon_bounds [OF hor D] H have B: "?B < MAX_DATE" by linarith
  from hor have cur: "?cur \<le> ?B" by (simp add: horizon_inv_def)
  have teams: "\<forall>x \<in> set (st_teamStates s). ts_availableAt (snd x) \<le> ?cur"
  proof (intro ballI, rule ccontr)
    fix x assume x: "x \<in> set (st_teamStates s)" and "\<not> ts_availableAt (snd x) \<le> ?cur"
    then have gt: "?cur < ts_availableAt (snd x)" by simp
    from x have "snd x \<in> set (map snd (st_teamStates s))" by simp
    from findNextTime_le(2) [OF this gt] have "findNextTime p s \<le> ts_availableAt (snd x)" .
    moreover from hor x have "ts_availableAt (snd x) \<le> ?B" by (simp add: horizon_inv_def)
    ultimately show False using n B by linarith
  qed
  have courts: "\<forall>c \<in> set (st_courtStates s). cs_availableAt c \<le> ?cur"
  proof (intro ballI, rule ccontr)
    fix c assume c: "c \<in> set (st_courtStates s)" and "\<not> cs_availableAt c \<le> ?cur"
    then have gt: "?cur < cs_availableAt c" by simp
    from findNextTime_le(3) [OF c gt] have "findNextTime p s \<le> cs_availableAt c" .
    moreover from hor c have "cs_availableAt c \<le> ?B" by (simp add: horizon_inv_def)
    ultimately show False using n B by linarith
  qed
  from hor have ne: "st_courtStates s \<noteq> []"
    and fl: "\<forall>fl. lp_floor p = Some fl \<longrightarrow> fl \<le> ?cur"
    by (simp_all add: horizon_inv_def)
  from cur B have lt: "?cur < MAX_DATE" by linarith
  from full have ti: "\<And>T. team_inv lk (lp_restTime p) s T"
    by (simp add: core_inv_def sched_inv_def)
  have idle: "\<forall>T st. map_of (st_teamStates s) (Some T) = Some st \<longrightarrow> ts_currentMatch st = None"
    using team_inv_idle [OF ti ev] by blast
  from q obtain task where task: "task \<in> set (st_queue s)" by (cases "st_queue s") auto
  from placementPass_NoneD [OF pp task] have "tryTask p s task = None" .
  with tryTask_all_free [OF teams courts ne lt fl idle, of task] show False by simp
qed

lemma horizon_inv_processEvents:
  assumes "horizon_inv H D p s"
  shows "horizon_inv H D p (processEvents ck p (st_events s) s)"
proof -
  have "horizon_inv H D p (processEvents ck p (st_events s) s) \<and>
        flushed (processEvents ck p (st_events s) s)"
    by (rule processEvents_inv [where I = "horizon_inv H D p", OF assms refl])
       (rule horizon_inv_flush)
  then show ?thesis by simp
qed

text \<open>The invariant of a run below the horizon.\<close>

lemma horizon_iteration:
  assumes full: "core_inv lk p s" and hor: "horizon_inv H D p s" and D: "0 \<le> D"
    and lkD: "\<And>k m. lk k = Some m \<Longrightarrow> duration m \<le> D"
    and it: "iteration ck p s = Continue s'"
  shows "horizon_inv H D p s'"
proof -
  let ?s1 = "processEvents ck p (st_events s) s"
  let ?B = "H - int (m_unplaced ?s1) * slot_ms D p"
  from core_inv_processEvents [OF full, where ck = ck]
  have full1: "core_inv lk p ?s1" and fl: "flushed ?s1" by simp_all
  from horizon_inv_processEvents [OF hor] have hor1: "horizon_inv H D p ?s1" .
  have ta: "0 \<le> turnaround p" by (simp add: turnaround_def)
  from it show ?thesis
  proof (cases rule: iteration_cases)
    case (placed task s'')
    then have q: "task \<in> set (st_queue ?s1)" and tt: "tryTask p ?s1 task = Some s'" by simp_all
    from tryTask_SomeD [OF tt] obtain ci where
      ci: "ci < length (st_courtStates ?s1)" and s': "s' = placeAt p ?s1 task ci" by blast
    from full1 have once: "once_inv (lp_dependents p) ?s1" and reg: "reg_inv lk ?s1"
      by (simp_all add: core_inv_def sched_inv_def)
    from reg q have "lk (m_id (task_match task)) = Some (task_match task)"
      by (simp add: reg_inv_def)
    from lkD [OF this] have dur: "duration (task_match task) \<le> D" .
    show ?thesis unfolding s'
      by (rule horizon_inv_place [OF hor1 once_inv_room [OF once q] dur D ci])
  next
    case next_event
    let ?t1 = "ev_time (hd (st_events ?s1))"
    from next_event have s': "s' = ?s1\<lparr>st_currentTime := ?t1\<rparr>" by simp
    from next_event(3) fl have gt: "st_currentTime ?s1 \<le> ?t1"
      by (cases "st_events ?s1") (auto simp: flushed_def)
    from next_event(3) have "hd (st_events ?s1) \<in> set (st_events ?s1)" by simp
    with hor1 have "?t1 + turnaround p * 60000 \<le> ?B" by (simp add: horizon_inv_def)
    with ta have b: "?t1 \<le> ?B" by simp
    show ?thesis unfolding s' by (rule horizon_inv_advance [OF hor1 gt b])
  next
    case next_time
    let ?nt = "findNextTime p ?s1"
    from next_time have s': "s' = ?s1\<lparr>st_currentTime := ?nt\<rparr>" by simp
    from findNextTime_gt [OF next_time(5)] have gt: "st_currentTime ?s1 < ?nt" .
    from findNextTime_mem [OF next_time(5)] consider
      (team) st where "st \<in> set (map snd (st_teamStates ?s1))" "ts_availableAt st = ?nt"
      | (court) c where "c \<in> set (st_courtStates ?s1)" "cs_availableAt c = ?nt"
      | (floor) "lp_floor p = Some ?nt"
      by blast
    then have b: "?nt \<le> ?B"
    proof cases
      case team
      then obtain x where "x \<in> set (st_teamStates ?s1)" "snd x = st" by auto
      with hor1 team(2) show ?thesis by (auto simp: horizon_inv_def)
    next
      case court
      with hor1 show ?thesis by (auto simp: horizon_inv_def)
    next
      case floor
      with hor1 have "?nt \<le> st_currentTime ?s1" by (simp add: horizon_inv_def)
      with gt show ?thesis by simp
    qed
    from gt have le: "st_currentTime ?s1 \<le> ?nt" by simp
    show ?thesis unfolding s' by (rule horizon_inv_advance [OF hor1 le b])
  next
    case deadlock
    then show ?thesis by simp
  next
    case finished
    then show ?thesis by simp
  qed
qed

lemma iteration_no_Throw:
  assumes full: "core_inv lk p s" and hor: "horizon_inv H D p s" and D: "0 \<le> D"
    and H: "H < MAX_DATE"
  shows "iteration ck p s \<noteq> Throw e"
proof
  assume it: "iteration ck p s = Throw e"
  let ?s1 = "processEvents ck p (st_events s) s"
  from core_inv_processEvents [OF full, where ck = ck] have full1: "core_inv lk p ?s1" by simp
  from horizon_inv_processEvents [OF hor] have hor1: "horizon_inv H D p ?s1" .
  from it show False
  proof (cases rule: iteration_cases)
    case deadlock
    from no_deadlock [OF full1 hor1 D H deadlock(3,4,2)] deadlock(5) show False by simp
  qed simp_all
qed

text \<open>Below the horizon the main loop ends, and ends normally.\<close>

lemma mainLoop_returns:
  assumes "core_inv lk p s" and "horizon_inv H D p s" and D: "0 \<le> D"
    and lkD: "\<And>k m. lk k = Some m \<Longrightarrow> duration m \<le> D"
    and H: "H < MAX_DATE"
  shows "\<exists>s'. mainLoop ck p s = Some (Inr s')"
  using assms(1,2)
proof (induction s rule: wf_induct_rule [OF wf_loop_rel [of p]])
  case (1 s)
  show ?case
  proof (cases "st_queue s \<noteq> [] \<or> st_events s \<noteq> []")
    case False
    then show ?thesis by (subst mainLoop.simps) simp
  next
    case True
    show ?thesis
    proof (cases "iteration ck p s")
      case (Continue s')
      from core_inv_iteration [OF "1.prems"(1) Continue]
      have f': "core_inv lk p s'" and r: "(s', s) \<in> loop_rel p" by simp_all
      have h': "horizon_inv H D p s'"
        using "1.prems" D lkD Continue by (rule horizon_iteration)
      from "1.IH" [OF r f' h'] obtain s'' where "mainLoop ck p s' = Some (Inr s'')" by blast
      with True Continue show ?thesis by (subst mainLoop.simps) simp
    next
      case (Break s')
      with True show ?thesis by (subst mainLoop.simps) simp
    next
      case (Throw e)
      with iteration_no_Throw [OF "1.prems" D H, of ck e] show ?thesis by simp
    qed
  qed
qed


lemma length_fold_update:
  "length (fold (\<lambda>m. AList.update (m_id m) (initialTask m)) matches mm)
     \<le> length mm + length matches"
proof (induction matches arbitrary: mm)
  case Nil
  show ?case by simp
next
  case (Cons a matches)
  have "length (AList.update (m_id a) (initialTask a) mm) \<le> Suc (length mm)"
    by (induction mm) auto
  with Cons.IH [of "AList.update (m_id a) (initialTask a) mm"] show ?case by simp
qed

lemma length_buildGraph: "length (fst (buildGraph matches)) \<le> length matches"
  using length_fold_update [of matches "[]"] by (simp add: fst_buildGraph)

lemma horizon_inv_init:
  assumes "courts \<noteq> []"
  shows "horizon_inv (horizon start matches config) (max_duration matches)
           (scheduleParams start matches config) (scheduleInit ck start matches courts)"
proof -
  let ?p = "scheduleParams start matches config"
  let ?s = "scheduleInit ck start matches courts"
  let ?sl = "slot_ms (max_duration matches) ?p"
  have H: "horizon start matches config = start + int (length matches) * ?sl"
    by (simp add: horizon_def slot_ms_def turnaround_def scheduleParams_def)
  have "0 \<le> turnaround ?p" by (simp add: turnaround_def)
  with max_duration_nonneg [of matches] have sl: "0 \<le> ?sl" by (simp add: slot_ms_def)
  have "m_unplaced ?s \<le> length matches"
    using length_buildGraph [of matches] by (simp add: m_unplaced_def scheduleInit_def Let_def)
  then have "int (m_unplaced ?s) * ?sl \<le> int (length matches) * ?sl"
    using sl by (intro mult_right_mono) simp_all
  then have b: "start \<le> horizon start matches config - int (m_unplaced ?s) * ?sl"
    unfolding H by simp
  have f: "st_teamStates ?s = []" "st_events ?s = []" "st_currentTime ?s = start"
    "st_courtStates ?s = map (\<lambda>court. \<lparr>cs_courtId = court_id court,
             cs_availableAt = start, cs_currentMatch = None\<rparr>) courts"
    by (simp_all add: scheduleInit_def Let_def)
  have g: "lp_initialTime ?p = start" "lp_floor ?p = None"
    by (simp_all add: scheduleParams_def)
  from b assms show ?thesis
    unfolding horizon_inv_def f g by auto
qed

text \<open>
  On distinct identities and dates below the horizon, \<open>scheduleMatches\<close> ends with a
  result or with the error of the final count.
\<close>

lemma scheduleMatches_loop_returns:
  assumes d: "distinct (map m_id matches)" and c: "courts \<noteq> []"
    and H: "horizon start matches config < MAX_DATE"
  shows "\<exists>s. mainLoop ck (scheduleParams start matches config)
                (scheduleInit ck start matches courts) = Some (Inr s) \<and>
              full_inv (registered matches) (scheduleParams start matches config) s \<and>
              length (st_schedule s) \<le> length matches"
proof -
  let ?p = "scheduleParams start matches config"
  let ?s0 = "scheduleInit ck start matches courts"
  have full: "full_inv (registered matches) ?p ?s0" by (rule full_inv_init [OF d])
  have hor: "horizon_inv (horizon start matches config) (max_duration matches) ?p ?s0"
    by (rule horizon_inv_init [OF c])
  have lkD: "\<And>k m. registered matches k = Some m \<Longrightarrow> duration m \<le> max_duration matches"
    by (auto dest!: registered_id intro: max_duration_ge)
  have "\<exists>s. mainLoop ck ?p ?s0 = Some (Inr s)"
    by (rule mainLoop_returns [where ck = ck, OF core_of_full [OF full] hor max_duration_nonneg _ H])
       (rule lkD)
  then obtain s where run: "mainLoop ck ?p ?s0 = Some (Inr s)" by blast
  from full_inv_final [OF run full] have fin: "full_inv (registered matches) ?p s" .
  then have dP: "distinct (map sm_matchId (st_schedule s))"
    by (simp add: full_inv_def once_inv_def)
  have sub: "set (map sm_matchId (st_schedule s)) \<subseteq> set (map m_id matches)"
  proof
    fix k assume "k \<in> set (map sm_matchId (st_schedule s))"
    with fin obtain t where "map_of (st_matchMap s) k = Some t"
      unfolding full_inv_def once_inv_def by blast
    with fin have "registered matches k = Some (task_match t)"
      by (simp add: full_inv_def sched_inv_def reg_inv_def)
    from registered_id [OF this] show "k \<in> set (map m_id matches)" by auto
  qed
  have "length (st_schedule s) = card (set (map sm_matchId (st_schedule s)))"
    using dP by (metis distinct_card length_map)
  also have "\<dots> \<le> card (set (map m_id matches))"
    using sub by (intro card_mono) simp_all
  also have "\<dots> \<le> length matches"
    by (metis card_length length_map)
  finally have "length (st_schedule s) \<le> length matches" .
  with run fin show ?thesis by blast
qed

section \<open>One entry per match, or the error of the final count\<close>

lemma run_dup_dangling:
  "scheduleMatches codeunit_key 0 dup_dangling_matches three_courts norest_config
     = Some (Inr dup_dangling_result)"
  by code_simp

lemma run_dangling:
  "scheduleMatches codeunit_key 1700000000000 dangling_matches one_court norest_clock_config
     = Some (Inl (FailedToScheduleAll 0 1))"
  by code_simp

text \<open>
  Claim C1 as stated fails on an input in which two matches share an identity. The match
  \<open>M4\<close> declares the dependency \<open>M9\<close>, which no match of the input has as its
  identity, and is never placed; the match \<open>M1\<close> is placed three times (the second
  \<open>M1\<close> overwrites the first in \<open>matchMap\<close> and is enqueued again when each of
  the dependencies \<open>M2\<close> and \<open>M3\<close> of the first ends). The count of placed
  entries equals the count of input matches, so the final check passes and the schedule is
  returned without an entry for \<open>M4\<close>.
\<close>

theorem C1_duplicate_counterexample:
  "scheduleMatches codeunit_key 0 dup_dangling_matches three_courts norest_config
     = Some (Inr dup_dangling_result) \<and>
   dangling dup_dangling_matches \<and>
   IdStr ''M4'' \<in> set (map m_id dup_dangling_matches) \<and>
   IdStr ''M4'' \<notin> set (map sm_matchId (schedule dup_dangling_result)) \<and>
   \<not> distinct (map sm_matchId (schedule dup_dangling_result))"
proof -
  have "dangling dup_dangling_matches" by code_simp
  moreover have "IdStr ''M4'' \<in> set (map m_id dup_dangling_matches)" by code_simp
  moreover have "IdStr ''M4'' \<notin> set (map sm_matchId (schedule dup_dangling_result))"
    by code_simp
  moreover have "\<not> distinct (map sm_matchId (schedule dup_dangling_result))" by code_simp
  ultimately show ?thesis using run_dup_dangling by simp
qed

text \<open>
  Claim C1, amended. Let the identities of the input matches be pairwise distinct.
  \<^item> If \<open>scheduleMatches\<close> returns, its schedule has as many entries as there are
    input matches, no two entries for the same match, and an entry for every input match.
  \<^item> If some match declares a dependency identity that no input match has, it does not
    return a schedule.
  \<^item> If moreover there is at least one match and one court and the dates of the run are
    in the range of valid dates (the start time plus, for each match, the longest duration
    and the larger of rest time and court setup time, is before the maximal date), then
    the loop ends without the deadlock error, and \<open>scheduleMatches\<close> either returns
    or raises the error of the final count, with fewer placed matches than input matches.
\<close>

theorem C1_all_or_error:
  assumes d: "distinct (map m_id matches)"
  shows "(\<forall>r. scheduleMatches ck now matches courts config = Some (Inr r) \<longrightarrow>
            length (schedule r) = length matches \<and>
            distinct (map sm_matchId (schedule r)) \<and>
            set (map sm_matchId (schedule r)) = set (map m_id matches)) \<and>
         (dangling matches \<longrightarrow>
            (\<forall>r. scheduleMatches ck now matches courts config \<noteq> Some (Inr r))) \<and>
         (matches \<noteq> [] \<and> courts \<noteq> [] \<and>
          horizon (case startTime config of Some t \<Rightarrow> t | None \<Rightarrow> now) matches config
            < MAX_DATE \<longrightarrow>
            (\<exists>r. scheduleMatches ck now matches courts config = Some (Inr r)) \<or>
            (\<exists>n < length matches. scheduleMatches ck now matches courts config
               = Some (Inl (FailedToScheduleAll n (length matches)))))"
proof (intro conjI allI impI)
  fix r
  assume ret: "scheduleMatches ck now matches courts config = Some (Inr r)"
  from ret obtain s :: sched_state where "schedule r = sort_key sm_startTime (st_schedule s)"
    "length (st_schedule s) = length matches"
    by (rule scheduleMatches_InrE) blast
  then show "length (schedule r) = length matches" by simp
  from scheduleMatches_distinct_final(1,2) [OF ret d]
  show "distinct (map sm_matchId (schedule r))"
    "set (map sm_matchId (schedule r)) = set (map m_id matches)" by simp_all
next
  fix r
  assume "dangling matches"
  then show "scheduleMatches ck now matches courts config \<noteq> Some (Inr r)"
    by (rule scheduleMatches_dangling_no_result [OF d])
next
  let ?start = "case startTime config of Some t \<Rightarrow> t | None \<Rightarrow> now"
  assume "matches \<noteq> [] \<and> courts \<noteq> [] \<and> horizon ?start matches config < MAX_DATE"
  then have m: "matches \<noteq> []" and c: "courts \<noteq> []"
    and H: "horizon ?start matches config < MAX_DATE" by simp_all
  from scheduleMatches_loop_returns [OF d c H, of ck] obtain s where
    run: "mainLoop ck (scheduleParams ?start matches config)
            (scheduleInit ck ?start matches courts) = Some (Inr s)" and
    le: "length (st_schedule s) \<le> length matches" by blast
  show "(\<exists>r. scheduleMatches ck now matches courts config = Some (Inr r)) \<or>
        (\<exists>n < length matches. scheduleMatches ck now matches courts config
           = Some (Inl (FailedToScheduleAll n (length matches))))"
  proof (cases "length (st_schedule s) = length matches")
    case True
    with m c run show ?thesis by (simp add: scheduleMatches_def Let_def)
  next
    case False
    with le have "length (st_schedule s) < length matches" by simp
    moreover from False m c run
    have "scheduleMatches ck now matches courts config
            = Some (Inl (FailedToScheduleAll (length (st_schedule s)) (length matches)))"
      by (simp add: scheduleMatches_def Let_def)
    ultimately show ?thesis by blast
  qed
qed

theorem C1_all_or_error_witness:
  "distinct (map m_id sample_matches) \<and>
   scheduleMatches codeunit_key 7 sample_matches sample_courts sample_config
     = Some (Inr sample_result) \<and>
   length (schedule sample_result) = length sample_matches \<and>
   set (map sm_matchId (schedule sample_result)) = set (map m_id sample_matches) \<and>
   distinct (map m_id dangling_matches) \<and> dangling dangling_matches \<and>
   horizon 1700000000000 dangling_matches norest_clock_config < MAX_DATE \<and>
   scheduleMatches codeunit_key 1700000000000 dangling_matches one_court norest_clock_config
     = Some (Inl (FailedToScheduleAll 0 (length dangling_matches)))"
proof -
  have d1: "distinct (map m_id sample_matches)" by code_simp
  have d2: "distinct (map m_id dangling_matches)" by code_simp
  have dg: "dangling dangling_matches" by code_simp
  have H: "horizon 1700000000000 dangling_matches norest_clock_config < MAX_DATE" by code_simp
  have st: "startTime norest_clock_config = None" by (simp add: norest_clock_config_def)
  have ne: "dangling_matches \<noteq> []" "one_court \<noteq> []"
    by (simp_all add: dangling_matches_def one_court_def)
  have len: "length dangling_matches = 1" by (simp add: dangling_matches_def)
  note a = C1_all_or_error [OF d1, of codeunit_key 7 sample_courts sample_config]
  note b = C1_all_or_error [OF d2, of codeunit_key 1700000000000 one_court norest_clock_config]
  from a run_sample have 1: "length (schedule sample_result) = length sample_matches"
    "set (map sm_matchId (schedule sample_result)) = set (map m_id sample_matches)"
    by blast+
  from b dg H st ne have "\<exists>n < length dangling_matches.
      scheduleMatches codeunit_key 1700000000000 dangling_matches one_court norest_clock_config
        = Some (Inl (FailedToScheduleAll n (length dangling_matches)))"
    by auto
  then have 2: "scheduleMatches codeunit_key 1700000000000 dangling_matches one_court
      norest_clock_config = Some (Inl (FailedToScheduleAll 0 (length dangling_matches)))"
    by (simp add: len)
  from d1 run_sample 1 d2 dg H 2 show ?thesis by blast
qed

section \<open>The validator reports every violation\<close>


lemma map_of_new_Map_fold:
  "map_of (fold (\<lambda>(k, v). AList.update k v) (map (\<lambda>x. (f x, x)) xs) al) k =
     (case find (\<lambda>x. f x = k) (rev xs) of Some x \<Rightarrow> Some x | None \<Rightarrow> map_of al k)"
proof (induction xs arbitrary: al)
  case Nil
  show ?case by simp
next
  case (Cons x xs)
  show ?case
    by (simp add: Cons.IH find_append update_conv' split: option.splits)
qed

lemma map_of_new_Map:
  "map_of (new_Map (map (\<lambda>x. (f x, x)) xs)) k = find (\<lambda>x. f x = k) (rev xs)"
  by (simp add: new_Map_def map_of_new_Map_fold split: option.splits)

lemma map_of_matchMap:
  "map_of (new_Map (map (\<lambda>m. (m_id m, m)) matches)) = registered matches"
  by (rule ext) (simp add: map_of_new_Map registered_def)

lemma map_of_scheduleMap:
  "map_of (new_Map (map (\<lambda>s. (sm_matchId s, s)) sched)) = entry_of sched"
  by (rule ext) (simp add: map_of_new_Map entry_of_def)


text \<open>Check 1: the occupancy lists and the errors after a part of the schedule.\<close>

lemma occupancy_at_checkTeam:
  "occupancy_at (fst (checkTeam e t acc)) T =
     occupancy_at (fst acc) T @ (if t = T then [occ_of e] else [])"
  by (simp add: checkTeam_def Let_def occupancy_at_def update_conv' occ_of_def)

lemma snd_checkTeam:
  "snd (checkTeam e t acc) =
     snd acc @ map (\<lambda>other. PlaysSimultaneously t (sm_matchId e) (oc_matchId other))
                   (filter (overlapping e) (occupancy_at (fst acc) t))"
  by (simp add: checkTeam_def Let_def occupancy_at_def)

lemma occupancy_at_fold_checkTeam:
  "occupancy_at (fst (fold (checkTeam e) ids acc)) T =
     occupancy_at (fst acc) T @ map (\<lambda>t. occ_of e) (filter (\<lambda>t. t = T) ids)"
  by (induction ids arbitrary: acc) (simp_all add: occupancy_at_checkTeam)

lemma snd_fold_checkTeam_mono:
  "set (snd acc) \<subseteq> set (snd (fold (checkTeam e) ids acc))"
proof (induction ids arbitrary: acc)
  case Nil
  show ?case by simp
next
  case (Cons t ids)
  have "set (snd acc) \<subseteq> set (snd (checkTeam e t acc))" by (simp add: snd_checkTeam)
  with Cons.IH [of "checkTeam e t acc"] show ?case by auto
qed

lemma fold_checkTeam_reports:
  assumes "other \<in> set (occupancy_at (fst acc) T)" "T \<in> set ids" "overlapping e other"
  shows "PlaysSimultaneously T (sm_matchId e) (oc_matchId other)
           \<in> set (snd (fold (checkTeam e) ids acc))"
  using assms(1,2)
proof (induction ids arbitrary: acc)
  case Nil
  then show ?case by simp
next
  case (Cons t ids)
  show ?case
  proof (cases "t = T")
    case True
    with Cons.prems(1) assms(3)
    have "PlaysSimultaneously T (sm_matchId e) (oc_matchId other) \<in> set (snd (checkTeam e t acc))"
      by (simp add: snd_checkTeam)
    with snd_fold_checkTeam_mono [of "checkTeam e t acc" e ids] show ?thesis by auto
  next
    case False
    with Cons.prems have "other \<in> set (occupancy_at (fst (checkTeam e t acc)) T)" "T \<in> set ids"
      by (simp_all add: occupancy_at_checkTeam)
    from Cons.IH [OF this] show ?thesis by simp
  qed
qed

lemma occupancy_at_checkScheduled:
  "occupancy_at (fst (checkScheduled mm e acc)) T =
     occupancy_at (fst acc) T @
       map occ_of (map (\<lambda>t. e) (filter (\<lambda>t. t = T) (teams_of (map_of mm) e)))"
  by (simp add: checkScheduled_def teams_of_def occupancy_at_fold_checkTeam comp_def
        split: option.splits)

lemma snd_checkScheduled_mono:
  "set (snd acc) \<subseteq> set (snd (checkScheduled mm e acc))"
  using snd_fold_checkTeam_mono by (simp add: checkScheduled_def split: option.splits)

lemma checkScheduled_reports:
  assumes "other \<in> set (occupancy_at (fst acc) T)" "T \<in> set (teams_of (map_of mm) e)"
    "overlapping e other"
  shows "PlaysSimultaneously T (sm_matchId e) (oc_matchId other)
           \<in> set (snd (checkScheduled mm e acc))"
proof (cases "map_of mm (sm_matchId e)")
  case None
  with assms(2) show ?thesis by (simp add: teams_of_def)
next
  case (Some m)
  with assms(2) have "T \<in> set (getTeamIds m)" by (simp add: teams_of_def)
  from fold_checkTeam_reports [OF assms(1) this assms(3)] Some show ?thesis
    by (simp add: checkScheduled_def)
qed

lemma occupancy_at_fold_checkScheduled:
  "occupancy_at (fst (fold (checkScheduled mm) sched acc)) T =
     occupancy_at (fst acc) T @ map occ_of (team_slots (map_of mm) T sched)"
  by (induction sched arbitrary: acc) (simp_all add: occupancy_at_checkScheduled team_slots_def)

lemma snd_fold_checkScheduled_mono:
  "set (snd acc) \<subseteq> set (snd (fold (checkScheduled mm) sched acc))"
proof (induction sched arbitrary: acc)
  case Nil
  show ?case by simp
next
  case (Cons e sched)
  from snd_checkScheduled_mono [of acc mm e] Cons.IH [of "checkScheduled mm e acc"]
  show ?case by auto
qed

lemma mem_team_slots:
  "e \<in> set sched \<Longrightarrow> T \<in> set (teams_of lk e) \<Longrightarrow> e \<in> set (team_slots lk T sched)"
  by (auto simp: team_slots_def)

lemma fold_checkScheduled_reports:
  assumes ij: "i < j" "j < length sched"
    and T: "T \<in> set (teams_of (map_of mm) (sched ! i))" "T \<in> set (teams_of (map_of mm) (sched ! j))"
    and ov: "overlapping (sched ! j) (occ_of (sched ! i))"
  shows "PlaysSimultaneously T (sm_matchId (sched ! j)) (sm_matchId (sched ! i))
           \<in> set (snd (fold (checkScheduled mm) sched acc))"
proof -
  let ?pre = "take j sched"
  let ?acc = "fold (checkScheduled mm) ?pre acc"
  from ij(2) have split: "sched = ?pre @ sched ! j # drop (Suc j) sched"
    by (rule id_take_nth_drop)
  from ij have "?pre ! i = sched ! i" "i < length ?pre" by simp_all
  then have "sched ! i \<in> set ?pre" by (metis nth_mem)
  from mem_team_slots [OF this T(1)]
  have "sched ! i \<in> set (team_slots (map_of mm) T ?pre)" .
  then have "occ_of (sched ! i) \<in> set (occupancy_at (fst ?acc) T)"
    by (simp add: occupancy_at_fold_checkScheduled)
  from checkScheduled_reports [OF this T(2) ov]
  have "PlaysSimultaneously T (sm_matchId (sched ! j)) (sm_matchId (sched ! i))
          \<in> set (snd (checkScheduled mm (sched ! j) ?acc))"
    by (simp add: occ_of_def)
  with snd_fold_checkScheduled_mono [of "checkScheduled mm (sched ! j) ?acc" mm "drop (Suc j) sched"]
  have "PlaysSimultaneously T (sm_matchId (sched ! j)) (sm_matchId (sched ! i))
          \<in> set (snd (fold (checkScheduled mm) (drop (Suc j) sched)
                (checkScheduled mm (sched ! j) ?acc)))"
    by auto
  moreover have "fold (checkScheduled mm) sched acc =
      fold (checkScheduled mm) (drop (Suc j) sched) (checkScheduled mm (sched ! j) ?acc)"
  proof -
    have "fold (checkScheduled mm) (?pre @ sched ! j # drop (Suc j) sched) acc =
      fold (checkScheduled mm) (drop (Suc j) sched) (checkScheduled mm (sched ! j) ?acc)"
      by simp
    then show ?thesis unfolding split [symmetric] .
  qed
  ultimately show ?thesis by simp
qed

lemma intervals_overlap_overlapping:
  "intervals_overlap a b \<Longrightarrow> overlapping b (occ_of a)"
  by (auto simp: intervals_overlap_def overlapping_def occ_of_def)


text \<open>Check 2.\<close>

lemma restErrors_reports:
  assumes "Suc k < length xs"
    and "oc_start (xs ! Suc k) - oc_end (xs ! k) < rest * 60000"
  shows "InsufficientRest T (oc_matchId (xs ! k)) (oc_matchId (xs ! Suc k))
           (oc_start (xs ! Suc k) - oc_end (xs ! k)) rest \<in> set (restErrors rest T xs)"
  using assms
proof (induction rest T xs arbitrary: k rule: restErrors.induct)
  case (1 rest teamId prv cur sorted')
  show ?case
  proof (cases k)
    case 0
    with "1.prems"(2) have "real_of_int (oc_start cur - oc_end prv) / 60000 < real_of_int rest"
      by (simp add: divide_less_eq)
    with 0 show ?thesis by simp
  next
    case (Suc k')
    with "1.prems" have "Suc k' < length (cur # sorted')"
      "oc_start ((cur # sorted') ! Suc k') - oc_end ((cur # sorted') ! k') < rest * 60000"
      by simp_all
    from "1.IH" [OF this] Suc show ?thesis by simp
  qed
qed simp_all

lemma insort_key_map:
  "insort_key f (g x) (map g xs) = map g (insort_key (\<lambda>x. f (g x)) x xs)"
  by (induction xs) simp_all

lemma sort_key_map:
  "sort_key f (map g xs) = map g (sort_key (\<lambda>x. f (g x)) xs)"
  by (induction xs) (simp_all add: insort_key_map)

lemma sort_key_occ_of:
  "sort_key oc_start (map occ_of xs) = map occ_of (sort_key sm_startTime xs)"
  by (simp add: sort_key_map occ_of_def)

lemma occupancy_at_mem:
  "occupancy_at al T \<noteq> [] \<Longrightarrow> (T, occupancy_at al T) \<in> set al"
  by (auto simp: occupancy_at_def split: option.splits dest: map_of_SomeD)

text \<open>Check 3.\<close>

lemma checkMatch_reports:
  assumes "map_of sm (m_id m) = Some e" "d \<in> set (deps_of m)"
  shows "map_of sm d = None \<Longrightarrow> DependencyNotScheduled (m_id m) d \<in> set (checkMatch sm m)"
    and "map_of sm d = Some e' \<Longrightarrow> sm_startTime e < sm_endTime e' \<Longrightarrow>
           StartsBeforeDependency (m_id m) d (sm_startTime e) (sm_endTime e')
             \<in> set (checkMatch sm m)"
  using assms by (auto simp: checkMatch_def checkDependency_def intro!: bexI [of _ d])

text \<open>The three parts of the report.\<close>

lemma errors_validateSchedule:
  "errors (validateSchedule sched matches config) =
     snd (fold (checkScheduled (new_Map (map (\<lambda>m. (m_id m, m)) matches))) sched ([], [])) @
     concat (map (\<lambda>(teamId, occ). restErrors (restTime config) teamId (sort_key oc_start occ))
       (fst (fold (checkScheduled (new_Map (map (\<lambda>m. (m_id m, m)) matches))) sched ([], [])))) @
     concat (map (checkMatch (new_Map (map (\<lambda>s. (sm_matchId s, s)) sched))) matches)"
  by (simp add: validateSchedule_def Let_def)

lemma validateSchedule_overlap:
  assumes "i < j" "j < length sched"
    and "T \<in> set (teams_of (registered matches) (sched ! i))"
    and "T \<in> set (teams_of (registered matches) (sched ! j))"
    and "intervals_overlap (sched ! i) (sched ! j)"
  shows "PlaysSimultaneously T (sm_matchId (sched ! j)) (sm_matchId (sched ! i))
           \<in> set (errors (validateSchedule sched matches config))"
proof -
  let ?mm = "new_Map (map (\<lambda>m. (m_id m, m)) matches)"
  from assms(3,4) have T: "T \<in> set (teams_of (map_of ?mm) (sched ! i))"
    "T \<in> set (teams_of (map_of ?mm) (sched ! j))"
    by (simp_all add: map_of_matchMap)
  from fold_checkScheduled_reports [OF assms(1,2) T intervals_overlap_overlapping [OF assms(5)]]
  show ?thesis by (simp add: errors_validateSchedule)
qed

lemma validateSchedule_rest:
  assumes k: "Suc k < length (sort_key sm_startTime (team_slots (registered matches) T sched))"
    and gap: "\<not> gap_ok (restTime config)
        (sort_key sm_startTime (team_slots (registered matches) T sched) ! k)
        (sort_key sm_startTime (team_slots (registered matches) T sched) ! Suc k)"
  shows "InsufficientRest T
           (sm_matchId (sort_key sm_startTime (team_slots (registered matches) T sched) ! k))
           (sm_matchId (sort_key sm_startTime (team_slots (registered matches) T sched) ! Suc k))
           (sm_startTime (sort_key sm_startTime (team_slots (registered matches) T sched) ! Suc k) -
            sm_endTime (sort_key sm_startTime (team_slots (registered matches) T sched) ! k))
           (restTime config)
           \<in> set (errors (validateSchedule sched matches config))"
proof -
  let ?mm = "new_Map (map (\<lambda>m. (m_id m, m)) matches)"
  let ?acc = "fold (checkScheduled ?mm) sched ([], [])"
  let ?S = "sort_key sm_startTime (team_slots (registered matches) T sched)"
  let ?xs = "sort_key oc_start (occupancy_at (fst ?acc) T)"
  have "occupancy_at [] T = []" by (simp add: occupancy_at_def)
  then have occ: "occupancy_at (fst ?acc) T = map occ_of (team_slots (registered matches) T sched)"
    by (simp add: occupancy_at_fold_checkScheduled map_of_matchMap)
  then have xs: "?xs = map occ_of ?S" by (simp add: sort_key_occ_of)
  from k have k': "Suc k < length ?xs" "k < length ?S" "Suc k < length ?S" by (simp_all add: xs)
  have nth: "?xs ! k = occ_of (?S ! k)" "?xs ! Suc k = occ_of (?S ! Suc k)"
    using k' by (simp_all add: xs)
  from gap have "oc_start (?xs ! Suc k) - oc_end (?xs ! k) < restTime config * 60000"
    unfolding nth by (simp add: gap_ok_def occ_of_def)
  from restErrors_reports [OF k'(1) this, of T]
  have r: "InsufficientRest T (sm_matchId (?S ! k)) (sm_matchId (?S ! Suc k))
          (sm_startTime (?S ! Suc k) - sm_endTime (?S ! k)) (restTime config)
          \<in> set (restErrors (restTime config) T ?xs)"
    unfolding nth by (simp add: occ_of_def)
  from k have "team_slots (registered matches) T sched \<noteq> []" by auto
  then have "occupancy_at (fst ?acc) T \<noteq> []" by (simp add: occ)
  from occupancy_at_mem [OF this] have "(T, occupancy_at (fst ?acc) T) \<in> set (fst ?acc)" .
  with r have "InsufficientRest T (sm_matchId (?S ! k)) (sm_matchId (?S ! Suc k))
          (sm_startTime (?S ! Suc k) - sm_endTime (?S ! k)) (restTime config)
          \<in> set (concat (map (\<lambda>(teamId, occ).
                restErrors (restTime config) teamId (sort_key oc_start occ)) (fst ?acc)))"
    by force
  then show ?thesis by (simp add: errors_validateSchedule)
qed

lemma validateSchedule_dependency:
  assumes "m \<in> set matches" "entry_of sched (m_id m) = Some e" "d \<in> set (deps_of m)"
  shows "entry_of sched d = None \<Longrightarrow>
           DependencyNotScheduled (m_id m) d \<in> set (errors (validateSchedule sched matches config))"
    and "entry_of sched d = Some e' \<Longrightarrow> sm_startTime e < sm_endTime e' \<Longrightarrow>
           StartsBeforeDependency (m_id m) d (sm_startTime e) (sm_endTime e')
             \<in> set (errors (validateSchedule sched matches config))"
proof -
  let ?sm = "new_Map (map (\<lambda>s. (sm_matchId s, s)) sched)"
  from assms(2) have e: "map_of ?sm (m_id m) = Some e" by (simp add: map_of_scheduleMap)
  {
    assume "entry_of sched d = None"
    then have "map_of ?sm d = None" by (simp add: map_of_scheduleMap)
    from checkMatch_reports(1) [OF e assms(3) this] assms(1)
    show "DependencyNotScheduled (m_id m) d \<in> set (errors (validateSchedule sched matches config))"
      by (auto simp: errors_validateSchedule)
  }
  {
    assume "entry_of sched d = Some e'" and lt: "sm_startTime e < sm_endTime e'"
    then have "map_of ?sm d = Some e'" by (simp add: map_of_scheduleMap)
    from checkMatch_reports(2) [OF e assms(3) this lt] assms(1)
    show "StartsBeforeDependency (m_id m) d (sm_startTime e) (sm_endTime e')
             \<in> set (errors (validateSchedule sched matches config))"
      by (auto simp: errors_validateSchedule)
  }
qed

section \<open>The start-ordered entries of a team and its occupancy list\<close>

lemma insort_key_front:
  assumes "\<forall>y \<in> set L. f a \<le> f y"
  shows "insort_key f a L = a # L"
  using assms by (cases L) simp_all

lemma insort_key_funpow_front:
  assumes "\<forall>y \<in> set L. f a \<le> f y"
  shows "(insort_key f a ^^ n) L = replicate n a @ L"
proof (induction n)
  case 0
  show ?case by simp
next
  case (Suc n)
  have "insort_key f a (replicate n a @ L) = a # replicate n a @ L"
    by (rule insort_key_front) (use assms in auto)
  with Suc show ?case by simp
qed

lemma insort_key_skip:
  assumes "\<forall>y \<in> set P. f y < f a"
  shows "insort_key f a (P @ M) = P @ insort_key f a M"
  using assms by (induction P) auto

lemma insort_key_funpow_skip:
  assumes "\<forall>y \<in> set P. f y < f a"
  shows "(insort_key f a ^^ n) (P @ M) = P @ (insort_key f a ^^ n) M"
proof (induction n)
  case 0
  show ?case by simp
next
  case (Suc n)
  then show ?case by (simp add: insort_key_skip [OF assms])
qed

lemma sort_key_replicate_append:
  "sort_key f (replicate n a @ ys) = (insort_key f a ^^ n) (sort_key f ys)"
  by (induction n) (simp_all add: sort_key_simps)

lemma insort_blocks:
  assumes "sorted (map f zs)"
  shows "(insort_key f a ^^ c a) (concat (map (\<lambda>e. replicate (c e) e) zs)) =
         concat (map (\<lambda>e. replicate (c e) e) (insort_key f a zs))"
  using assms
proof (induction zs)
  case Nil
  have "(insort_key f a ^^ c a) [] = replicate (c a) a @ []"
    by (rule insort_key_funpow_front) simp
  then show ?case by simp
next
  case (Cons z zs)
  from Cons.prems have le: "\<forall>y \<in> set zs. f z \<le> f y" and so: "sorted (map f zs)" by auto
  let ?B = "concat (map (\<lambda>e. replicate (c e) e) zs)"
  show ?case
  proof (cases "f a \<le> f z")
    case True
    have "\<forall>y \<in> set (replicate (c z) z @ ?B). f a \<le> f y"
      using True le by (auto intro: order_trans)
    from insort_key_funpow_front [OF this, of "c a"] True show ?thesis by simp
  next
    case False
    then have "\<forall>y \<in> set (replicate (c z) z). f y < f a" by auto
    from insort_key_funpow_skip [OF this, of "c a" ?B] Cons.IH [OF so] False
    show ?thesis by simp
  qed
qed

lemma sort_key_blocks:
  "sort_key f (concat (map (\<lambda>e. replicate (c e) e) xs)) =
     concat (map (\<lambda>e. replicate (c e) e) (sort_key f xs))"
proof (induction xs)
  case Nil
  show ?case by simp
next
  case (Cons a xs)
  have "sort_key f (concat (map (\<lambda>e. replicate (c e) e) (a # xs))) =
      (insort_key f a ^^ c a) (sort_key f (concat (map (\<lambda>e. replicate (c e) e) xs)))"
    by (simp add: sort_key_replicate_append)
  also have "\<dots> = (insort_key f a ^^ c a) (concat (map (\<lambda>e. replicate (c e) e) (sort_key f xs)))"
    by (simp add: Cons.IH)
  also have "\<dots> = concat (map (\<lambda>e. replicate (c e) e) (insort_key f a (sort_key f xs)))"
    by (rule insort_blocks) simp
  finally show ?case by (simp add: sort_key_simps)
qed

lemma concat_blocks_filter:
  "concat (map (\<lambda>e. replicate (c e) e) xs) =
     concat (map (\<lambda>e. replicate (c e) e) (filter (\<lambda>e. 0 < c e) xs))"
  by (induction xs) auto

text \<open>Neighbours in a list are neighbours in the list of their non-empty blocks.\<close>

lemma blocks_neighbours:
  assumes "\<forall>e \<in> set S. 0 < c e" and "Suc k < length S"
  shows "\<exists>k'. Suc k' < length (concat (map (\<lambda>e. replicate (c e) e) S)) \<and>
           concat (map (\<lambda>e. replicate (c e) e) S) ! k' = S ! k \<and>
           concat (map (\<lambda>e. replicate (c e) e) S) ! Suc k' = S ! Suc k"
  using assms
proof (induction S arbitrary: k)
  case Nil
  then show ?case by simp
next
  case (Cons a S)
  let ?B = "concat (map (\<lambda>e. replicate (c e) e) S)"
  from Cons.prems have ca: "0 < c a" and pos: "\<forall>e \<in> set S. 0 < c e" by simp_all
  show ?case
  proof (cases k)
    case 0
    with Cons.prems obtain b S' where S: "S = b # S'" by (cases S) auto
    with pos have cb: "0 < c b" by simp
    let ?k' = "c a - 1"
    have 1: "(replicate (c a) a @ ?B) ! ?k' = a" using ca by (simp add: nth_append)
    have 2: "(replicate (c a) a @ ?B) ! Suc ?k' = b"
      using ca cb by (simp add: nth_append S)
    have 3: "Suc ?k' < length (replicate (c a) a @ ?B)" using ca cb by (simp add: S)
    from 1 2 3 0 S show ?thesis by (intro exI [of _ ?k']) simp
  next
    case (Suc k0)
    with Cons.prems have "Suc k0 < length S" by simp
    from Cons.IH [OF pos this] obtain k1 where
      k1: "Suc k1 < length ?B" "?B ! k1 = S ! k0" "?B ! Suc k1 = S ! Suc k0" by blast
    let ?k' = "c a + k1"
    have "(replicate (c a) a @ ?B) ! ?k' = ?B ! k1" by (simp add: nth_append)
    moreover have "(replicate (c a) a @ ?B) ! Suc ?k' = ?B ! Suc k1" by (simp add: nth_append)
    moreover have "Suc ?k' < length (replicate (c a) a @ ?B)" using k1(1) by simp
    ultimately show ?thesis using k1 Suc by (intro exI [of _ ?k']) simp
  qed
qed

lemma team_slots_blocks:
  "team_slots lk T sched =
     concat (map (\<lambda>e. replicate (length (filter (\<lambda>t. t = T) (teams_of lk e))) e) sched)"
  by (simp add: team_slots_def map_replicate_const)

lemma team_entries_blocks:
  "team_entries lk T sched =
     filter (\<lambda>e. 0 < length (filter (\<lambda>t. t = T) (teams_of lk e))) sched"
  unfolding team_entries_def
  by (rule filter_cong) (auto simp: filter_empty_conv)

lemma sorted_slots_neighbours:
  assumes "Suc k < length (sort_key sm_startTime (team_entries lk T sched))"
  shows "\<exists>k'. Suc k' < length (sort_key sm_startTime (team_slots lk T sched)) \<and>
           sort_key sm_startTime (team_slots lk T sched) ! k'
             = sort_key sm_startTime (team_entries lk T sched) ! k \<and>
           sort_key sm_startTime (team_slots lk T sched) ! Suc k'
             = sort_key sm_startTime (team_entries lk T sched) ! Suc k"
proof -
  let ?c = "\<lambda>e. length (filter (\<lambda>t. t = T) (teams_of lk e))"
  let ?S = "sort_key sm_startTime (team_entries lk T sched)"
  have S: "?S = filter (\<lambda>e. 0 < ?c e) (sort_key sm_startTime sched)"
    by (simp add: team_entries_blocks filter_sort)
  have "sort_key sm_startTime (team_slots lk T sched)
      = concat (map (\<lambda>e. replicate (?c e) e) (sort_key sm_startTime sched))"
    unfolding team_slots_blocks by (rule sort_key_blocks)
  also have "\<dots> = concat (map (\<lambda>e. replicate (?c e) e) ?S)"
    unfolding S by (rule concat_blocks_filter)
  finally have X: "sort_key sm_startTime (team_slots lk T sched)
      = concat (map (\<lambda>e. replicate (?c e) e) ?S)" .
  have pos: "\<forall>e \<in> set ?S. 0 < ?c e" unfolding S by simp
  from blocks_neighbours [OF pos assms] show ?thesis unfolding X .
qed

lemma validateSchedule_rest_entries:
  assumes k: "Suc k < length (sort_key sm_startTime (team_entries (registered matches) T sched))"
    and gap: "\<not> gap_ok (restTime config)
        (sort_key sm_startTime (team_entries (registered matches) T sched) ! k)
        (sort_key sm_startTime (team_entries (registered matches) T sched) ! Suc k)"
  shows "InsufficientRest T
           (sm_matchId (sort_key sm_startTime (team_entries (registered matches) T sched) ! k))
           (sm_matchId (sort_key sm_startTime (team_entries (registered matches) T sched) ! Suc k))
           (sm_startTime (sort_key sm_startTime (team_entries (registered matches) T sched) ! Suc k) -
            sm_endTime (sort_key sm_startTime (team_entries (registered matches) T sched) ! k))
           (restTime config)
           \<in> set (errors (validateSchedule sched matches config))"
proof -
  from sorted_slots_neighbours [OF k] obtain k' where
    k': "Suc k' < length (sort_key sm_startTime (team_slots (registered matches) T sched))" and
    a: "sort_key sm_startTime (team_slots (registered matches) T sched) ! k'
             = sort_key sm_startTime (team_entries (registered matches) T sched) ! k" and
    b: "sort_key sm_startTime (team_slots (registered matches) T sched) ! Suc k'
             = sort_key sm_startTime (team_entries (registered matches) T sched) ! Suc k"
    by blast
  from gap have "\<not> gap_ok (restTime config)
        (sort_key sm_startTime (team_slots (registered matches) T sched) ! k')
        (sort_key sm_startTime (team_slots (registered matches) T sched) ! Suc k')"
    by (simp add: a b)
  from validateSchedule_rest [OF k' this] show ?thesis by (simp add: a b)
qed

lemma entry_of_distinct:
  assumes "distinct (map sm_matchId sched)" "e \<in> set sched"
  shows "entry_of sched (sm_matchId e) = Some e"
proof -
  from assms(2) have "e \<in> set (rev sched)" by simp
  then obtain z where z: "entry_of sched (sm_matchId e) = Some z"
    unfolding entry_of_def
    by (cases "find (\<lambda>x. sm_matchId x = sm_matchId e) (rev sched)") (auto simp: find_None_iff)
  from find_SomeD [OF z [unfolded entry_of_def]] have "sm_matchId z = sm_matchId e" "z \<in> set sched"
    by auto
  with assms have "z = e" by (meson distinct_map inj_onD)
  with z show ?thesis by simp
qed

lemma entry_of_None: "entry_of sched d = None \<longleftrightarrow> d \<notin> set (map sm_matchId sched)"
  by (auto simp: entry_of_def find_None_iff)

section \<open>The report of the validator\<close>

lemma team_slots_distinct:
  assumes "\<And>e. distinct (teams_of lk e)"
  shows "team_slots lk T sched = team_entries lk T sched"
proof -
  have "map (\<lambda>t. e) (filter (\<lambda>t. t = T) ids) = (if T \<in> set ids then [e] else [])"
    if "distinct ids" for e :: ScheduledMatch and ids
    using that by (induction ids) auto
  with assms have "map (\<lambda>t. e) (filter (\<lambda>t. t = T) (teams_of lk e))
      = (if T \<in> set (teams_of lk e) then [e] else [])" for e
    by simp
  then show ?thesis
    unfolding team_slots_def team_entries_def by (induction sched) simp_all
qed

lemma run_validate_bad:
  "validateSchedule bad_schedule sample_matches sample_config
     = \<lparr>valid = False, errors = bad_errors\<rparr>"
  by code_simp

lemma run_validate_sample:
  "validateSchedule sample_schedule sample_matches sample_config
     = \<lparr>valid = True, errors = []\<rparr>"
  by code_simp

lemma run_validate_only_m1:
  "validateSchedule only_m1 sample_matches sample_config = \<lparr>valid = True, errors = []\<rparr>"
  by code_simp

lemma run_validate_zero:
  "validateSchedule (schedule zero_result) zero_matches sample_config
     = \<lparr>valid = True, errors = []\<rparr>"
  by code_simp

lemma run_validate_shared_id:
  "validateSchedule shared_id_schedule shared_id_matches sample_config
     = \<lparr>valid = True, errors = []\<rparr>"
  by code_simp

lemma run_validate_twice:
  "validateSchedule twice_schedule sample_matches sample_config
     = \<lparr>valid = True, errors = []\<rparr>"
  by code_simp

text \<open>
  Claim C8 as stated fails: \<open>validateSchedule\<close> reports no error on four schedules that
  break a rule the claim lists.
  \<^item> Only \<open>M1\<close> is scheduled. \<open>M3\<close> declares the dependencies \<open>M1\<close> and \<open>M2\<close>,
    and \<open>M2\<close> has no entry; but check 3 skips a match that has no entry itself
    (\<open>if (!scheduled) continue\<close>).
  \<^item> The two matches of the bare team \<open>0\<close> are played at the same time; but
    \<open>getTeamIds\<close> drops the bare \<open>0\<close>, so checks 1 and 2 never see the team.
  \<^item> Two input matches have the identity \<open>M1\<close>. The entry \<open>M1\<close> and the entry
    \<open>M5\<close> overlap and \<open>A\<close> is a team of both by the first \<open>M1\<close>; but the
    validator's \<open>matchMap\<close> keeps the second \<open>M1\<close> only.
  \<^item> \<open>M3\<close> has two entries, the first starting before the end of its dependency
    \<open>M1\<close>; but the validator's \<open>scheduleMap\<close> keeps the last entry only.
\<close>

theorem C8_silent_counterexample:
  "validateSchedule only_m1 sample_matches sample_config = \<lparr>valid = True, errors = []\<rparr> \<and>
   deps_of (sample_matches ! 2) = [IdStr ''M1'', IdStr ''M2''] \<and>
   IdStr ''M2'' \<notin> set (map sm_matchId only_m1) \<and>
   validateSchedule (schedule zero_result) zero_matches sample_config
     = \<lparr>valid = True, errors = []\<rparr> \<and>
   plays zero_matches (IdNum 0) (schedule zero_result ! 0) \<and>
   plays zero_matches (IdNum 0) (schedule zero_result ! 1) \<and>
   intervals_overlap (schedule zero_result ! 0) (schedule zero_result ! 1) \<and>
   validateSchedule shared_id_schedule shared_id_matches sample_config
     = \<lparr>valid = True, errors = []\<rparr> \<and>
   plays shared_id_matches (IdStr ''A'') (shared_id_schedule ! 0) \<and>
   plays shared_id_matches (IdStr ''A'') (shared_id_schedule ! 1) \<and>
   intervals_overlap (shared_id_schedule ! 0) (shared_id_schedule ! 1) \<and>
   validateSchedule twice_schedule sample_matches sample_config
     = \<lparr>valid = True, errors = []\<rparr> \<and>
   sm_matchId (twice_schedule ! 0) = IdStr ''M3'' \<and>
   sm_matchId (twice_schedule ! 1) = IdStr ''M1'' \<and>
   sm_startTime (twice_schedule ! 0) < sm_endTime (twice_schedule ! 1)"
proof -
  have "deps_of (sample_matches ! 2) = [IdStr ''M1'', IdStr ''M2'']" by code_simp
  moreover have "IdStr ''M2'' \<notin> set (map sm_matchId only_m1)" by code_simp
  moreover have "plays zero_matches (IdNum 0) (schedule zero_result ! 0)" by code_simp
  moreover have "plays zero_matches (IdNum 0) (schedule zero_result ! 1)" by code_simp
  moreover have "intervals_overlap (schedule zero_result ! 0) (schedule zero_result ! 1)"
    by code_simp
  moreover have "plays shared_id_matches (IdStr ''A'') (shared_id_schedule ! 0)" by code_simp
  moreover have "plays shared_id_matches (IdStr ''A'') (shared_id_schedule ! 1)" by code_simp
  moreover have "intervals_overlap (shared_id_schedule ! 0) (shared_id_schedule ! 1)"
    by code_simp
  moreover have "sm_matchId (twice_schedule ! 0) = IdStr ''M3''" by code_simp
  moreover have "sm_matchId (twice_schedule ! 1) = IdStr ''M1''" by code_simp
  moreover have "sm_startTime (twice_schedule ! 0) < sm_endTime (twice_schedule ! 1)"
    by code_simp
  ultimately show ?thesis
    using run_validate_only_m1 run_validate_zero run_validate_shared_id run_validate_twice
    by blast
qed

text \<open>
  Claim C8, amended. \<open>validateSchedule\<close> has no \<open>throw\<close>; on valid dates it is a total
  function to a report, in which \<open>valid\<close> is true exactly when \<open>errors\<close> is empty.
  The errors are accumulated over all checks, not cut at the first failure:
  \<^item> when the identities of the input matches are pairwise distinct, then for every team
    identity that no match gives as the bare \<open>0\<close> or \<open>''\<close>, \<open>errors\<close> has the
    overlap message for every two entries of matches of the team whose intervals overlap,
    and the rest message for every two neighbours in the start-ordered sequence of the
    entries of the team whose gap is below \<open>restTime\<close>;
  \<^item> when the match identities of the schedule entries are pairwise distinct, then for
    every input match that has an entry and every dependency it declares, \<open>errors\<close>
    has the message that the dependency is not scheduled if it has no entry, and the
    message that the match starts before the dependency ends if it does.
\<close>

theorem C8_validate_reports_all:
  "(valid (validateSchedule sched matches config) \<longleftrightarrow>
      errors (validateSchedule sched matches config) = []) \<and>
   (distinct (map m_id matches) \<longrightarrow>
    (\<forall>i j T. i < j \<longrightarrow> j < length sched \<longrightarrow> \<not> untracked matches T \<longrightarrow>
       plays matches T (sched ! i) \<longrightarrow> plays matches T (sched ! j) \<longrightarrow>
       intervals_overlap (sched ! i) (sched ! j) \<longrightarrow>
       PlaysSimultaneously T (sm_matchId (sched ! j)) (sm_matchId (sched ! i))
         \<in> set (errors (validateSchedule sched matches config))) \<and>
    (\<forall>T k. \<not> untracked matches T \<longrightarrow> Suc k < length (team_sequence matches T sched) \<longrightarrow>
       \<not> gap_ok (restTime config)
           (team_sequence matches T sched ! k) (team_sequence matches T sched ! Suc k) \<longrightarrow>
       InsufficientRest T
           (sm_matchId (team_sequence matches T sched ! k))
           (sm_matchId (team_sequence matches T sched ! Suc k))
           (sm_startTime (team_sequence matches T sched ! Suc k) -
            sm_endTime (team_sequence matches T sched ! k))
           (restTime config)
         \<in> set (errors (validateSchedule sched matches config)))) \<and>
   (distinct (map sm_matchId sched) \<longrightarrow>
    (\<forall>m e d. m \<in> set matches \<longrightarrow> e \<in> set sched \<longrightarrow> sm_matchId e = m_id m \<longrightarrow>
       d \<in> set (deps_of m) \<longrightarrow>
       (d \<notin> set (map sm_matchId sched) \<longrightarrow>
          DependencyNotScheduled (m_id m) d
            \<in> set (errors (validateSchedule sched matches config))) \<and>
       (\<forall>e' \<in> set sched. sm_matchId e' = d \<longrightarrow> sm_startTime e < sm_endTime e' \<longrightarrow>
          StartsBeforeDependency (m_id m) d (sm_startTime e) (sm_endTime e')
            \<in> set (errors (validateSchedule sched matches config)))))"
proof (intro conjI allI impI ballI)
  show "valid (validateSchedule sched matches config) \<longleftrightarrow>
      errors (validateSchedule sched matches config) = []"
    by (simp add: validateSchedule_def Let_def)
next
  fix i j T
  assume dm: "distinct (map m_id matches)" and ij: "i < j" "j < length sched"
    and t: "\<not> untracked matches T"
    and p: "plays matches T (sched ! i)" "plays matches T (sched ! j)"
    and ov: "intervals_overlap (sched ! i) (sched ! j)"
  from p have "T \<in> set (teams_of (registered matches) (sched ! i))"
    "T \<in> set (teams_of (registered matches) (sched ! j))"
    by (simp_all add: plays_teams_of [OF dm t])
  with ij show "PlaysSimultaneously T (sm_matchId (sched ! j)) (sm_matchId (sched ! i))
        \<in> set (errors (validateSchedule sched matches config))"
    using ov by (intro validateSchedule_overlap)
next
  fix T k
  assume dm: "distinct (map m_id matches)" and t: "\<not> untracked matches T"
    and k: "Suc k < length (team_sequence matches T sched)"
    and g: "\<not> gap_ok (restTime config)
          (team_sequence matches T sched ! k) (team_sequence matches T sched ! Suc k)"
  have eq: "team_sequence matches T sched
      = sort_key sm_startTime (team_entries (registered matches) T sched)"
    by (simp add: team_sequence_def team_schedule_entries [OF dm t])
  from k g show "InsufficientRest T
          (sm_matchId (team_sequence matches T sched ! k))
          (sm_matchId (team_sequence matches T sched ! Suc k))
          (sm_startTime (team_sequence matches T sched ! Suc k) -
           sm_endTime (team_sequence matches T sched ! k))
          (restTime config)
        \<in> set (errors (validateSchedule sched matches config))"
    unfolding eq by (rule validateSchedule_rest_entries)
next
  fix m e d
  assume ds: "distinct (map sm_matchId sched)" and m: "m \<in> set matches"
    and e: "e \<in> set sched" "sm_matchId e = m_id m" and d: "d \<in> set (deps_of m)"
    and n: "d \<notin> set (map sm_matchId sched)"
  from entry_of_distinct [OF ds e(1)] e(2) have "entry_of sched (m_id m) = Some e" by simp
  moreover from n have "entry_of sched d = None" by (simp add: entry_of_None)
  ultimately show "DependencyNotScheduled (m_id m) d
           \<in> set (errors (validateSchedule sched matches config))"
    using m d by (intro validateSchedule_dependency(1))
next
  fix m e d e'
  assume ds: "distinct (map sm_matchId sched)" and m: "m \<in> set matches"
    and e: "e \<in> set sched" "sm_matchId e = m_id m" and d: "d \<in> set (deps_of m)"
    and e': "e' \<in> set sched" "sm_matchId e' = d" and lt: "sm_startTime e < sm_endTime e'"
  from entry_of_distinct [OF ds e(1)] e(2) have 1: "entry_of sched (m_id m) = Some e" by simp
  from entry_of_distinct [OF ds e'(1)] e'(2) have 2: "entry_of sched d = Some e'" by simp
  from validateSchedule_dependency(2) [OF m 1 d 2 lt]
  show "StartsBeforeDependency (m_id m) d (sm_startTime e) (sm_endTime e')
           \<in> set (errors (validateSchedule sched matches config))" .
qed

theorem C8_validate_reports_all_witness:
  "validateSchedule bad_schedule sample_matches sample_config
     = \<lparr>valid = False, errors = bad_errors\<rparr> \<and>
   distinct (map m_id sample_matches) \<and> distinct (map sm_matchId bad_schedule) \<and>
   \<not> untracked sample_matches (IdStr ''A'') \<and>
   intervals_overlap (bad_schedule ! 0) (bad_schedule ! 1) \<and>
   PlaysSimultaneously (IdStr ''A'') (IdStr ''M3'') (IdStr ''M1'')
     \<in> set (errors (validateSchedule bad_schedule sample_matches sample_config)) \<and>
   team_sequence sample_matches (IdStr ''A'') bad_schedule = bad_schedule \<and>
   InsufficientRest (IdStr ''A'') (IdStr ''M1'') (IdStr ''M3'') (- 1200000) 15
     \<in> set (errors (validateSchedule bad_schedule sample_matches sample_config)) \<and>
   IdStr ''M2'' \<notin> set (map sm_matchId bad_schedule) \<and>
   DependencyNotScheduled (IdStr ''M3'') (IdStr ''M2'')
     \<in> set (errors (validateSchedule bad_schedule sample_matches sample_config)) \<and>
   StartsBeforeDependency (IdStr ''M3'') (IdStr ''M1'') 600000 1800000
     \<in> set (errors (validateSchedule bad_schedule sample_matches sample_config)) \<and>
   validateSchedule sample_schedule sample_matches sample_config
     = \<lparr>valid = True, errors = []\<rparr>"
proof -
  note all = C8_validate_reports_all [of bad_schedule sample_matches sample_config]
  let ?errs = "errors (validateSchedule bad_schedule sample_matches sample_config)"
  let ?A = "IdStr ''A''"
  let ?m3 = "sample_matches ! 2"
  have dm: "distinct (map m_id sample_matches)" by code_simp
  have ds: "distinct (map sm_matchId bad_schedule)" by code_simp
  have t: "\<not> untracked sample_matches ?A" by code_simp
  have len: "(0::nat) < 1" "1 < length bad_schedule" by (simp_all add: bad_schedule_def)
  have t0: "plays sample_matches ?A (bad_schedule ! 0)" by code_simp
  have t1: "plays sample_matches ?A (bad_schedule ! 1)" by code_simp
  have ov: "intervals_overlap (bad_schedule ! 0) (bad_schedule ! 1)" by code_simp
  have ids: "sm_matchId (bad_schedule ! 0) = IdStr ''M1''" "sm_matchId (bad_schedule ! 1) = IdStr ''M3''"
    "sm_startTime (bad_schedule ! 1) = 600000" "sm_endTime (bad_schedule ! 1) = 2400000"
    "sm_startTime (bad_schedule ! 0) = 0" "sm_endTime (bad_schedule ! 0) = 1800000"
    by (simp_all add: bad_schedule_def)
  from all dm len t t0 t1 ov
  have "PlaysSimultaneously ?A (sm_matchId (bad_schedule ! 1)) (sm_matchId (bad_schedule ! 0))
          \<in> set ?errs"
    by blast
  then have 1: "PlaysSimultaneously ?A (IdStr ''M3'') (IdStr ''M1'') \<in> set ?errs"
    by (simp only: ids)
  have seq: "team_sequence sample_matches ?A bad_schedule = bad_schedule" by code_simp
  have k: "Suc 0 < length (team_sequence sample_matches ?A bad_schedule)"
    unfolding seq by (simp add: bad_schedule_def)
  have gap: "\<not> gap_ok (restTime sample_config)
      (team_sequence sample_matches ?A bad_schedule ! 0)
      (team_sequence sample_matches ?A bad_schedule ! Suc 0)"
    unfolding seq by (simp add: gap_ok_def sample_config_def bad_schedule_def)
  from all dm t k gap
  have "InsufficientRest ?A
          (sm_matchId (team_sequence sample_matches ?A bad_schedule ! 0))
          (sm_matchId (team_sequence sample_matches ?A bad_schedule ! Suc 0))
          (sm_startTime (team_sequence sample_matches ?A bad_schedule ! Suc 0) -
           sm_endTime (team_sequence sample_matches ?A bad_schedule ! 0))
          (restTime sample_config) \<in> set ?errs"
    by blast
  then have 2: "InsufficientRest ?A (IdStr ''M1'') (IdStr ''M3'') (- 1200000) 15 \<in> set ?errs"
    unfolding seq by (simp add: bad_schedule_def sample_config_def)
  have m: "?m3 \<in> set sample_matches" by (simp add: sample_matches_def)
  have m3: "m_id ?m3 = IdStr ''M3''" "deps_of ?m3 = [IdStr ''M1'', IdStr ''M2'']" by code_simp+
  have e3: "bad_schedule ! 1 \<in> set bad_schedule" "sm_matchId (bad_schedule ! 1) = m_id ?m3"
    by (simp_all add: bad_schedule_def m3)
  have e1: "bad_schedule ! 0 \<in> set bad_schedule" by (simp add: bad_schedule_def)
  have n2: "IdStr ''M2'' \<notin> set (map sm_matchId bad_schedule)" by code_simp
  have d2: "IdStr ''M2'' \<in> set (deps_of ?m3)" and d1: "IdStr ''M1'' \<in> set (deps_of ?m3)"
    by (simp_all add: m3)
  from all ds m e3 d2 n2 have "DependencyNotScheduled (m_id ?m3) (IdStr ''M2'') \<in> set ?errs"
    by blast
  then have 3: "DependencyNotScheduled (IdStr ''M3'') (IdStr ''M2'') \<in> set ?errs"
    by (simp only: m3)
  have lt: "sm_startTime (bad_schedule ! 1) < sm_endTime (bad_schedule ! 0)"
    by (simp only: ids)
  from all ds m e3 d1 e1 ids(1) lt
  have "StartsBeforeDependency (m_id ?m3) (IdStr ''M1'')
          (sm_startTime (bad_schedule ! 1)) (sm_endTime (bad_schedule ! 0)) \<in> set ?errs"
    by blast
  then have 4: "StartsBeforeDependency (IdStr ''M3'') (IdStr ''M1'') 600000 1800000 \<in> set ?errs"
    by (simp only: m3 ids)
  from run_validate_bad dm ds t ov 1 seq 2 n2 3 4 run_validate_sample show ?thesis by blast
qed

section \<open>The loop does not read the schedule\<close>

lemma rebase_fields [simp]:
  "st_schedule (rebase xs s) = xs @ st_schedule s"
  "st_teamStates (rebase xs s) = st_teamStates s"
  "st_courtStates (rebase xs s) = st_courtStates s"
  "st_matchMap (rebase xs s) = st_matchMap s"
  "st_queue (rebase xs s) = st_queue s"
  "st_events (rebase xs s) = st_events s"
  "st_currentTime (rebase xs s) = st_currentTime s"
  by (simp_all add: rebase_def)

lemma rebase_handleEvent:
  "handleEvent ck p ev (rebase xs s) = rebase xs (handleEvent ck p ev s)"
  by (simp add: handleEvent_def Let_def rebase_def)

lemma rebase_events:
  "(rebase xs s)\<lparr>st_events := evs\<rparr> = rebase xs (s\<lparr>st_events := evs\<rparr>)"
  by (simp add: rebase_def)

lemma rebase_processEvents:
  "processEvents ck p evs (rebase xs s) = rebase xs (processEvents ck p evs s)"
proof (induction evs arbitrary: s)
  case Nil
  show ?case by (simp add: rebase_events)
next
  case (Cons ev evs)
  show ?case
    by (simp add: rebase_events rebase_handleEvent Cons.IH)
qed

lemma rebase_tryTask:
  "tryTask p (rebase xs s) task = map_option (rebase xs) (tryTask p s task)"
  by (simp add: tryTask_def Let_def rebase_def split: option.splits)

lemma rebase_placementPass:
  "placementPass p (rebase xs s) q = map_option (rebase xs) (placementPass p s q)"
  by (induction q) (simp_all add: rebase_tryTask split: option.splits)

lemma rebase_findNextTime: "findNextTime p (rebase xs s) = findNextTime p s"
  by (simp add: findNextTime_def)

lemma rebase_time:
  "(rebase xs s)\<lparr>st_currentTime := t\<rparr> = rebase xs (s\<lparr>st_currentTime := t\<rparr>)"
  by (simp add: rebase_def)

lemma rebase_iteration:
  "iteration ck p (rebase xs s) = rebase_outcome xs (iteration ck p s)"
  by (simp add: iteration_def Let_def rebase_processEvents rebase_placementPass
        rebase_findNextTime rebase_time split: option.splits)

lemma rebase_mainLoop:
  assumes "mainLoop ck p (rebase xs t) = Some (Inr s')"
  shows "\<exists>t'. mainLoop ck p t = Some (Inr t') \<and> s' = rebase xs t'"
proof -
  define P where "P = (\<lambda>ck' p' s (y :: error + sched_state).
      \<forall>t s'. ck' = ck \<and> p' = p \<and> s = rebase xs t \<and> y = Inr s' \<longrightarrow>
        (\<exists>t'. mainLoop ck p t = Some (Inr t') \<and> s' = rebase xs t'))"
  have "P ck p (rebase xs t) (Inr s')"
  proof (rule mainLoop.raw_induct [OF _ assms])
    fix loop :: "(ident \<Rightarrow> 'a) \<Rightarrow> loop_params \<Rightarrow> sched_state \<Rightarrow> (error + sched_state) option"
      and ck' p' s y
    assume IH: "\<And>ck p s y. loop ck p s = Some y \<Longrightarrow> P ck p s y"
      and body: "(if st_queue s \<noteq> [] \<or> st_events s \<noteq> []
        then case iteration ck' p' s of Continue s' \<Rightarrow> loop ck' p' s'
           | Break s' \<Rightarrow> Some (Inr s') | Throw e \<Rightarrow> Some (Inl e)
        else Some (Inr s)) = Some y"
    show "P ck' p' s y"
      unfolding P_def
    proof (intro allI impI, elim conjE)
      fix t s'
      assume eq: "ck' = ck" "p' = p" and s: "s = rebase xs t" and y: "y = Inr s'"
      show "\<exists>t'. mainLoop ck p t = Some (Inr t') \<and> s' = rebase xs t'"
      proof (cases "st_queue t \<noteq> [] \<or> st_events t \<noteq> []")
        case False
        with body y s have "s' = rebase xs t" by simp
        moreover from False have "mainLoop ck p t = Some (Inr t)"
          by (subst mainLoop.simps) simp
        ultimately show ?thesis by blast
      next
        case True
        then have True': "st_queue s \<noteq> [] \<or> st_events s \<noteq> []" by (simp add: s)
        have it: "iteration ck p s = rebase_outcome xs (iteration ck p t)"
          unfolding s by (rule rebase_iteration)
        show ?thesis
        proof (cases "iteration ck p t")
          case (Continue t1)
          with it have "iteration ck p s = Continue (rebase xs t1)" by simp
          with True' body eq have "loop ck p (rebase xs t1) = Some y" by simp
          from IH [OF this] y obtain t' where
            "mainLoop ck p t1 = Some (Inr t')" "s' = rebase xs t'"
            unfolding P_def by blast
          moreover from True Continue have "mainLoop ck p t = mainLoop ck p t1"
            by (subst mainLoop.simps) simp
          ultimately show ?thesis by simp
        next
          case (Break t1)
          with it have "iteration ck p s = Break (rebase xs t1)" by simp
          with True' body eq y have "s' = rebase xs t1" by simp
          moreover from True Break have "mainLoop ck p t = Some (Inr t1)"
            by (subst mainLoop.simps) simp
          ultimately show ?thesis by blast
        next
          case (Throw e)
          with it have "iteration ck p s = Throw e" by simp
          with True' body eq y show ?thesis by simp
        qed
      qed
    qed
  qed
  then show ?thesis by (simp add: P_def)
qed


section \<open>The initial state of rescheduleMatches\<close>

lemma rescheduleInit_rebase:
  "rescheduleInit ck matches courts config =
     rebase (map (completedEntry matches) (completedMatches config))
       (rescheduleInit0 ck matches courts config)"
  by (simp add: rescheduleInit0_def rebase_def rescheduleInit_def Let_def)

lemma seedTask_step:
  "seedTask ck C (k, t) acc =
     (if list_all (\<lambda>depId. depId \<in> set C) (remainingDependencies t)
      then (AList.update k (t\<lparr>remainingDependencies := []\<rparr>) (fst acc),
            enqueue ck (t\<lparr>remainingDependencies := []\<rparr>) (snd acc))
      else acc)"
  by (simp add: seedTask_def Let_def)

lemma seed_map_of:
  assumes "distinct (map fst todo)"
  shows "map_of (fst (fold (seedTask ck C) todo acc)) k =
     (case map_of todo k of
        Some t \<Rightarrow>
          if list_all (\<lambda>depId. depId \<in> set C) (remainingDependencies t)
          then Some (t\<lparr>remainingDependencies := []\<rparr>) else map_of (fst acc) k
      | None \<Rightarrow> map_of (fst acc) k)"
  using assms
proof (induction todo arbitrary: acc)
  case Nil
  show ?case by simp
next
  case (Cons a todo)
  obtain k0 t0 where a: "a = (k0, t0)" by (cases a)
  from Cons.prems a have d: "distinct (map fst todo)" and n: "map_of todo k0 = None"
    by (auto simp: map_of_eq_None_iff)
  let ?acc1 = "seedTask ck C (k0, t0) acc"
  have 1: "map_of (fst ?acc1) k =
      (if k = k0 \<and> list_all (\<lambda>depId. depId \<in> set C) (remainingDependencies t0)
       then Some (t0\<lparr>remainingDependencies := []\<rparr>) else map_of (fst acc) k)"
    by (simp add: seedTask_step update_conv')
  have "map_of (fst (fold (seedTask ck C) todo ?acc1)) k =
     (case map_of todo k of
        Some t \<Rightarrow>
          if list_all (\<lambda>depId. depId \<in> set C) (remainingDependencies t)
          then Some (t\<lparr>remainingDependencies := []\<rparr>) else map_of (fst ?acc1) k
      | None \<Rightarrow> map_of (fst ?acc1) k)"
    by (rule Cons.IH [OF d])
  then show ?case
    unfolding a fold_simps 1 using n by (auto split: option.splits)
qed

lemma seed_distinct_keys:
  "distinct (map fst (fst acc)) \<Longrightarrow> distinct (map fst (fst (fold (seedTask ck C) todo acc)))"
proof (induction todo arbitrary: acc)
  case Nil
  then show ?case by simp
next
  case (Cons a todo)
  obtain k0 t0 where a: "a = (k0, t0)" by (cases a)
  have "distinct (map fst (fst (seedTask ck C a acc)))"
    unfolding a seedTask_step using Cons.prems by (simp add: distinct_update)
  from Cons.IH [OF this] show ?case by simp
qed

lemma seed_queue:
  "t' \<in> set (snd (fold (seedTask ck C) todo acc)) \<longleftrightarrow>
     t' \<in> set (snd acc) \<or>
     (\<exists>k t. (k, t) \<in> set todo \<and> list_all (\<lambda>depId. depId \<in> set C) (remainingDependencies t) \<and>
        t' = t\<lparr>remainingDependencies := []\<rparr>)"
proof (induction todo arbitrary: acc)
  case Nil
  show ?case by simp
next
  case (Cons a todo)
  obtain k0 t0 where a: "a = (k0, t0)" by (cases a)
  let ?acc1 = "seedTask ck C (k0, t0) acc"
  have 1: "t' \<in> set (snd ?acc1) \<longleftrightarrow> t' \<in> set (snd acc) \<or>
      (list_all (\<lambda>depId. depId \<in> set C) (remainingDependencies t0) \<and>
       t' = t0\<lparr>remainingDependencies := []\<rparr>)"
    by (auto simp: seedTask_step)
  have "t' \<in> set (snd (fold (seedTask ck C) todo ?acc1)) \<longleftrightarrow>
     t' \<in> set (snd ?acc1) \<or>
     (\<exists>k t. (k, t) \<in> set todo \<and> list_all (\<lambda>depId. depId \<in> set C) (remainingDependencies t) \<and>
        t' = t\<lparr>remainingDependencies := []\<rparr>)"
    by (rule Cons.IH)
  then show ?case
    unfolding a fold_simps 1 by auto
qed

lemma seed_distinct_qids:
  assumes "distinct (map fst todo)" "\<forall>(k, t) \<in> set todo. m_id (task_match t) = k"
    "distinct (qids (snd acc))" "set (qids (snd acc)) \<inter> fst ` set todo = {}"
  shows "distinct (qids (snd (fold (seedTask ck C) todo acc)))"
  using assms
proof (induction todo arbitrary: acc)
  case Nil
  then show ?case by simp
next
  case (Cons a todo)
  obtain k t where a: "a = (k, t)" by (cases a)
  from Cons.prems a have id: "m_id (task_match t) = k" by simp
  let ?acc1 = "seedTask ck C (k, t) acc"
  have 1: "distinct (qids (snd ?acc1))"
    unfolding seedTask_step using Cons.prems id a by auto
  have 2: "set (qids (snd ?acc1)) \<inter> fst ` set todo = {}"
    unfolding seedTask_step using Cons.prems id a by auto
  have "distinct (map fst todo)" "\<forall>(k, t) \<in> set todo. m_id (task_match t) = k"
    using Cons.prems by auto
  from Cons.IH [OF this 1 2] show ?case by (simp add: a)
qed


text \<open>The seeded \<open>matchMap\<close> and queue, from the graph of the pending matches.\<close>

lemma rescheduleInit0_fields:
  "st_schedule (rescheduleInit0 ck matches courts config) = []"
  "st_events (rescheduleInit0 ck matches courts config) = []"
  "st_matchMap (rescheduleInit0 ck matches courts config) =
     fst (fold (seedTask ck (completedMatchIds config))
            (fst (buildGraph (pendingMatches matches config)))
            (fst (buildGraph (pendingMatches matches config)), []))"
  "st_queue (rescheduleInit0 ck matches courts config) =
     snd (fold (seedTask ck (completedMatchIds config))
            (fst (buildGraph (pendingMatches matches config)))
            (fst (buildGraph (pendingMatches matches config)), []))"
  by (simp_all add: rescheduleInit0_def rescheduleInit_def Let_def)

lemma seeded_map_of:
  "map_of (fst (fold (seedTask ck C) (fst (buildGraph ms)) (fst (buildGraph ms), []))) k =
     (case registered ms k of
        None \<Rightarrow> None
      | Some m \<Rightarrow>
          if list_all (\<lambda>depId. depId \<in> set C) (remainingDependencies (initialTask m))
          then Some ((initialTask m)\<lparr>remainingDependencies := []\<rparr>)
          else Some (initialTask m))"
  by (simp add: seed_map_of [OF distinct_buildGraph] map_of_buildGraph split: option.splits)

lemma buildGraph_mem:
  "(k, t) \<in> set (fst (buildGraph ms)) \<longleftrightarrow> (\<exists>m. registered ms k = Some m \<and> t = initialTask m)"
proof -
  have "(k, t) \<in> set (fst (buildGraph ms)) \<longleftrightarrow> map_of (fst (buildGraph ms)) k = Some t"
    using distinct_buildGraph [of ms] by simp
  also have "\<dots> \<longleftrightarrow> (\<exists>m. registered ms k = Some m \<and> t = initialTask m)"
    unfolding map_of_buildGraph by (cases "registered ms k") auto
  finally show ?thesis .
qed

lemma seeded_queue:
  "t' \<in> set (snd (fold (seedTask ck C) (fst (buildGraph ms)) (fst (buildGraph ms), []))) \<longleftrightarrow>
     (\<exists>k m. registered ms k = Some m \<and>
        list_all (\<lambda>depId. depId \<in> set C) (remainingDependencies (initialTask m)) \<and>
        t' = (initialTask m)\<lparr>remainingDependencies := []\<rparr>)"
  unfolding seed_queue buildGraph_mem by auto

lemma reg_inv_reschedule:
  "reg_inv (registered (pendingMatches matches config)) (rescheduleInit0 ck matches courts config)"
proof -
  let ?ms = "pendingMatches matches config"
  have 1: "registered ?ms k = Some (task_match t) \<and> m_id (task_match t) = k"
    if "map_of (st_matchMap (rescheduleInit0 ck matches courts config)) k = Some t" for k t
  proof -
    from that obtain m where m: "registered ?ms k = Some m" "task_match t = m"
      unfolding rescheduleInit0_fields seeded_map_of
      by (auto simp: initialTask_def split: option.splits if_splits)
    with registered_id [OF m(1)] show ?thesis by simp
  qed
  have 2: "registered ?ms (m_id (task_match t)) = Some (task_match t)"
    if "t \<in> set (st_queue (rescheduleInit0 ck matches courts config))" for t
  proof -
    from that obtain k m where m: "registered ?ms k = Some m" "task_match t = m"
      unfolding rescheduleInit0_fields seeded_queue
      by (auto simp: initialTask_def)
    with registered_id [OF m(1)] show ?thesis by simp
  qed
  from 1 2 show ?thesis unfolding reg_inv_def by blast
qed

lemma once_inv_reschedule:
  assumes d: "distinct (map m_id (pendingMatches matches config))"
  shows "once_inv (snd (buildGraph (pendingMatches matches config)))
           (rescheduleInit0 ck matches courts config)"
proof -
  let ?ms = "pendingMatches matches config"
  let ?C = "completedMatchIds config"
  let ?G = "fst (buildGraph ?ms)"
  let ?seeded = "fold (seedTask ck ?C) ?G (?G, [])"
  let ?mm = "fst ?seeded"
  let ?q = "snd ?seeded"
  let ?allC = "\<lambda>m. list_all (\<lambda>depId. depId \<in> set ?C) (remainingDependencies (initialTask m))"
  have ids: "\<forall>(k, t) \<in> set ?G. m_id (task_match t) = k"
    using buildGraph_entries by blast
  have dq: "distinct (qids ?q)"
    by (rule seed_distinct_qids [OF distinct_buildGraph ids]) (simp_all add: qids_def)
  have sq: "k \<in> set (qids ?q) \<longleftrightarrow> (\<exists>m. registered ?ms k = Some m \<and> ?allC m)" for k
  proof
    assume "k \<in> set (qids ?q)"
    then obtain t' where "t' \<in> set ?q" "m_id (task_match t') = k" by (auto simp: qids_def)
    then obtain k' m where m: "registered ?ms k' = Some m" "?allC m"
      "t' = (initialTask m)\<lparr>remainingDependencies := []\<rparr>"
      unfolding seeded_queue by blast
    with \<open>m_id (task_match t') = k\<close> have "m_id m = k" by (simp add: initialTask_def)
    with registered_id [OF m(1)] m show "\<exists>m. registered ?ms k = Some m \<and> ?allC m" by auto
  next
    assume "\<exists>m. registered ?ms k = Some m \<and> ?allC m"
    then obtain m where m: "registered ?ms k = Some m" "?allC m" by blast
    then have "(initialTask m)\<lparr>remainingDependencies := []\<rparr> \<in> set ?q"
      unfolding seeded_queue by blast
    moreover from registered_id [OF m(1)] have "m_id m = k" by simp
    ultimately show "k \<in> set (qids ?q)" by (force simp: qids_def initialTask_def)
  qed
  have ne: "remainingDependencies (initialTask m) \<noteq> []" if "\<not> ?allC m" for m
    using that by auto
  have om: "once_mq {} (?mm, ?q)"
    unfolding once_mq_def fst_conv snd_conv
  proof (intro conjI allI impI)
    show "distinct (qids ?q)" by (rule dq)
    show "set (qids ?q) \<inter> {} = {}" by simp
    show "set (qids ?q) \<subseteq> dom (map_of ?mm)"
      by (auto simp: sq seeded_map_of)
    fix k t assume "map_of ?mm k = Some t"
    then show "(remainingDependencies t = []) = (k \<in> set (qids ?q) \<union> {})"
      using ne by (auto simp: sq seeded_map_of split: option.splits if_splits)
  qed
  have dk: "distinct (map fst ?mm)"
    by (rule seed_distinct_keys) (simp add: distinct_buildGraph)
  have 7: "dd \<in> set (remainingDependencies t)"
    if dom: "dd \<in> dom (map_of ?mm)"
      and X: "X \<in> set (dependents_of (snd (buildGraph ?ms)) dd)" and m: "map_of ?mm X = Some t"
    for dd X t
  proof -
    from X obtain m' where m': "m' \<in> set ?ms" "m_id m' = X" "dd \<in> set (deps_of m')"
      by (auto simp: set_dependents_buildGraph)
    from registered_distinct [OF d m'(1)] m'(2) have r: "registered ?ms X = Some m'" by simp
    from dom obtain z where "registered ?ms dd = Some z"
      by (auto simp: seeded_map_of split: option.splits)
    from registered_id [OF this] have "dd \<in> m_id ` set ?ms" by auto
    then have "dd \<notin> set ?C" by (auto simp: pendingMatches_def)
    with m'(3) have "\<not> ?allC m'"
      by (auto simp: initialTask_def list_all_iff)
    with m r have "t = initialTask m'" by (simp add: seeded_map_of)
    with m'(3) show ?thesis by (simp add: initialTask_def set_new_Set)
  qed
  show ?thesis
    unfolding once_inv_def rescheduleInit0_fields
    using om dk 7 by simp
qed


text \<open>
  On pending matches with distinct identities, the entries that \<open>rescheduleMatches\<close>
  returns are one for each pending match.
\<close>

lemma rescheduleMatches_distinct_final:
  assumes ret: "rescheduleMatches ck matches courts config = Some (Inr r)"
    and d: "distinct (map m_id (pendingMatches matches config))"
  shows "distinct (map sm_matchId (schedule r))"
    and "set (map sm_matchId (schedule r)) = set (map m_id (pendingMatches matches config))"
proof -
  let ?p = "rescheduleParams matches config"
  let ?ms = "pendingMatches matches config"
  let ?lk = "registered ?ms"
  let ?done = "map (completedEntry matches) (completedMatches config)"
  let ?notC = "\<lambda>e. sm_matchId e \<notin> cm_matchId ` set (completedMatches config)"
  from ret obtain s where
    run: "mainLoop ck ?p (rescheduleInit ck matches courts config) = Some (Inr s)" and
    r: "schedule r = sort_key sm_startTime (filter ?notC (st_schedule s))" and
    len: "length (filter ?notC (st_schedule s)) = length ?ms"
    by (rule rescheduleMatches_InrE)
  from run have "mainLoop ck ?p (rebase ?done (rescheduleInit0 ck matches courts config))
      = Some (Inr s)"
    by (simp add: rescheduleInit_rebase)
  from rebase_mainLoop [OF this] obtain t where
    run0: "mainLoop ck ?p (rescheduleInit0 ck matches courts config) = Some (Inr t)" and
    s: "s = rebase ?done t" by blast
  have dp: "lp_dependents ?p = snd (buildGraph ?ms)" by (simp add: rescheduleParams_def)
  have dd: "\<forall>d. distinct (dependents_of (lp_dependents ?p) d)"
    unfolding dp by (simp add: distinct_dependents_buildGraph)
  define I where "I = (\<lambda>s :: sched_state. reg_inv ?lk s \<and> once_inv (lp_dependents ?p) s)"
  have "I t \<and> st_queue t = [] \<and> st_events t = []"
  proof (rule loop_invariant [where I = I, OF run0])
    show "I (rescheduleInit0 ck matches courts config)"
      unfolding I_def dp using reg_inv_reschedule once_inv_reschedule [OF d] by blast
  next
    fix s ev rest
    assume "I s" "st_events s = ev # rest"
    then show "I (handleEvent ck ?p ev (s\<lparr>st_events := rest\<rparr>))"
      unfolding I_def using dd by (auto intro: reg_inv_flush once_inv_flush)
  next
    fix s task s'
    assume inv: "I s" and q: "task \<in> set (st_queue s)" and tt: "tryTask ?p s task = Some s'"
    from tryTask_SomeD [OF tt] obtain ci where "s' = placeAt ?p s task ci" by blast
    with inv q show "I s'"
      unfolding I_def by (auto intro: reg_inv_place once_inv_place)
  next
    fix s :: sched_state and t
    assume "I s"
    then show "I (s\<lparr>st_currentTime := t\<rparr>)"
      unfolding I_def by (auto intro: reg_inv_advance once_inv_advance)
  qed
  then have reg: "reg_inv ?lk t" and once: "once_inv (lp_dependents ?p) t"
    by (simp_all add: I_def)
  from once have dP: "distinct (map sm_matchId (st_schedule t))"
    by (simp add: once_inv_def)
  have sub: "set (map sm_matchId (st_schedule t)) \<subseteq> set (map m_id ?ms)"
  proof
    fix k assume "k \<in> set (map sm_matchId (st_schedule t))"
    with once obtain tk where "map_of (st_matchMap t) k = Some tk"
      unfolding once_inv_def by blast
    with reg have "?lk k = Some (task_match tk)" by (simp add: reg_inv_def)
    from registered_id [OF this] show "k \<in> set (map m_id ?ms)" by auto
  qed
  have keep: "filter ?notC (st_schedule t) = st_schedule t"
  proof (rule filter_True, rule ballI)
    fix e assume "e \<in> set (st_schedule t)"
    with sub have "sm_matchId e \<in> set (map m_id ?ms)" by auto
    then have "sm_matchId e \<notin> set (completedMatchIds config)"
      by (auto simp: pendingMatches_def simp del: set_completedMatchIds)
    then show "?notC e" by simp
  qed
  have drop: "filter ?notC ?done = []"
    by (auto simp: filter_empty_conv completedEntry_def)
  have f: "filter ?notC (st_schedule s) = st_schedule t"
    unfolding s by (simp add: keep drop)
  from dP show "distinct (map sm_matchId (schedule r))"
    by (simp add: r f distinct_map_sort_key)
  have "set (map sm_matchId (st_schedule t)) = set (map m_id ?ms)"
    by (rule card_eq_set_eq [OF dP d sub]) (use len f in simp)
  then show "set (map sm_matchId (schedule r)) = set (map m_id ?ms)"
    by (simp add: r f)
qed


section \<open>The end of the loop of rescheduleMatches\<close>

lemma fold_max_bound:
  "(b :: int) \<le> fold (\<lambda>c b. max (g c) b) cs b \<and>
   (\<forall>c \<in> set cs. g c \<le> fold (\<lambda>c b. max (g c) b) cs b)"
proof (induction cs arbitrary: b)
  case Nil
  show ?case by simp
next
  case (Cons a cs)
  from Cons.IH [of "max (g a) b"] show ?case by auto
qed

lemma painted_latest_bounds:
  "currentTime config \<le> painted_latest config"
  "(case startTime config of Some t \<Rightarrow> t | None \<Rightarrow> currentTime config) \<le> painted_latest config"
  "c \<in> set (completedMatches config) \<Longrightarrow>
     actualEndTime c + restTime config * 60000 \<le> painted_latest config"
  "c \<in> set (completedMatches config) \<Longrightarrow>
     actualEndTime c + (case courtSetupTime config of Some n \<Rightarrow> n | None \<Rightarrow> 0) * 60000
       \<le> painted_latest config"
proof -
  let ?g = "\<lambda>c. actualEndTime c + reschedule_turnaround config * 60000"
  let ?b = "max (currentTime config)
            (case startTime config of Some t \<Rightarrow> t | None \<Rightarrow> currentTime config)"
  from fold_max_bound [of ?b ?g "completedMatches config"]
  have b: "?b \<le> painted_latest config"
    and g: "\<forall>c \<in> set (completedMatches config). ?g c \<le> painted_latest config"
    by (simp_all add: painted_latest_def)
  from b show "currentTime config \<le> painted_latest config"
    "(case startTime config of Some t \<Rightarrow> t | None \<Rightarrow> currentTime config) \<le> painted_latest config"
    by simp_all
  have r: "restTime config \<le> reschedule_turnaround config"
    "(case courtSetupTime config of Some n \<Rightarrow> n | None \<Rightarrow> 0) \<le> reschedule_turnaround config"
    by (simp_all add: reschedule_turnaround_def)
  {
    assume "c \<in> set (completedMatches config)"
    with g have "?g c \<le> painted_latest config" by simp
    with r show "actualEndTime c + restTime config * 60000 \<le> painted_latest config"
      "actualEndTime c + (case courtSetupTime config of Some n \<Rightarrow> n | None \<Rightarrow> 0) * 60000
       \<le> painted_latest config"
      by simp_all
  }
qed

lemma paintTeam_states:
  assumes x: "x \<in> set (paintTeam k init t ts)"
  shows "x \<in> set ts \<or>
         (ts_currentMatch (snd x) = None \<and> (ts_availableAt (snd x) = init \<or> ts_availableAt (snd x) = t)) \<or>
         (\<exists>y \<in> set ts. ts_currentMatch (snd x) = ts_currentMatch (snd y) \<and> ts_availableAt (snd x) = t)"
proof (cases "map_of ts k")
  case None
  let ?st = "\<lparr>ts_teamId = k, ts_availableAt = init, ts_currentMatch = None\<rparr>"
  show ?thesis
  proof (cases "t > init")
    case True
    with None x have "x \<in> set (AList.update k (?st\<lparr>ts_availableAt := t\<rparr>) (AList.update k ?st ts))"
      by (simp add: paintTeam_def ensureTeamState_def Let_def)
    then have "x \<in> set (AList.update k (?st\<lparr>ts_availableAt := t\<rparr>) ts)" by simp
    from set_update_cases [OF this] show ?thesis by auto
  next
    case False
    with None x have "x \<in> set (AList.update k ?st ts)"
      by (simp add: paintTeam_def ensureTeamState_def Let_def)
    from set_update_cases [OF this] show ?thesis by auto
  qed
next
  case (Some st)
  then have m: "(k, st) \<in> set ts" by (rule map_of_SomeD)
  show ?thesis
  proof (cases "t > ts_availableAt st")
    case True
    with Some x have "x \<in> set (AList.update k (st\<lparr>ts_availableAt := t\<rparr>) ts)"
      by (simp add: paintTeam_def ensureTeamState_def)
    from set_update_cases [OF this] m show ?thesis by force
  next
    case False
    with Some x show ?thesis by (simp add: paintTeam_def ensureTeamState_def)
  qed
qed

lemma paintTeam_ok:
  assumes "\<forall>x \<in> set ts. ts_currentMatch (snd x) = None \<and> ts_availableAt (snd x) \<le> B"
    and "init \<le> B" "t \<le> B"
  shows "\<forall>x \<in> set (paintTeam k init t ts). ts_currentMatch (snd x) = None \<and> ts_availableAt (snd x) \<le> B"
proof
  fix x assume "x \<in> set (paintTeam k init t ts)"
  from paintTeam_states [OF this] assms
  show "ts_currentMatch (snd x) = None \<and> ts_availableAt (snd x) \<le> B" by auto
qed

lemma paintCourt_ok:
  assumes "\<forall>c \<in> set cs. cs_availableAt c \<le> B" "t \<le> B"
  shows "\<forall>c \<in> set (paintCourt k t cs). cs_availableAt c \<le> B"
  using assms by (induction cs) auto

lemma paintCourt_nonempty: "cs \<noteq> [] \<Longrightarrow> paintCourt k t cs \<noteq> []"
  by (cases cs) auto

lemma painted_ok:
  assumes "\<forall>x \<in> set (fst tc). ts_currentMatch (snd x) = None \<and> ts_availableAt (snd x) \<le> B"
    and "\<forall>c \<in> set (snd tc). cs_availableAt c \<le> B" and "snd tc \<noteq> []" and "cur \<le> B"
    and "\<forall>c \<in> set completed. actualEndTime c + rest * 60000 \<le> B \<and>
           actualEndTime c + setup * 60000 \<le> B"
  shows "(\<forall>x \<in> set (fst (fold (paintCompleted cur rest setup) completed tc)).
            ts_currentMatch (snd x) = None \<and> ts_availableAt (snd x) \<le> B) \<and>
         (\<forall>c \<in> set (snd (fold (paintCompleted cur rest setup) completed tc)).
            cs_availableAt c \<le> B) \<and>
         snd (fold (paintCompleted cur rest setup) completed tc) \<noteq> []"
  using assms
proof (induction completed arbitrary: tc)
  case Nil
  then show ?case by simp
next
  case (Cons c completed)
  let ?tc1 = "paintCompleted cur rest setup c tc"
  from Cons.prems(5) have r: "actualEndTime c + rest * 60000 \<le> B"
    and su: "actualEndTime c + setup * 60000 \<le> B" by simp_all
  have t1: "\<forall>x \<in> set (paintTeam (Some (cm_team1Id c)) cur (actualEndTime c + rest * 60000) (fst tc)).
      ts_currentMatch (snd x) = None \<and> ts_availableAt (snd x) \<le> B"
    by (rule paintTeam_ok [OF Cons.prems(1) Cons.prems(4) r])
  have 1: "\<forall>x \<in> set (fst ?tc1). ts_currentMatch (snd x) = None \<and> ts_availableAt (snd x) \<le> B"
    unfolding paintCompleted_def Let_def fst_conv
    by (rule paintTeam_ok [OF t1 Cons.prems(4) r])
  have 2: "\<forall>c \<in> set (snd ?tc1). cs_availableAt c \<le> B"
    unfolding paintCompleted_def Let_def snd_conv
    by (rule paintCourt_ok [OF Cons.prems(2) su])
  have 3: "snd ?tc1 \<noteq> []"
    unfolding paintCompleted_def Let_def snd_conv
    by (rule paintCourt_nonempty [OF Cons.prems(3)])
  from Cons.prems(5) have 5: "\<forall>c \<in> set completed. actualEndTime c + rest * 60000 \<le> B \<and>
           actualEndTime c + setup * 60000 \<le> B" by simp
  from Cons.IH [OF 1 2 3 Cons.prems(4) 5] show ?case by simp
qed


lemma rescheduleInit0_painted:
  "st_currentTime (rescheduleInit0 ck matches courts config) = currentTime config"
  "st_teamStates (rescheduleInit0 ck matches courts config) =
     fst (fold (paintCompleted (currentTime config) (restTime config)
                 (case courtSetupTime config of Some n \<Rightarrow> n | None \<Rightarrow> 0))
            (completedMatches config)
            ([], map (\<lambda>court. \<lparr>cs_courtId = court_id court,
                  cs_availableAt = (case startTime config of Some t \<Rightarrow> t
                                    | None \<Rightarrow> currentTime config),
                  cs_currentMatch = None\<rparr>) courts))"
  "st_courtStates (rescheduleInit0 ck matches courts config) =
     snd (fold (paintCompleted (currentTime config) (restTime config)
                 (case courtSetupTime config of Some n \<Rightarrow> n | None \<Rightarrow> 0))
            (completedMatches config)
            ([], map (\<lambda>court. \<lparr>cs_courtId = court_id court,
                  cs_availableAt = (case startTime config of Some t \<Rightarrow> t
                                    | None \<Rightarrow> currentTime config),
                  cs_currentMatch = None\<rparr>) courts))"
  by (simp_all add: rescheduleInit0_def rescheduleInit_def Let_def)

lemma rescheduleInit0_ok:
  assumes "courts \<noteq> []"
  shows "(\<forall>x \<in> set (st_teamStates (rescheduleInit0 ck matches courts config)).
            ts_currentMatch (snd x) = None \<and> ts_availableAt (snd x) \<le> painted_latest config) \<and>
         (\<forall>c \<in> set (st_courtStates (rescheduleInit0 ck matches courts config)).
            cs_availableAt c \<le> painted_latest config) \<and>
         st_courtStates (rescheduleInit0 ck matches courts config) \<noteq> []"
  unfolding rescheduleInit0_painted
  by (rule painted_ok) (use assms painted_latest_bounds [where config = config] in auto)

lemma core_inv_reschedule:
  assumes d: "distinct (map m_id (pendingMatches matches config))" and c: "courts \<noteq> []"
  shows "core_inv (registered (pendingMatches matches config)) (rescheduleParams matches config)
           (rescheduleInit0 ck matches courts config)"
proof -
  let ?t0 = "rescheduleInit0 ck matches courts config"
  let ?lk = "registered (pendingMatches matches config)"
  have time: "time_inv ?t0" by (simp add: time_inv_def rescheduleInit0_fields)
  have team: "team_inv ?lk rest ?t0 T" for rest T
  proof (cases "map_of (st_teamStates ?t0) (Some T)")
    case None
    then show ?thesis
      by (simp add: team_inv_def rescheduleInit0_fields team_entries_def)
  next
    case (Some st)
    then have "(Some T, st) \<in> set (st_teamStates ?t0)" by (rule map_of_SomeD)
    with rescheduleInit0_ok [OF c, of ck matches config] have "ts_currentMatch st = None"
      by force
    with Some show ?thesis
      by (simp add: team_inv_def rescheduleInit0_fields team_entries_def)
  qed
  have dp: "lp_dependents (rescheduleParams matches config)
      = snd (buildGraph (pendingMatches matches config))"
    by (simp add: rescheduleParams_def)
  have "sched_inv ?lk (lp_restTime (rescheduleParams matches config)) ?t0"
    unfolding sched_inv_def using reg_inv_reschedule time team by blast
  then show ?thesis
    unfolding core_inv_def dp
    using once_inv_reschedule [OF d] by (simp add: distinct_dependents_buildGraph)
qed

lemma length_seeded:
  "length (fst (fold (seedTask ck C) todo acc)) \<le> length (fst acc) + length todo"
proof (induction todo arbitrary: acc)
  case Nil
  show ?case by simp
next
  case (Cons a todo)
  obtain k t where a: "a = (k, t)" by (cases a)
  have "length (AList.update k v al) \<le> Suc (length al)" for v :: MatchTask and al
    by (induction al) auto
  then have "length (fst (seedTask ck C (k, t) acc)) \<le> Suc (length (fst acc))"
    by (simp add: seedTask_step)
  with Cons.IH [of "seedTask ck C (k, t) acc"] show ?case by (simp add: a)
qed

lemma seeded_same_length:
  assumes "distinct (map fst G)"
  shows "length (fst (fold (seedTask ck C) G (G, []))) = length G"
proof -
  let ?mm = "fst (fold (seedTask ck C) G (G, []))"
  have d: "distinct (map fst ?mm)" by (rule seed_distinct_keys) (simp add: assms)
  have "dom (map_of ?mm) = dom (map_of G)"
    by (auto simp: seed_map_of [OF assms] split: option.splits if_splits)
  then have "set (map fst ?mm) = set (map fst G)" by (simp add: dom_map_of_conv_image_fst)
  with d assms have "length (map fst ?mm) = length (map fst G)"
    by (metis distinct_card)
  then show ?thesis by simp
qed

lemma horizon_inv_reschedule:
  assumes c: "courts \<noteq> []"
  shows "horizon_inv (reschedule_horizon matches config) (max_duration (pendingMatches matches config))
           (rescheduleParams matches config) (rescheduleInit0 ck matches courts config)"
proof -
  let ?p = "rescheduleParams matches config"
  let ?t0 = "rescheduleInit0 ck matches courts config"
  let ?ms = "pendingMatches matches config"
  let ?sl = "slot_ms (max_duration ?ms) ?p"
  let ?B = "painted_latest config"
  have ta: "turnaround ?p = reschedule_turnaround config"
    by (simp add: turnaround_def reschedule_turnaround_def rescheduleParams_def)
  have H: "reschedule_horizon matches config = ?B + int (length ?ms) * ?sl"
    by (simp add: reschedule_horizon_def slot_ms_def ta)
  have "0 \<le> turnaround ?p" by (simp add: turnaround_def)
  with max_duration_nonneg [of ?ms] have sl: "0 \<le> ?sl" by (simp add: slot_ms_def)
  have "length (st_matchMap ?t0) = length (fst (buildGraph ?ms))"
    unfolding rescheduleInit0_fields by (rule seeded_same_length) (rule distinct_buildGraph)
  with length_buildGraph [of ?ms] have "m_unplaced ?t0 \<le> length ?ms"
    by (simp add: m_unplaced_def rescheduleInit0_fields)
  then have "int (m_unplaced ?t0) * ?sl \<le> int (length ?ms) * ?sl"
    using sl by (intro mult_right_mono) simp_all
  then have b: "?B \<le> reschedule_horizon matches config - int (m_unplaced ?t0) * ?sl"
    unfolding H by simp
  from rescheduleInit0_ok [OF c, of ck matches config]
  have ts: "\<forall>x \<in> set (st_teamStates ?t0). ts_availableAt (snd x) \<le> ?B"
    and cs: "\<forall>c \<in> set (st_courtStates ?t0). cs_availableAt c \<le> ?B"
    and ne: "st_courtStates ?t0 \<noteq> []" by auto
  have cur: "st_currentTime ?t0 = currentTime config" by (rule rescheduleInit0_painted)
  have g: "lp_initialTime ?p = currentTime config" "lp_floor ?p = Some (currentTime config)"
    by (simp_all add: rescheduleParams_def)
  from painted_latest_bounds(1) [where config = config] have cb: "currentTime config \<le> ?B" .
  show ?thesis
    unfolding horizon_inv_def cur g rescheduleInit0_fields
    using ts cs ne b cb by (auto intro: order_trans)
qed

lemma rebase_mainLoop_forward:
  assumes "mainLoop ck p t = Some (Inr t')"
  shows "mainLoop ck p (rebase xs t) = Some (Inr (rebase xs t'))"
proof -
  define P where "P = (\<lambda>ck0 p0 t (y :: error + sched_state).
      \<forall>t'. ck0 = ck \<and> p0 = p \<and> y = Inr t' \<longrightarrow>
        mainLoop ck p (rebase xs t) = Some (Inr (rebase xs t')))"
  have "P ck p t (Inr t')"
  proof (rule mainLoop.raw_induct [OF _ assms])
    fix loop :: "(ident \<Rightarrow> 'a) \<Rightarrow> loop_params \<Rightarrow> sched_state \<Rightarrow> (error + sched_state) option"
      and ck0 p0 t y
    assume IH: "\<And>ck p s y. loop ck p s = Some y \<Longrightarrow> P ck p s y"
      and body: "(if st_queue t \<noteq> [] \<or> st_events t \<noteq> []
        then case iteration ck0 p0 t of Continue s' \<Rightarrow> loop ck0 p0 s'
           | Break s' \<Rightarrow> Some (Inr s') | Throw e \<Rightarrow> Some (Inl e)
        else Some (Inr t)) = Some y"
    show "P ck0 p0 t y"
      unfolding P_def
    proof (intro allI impI, elim conjE)
      fix t'
      assume eq: "ck0 = ck" "p0 = p" and y: "y = Inr t'"
      have it: "iteration ck p (rebase xs t) = rebase_outcome xs (iteration ck p t)"
        by (rule rebase_iteration)
      show "mainLoop ck p (rebase xs t) = Some (Inr (rebase xs t'))"
      proof (cases "st_queue t \<noteq> [] \<or> st_events t \<noteq> []")
        case False
        with body y have "t' = t" by simp
        with False show ?thesis by (subst mainLoop.simps) simp
      next
        case True
        show ?thesis
        proof (cases "iteration ck p t")
          case (Continue t1)
          with True body eq have "loop ck p t1 = Some y" by simp
          from IH [OF this] y have "mainLoop ck p (rebase xs t1) = Some (Inr (rebase xs t'))"
            by (simp add: P_def)
          with True Continue it show ?thesis by (subst mainLoop.simps) simp
        next
          case (Break t1)
          with True body eq y have "t' = t1" by simp
          with True Break it show ?thesis by (subst mainLoop.simps) simp
        next
          case (Throw e)
          with True body eq y show ?thesis by simp
        qed
      qed
    qed
  qed
  then show ?thesis by (simp add: P_def)
qed

text \<open>
  On pending matches with distinct identities and dates below the horizon, the loop of
  \<open>rescheduleMatches\<close> ends, and ends normally, with distinct pending entries.
\<close>

lemma rescheduleMatches_loop_returns:
  assumes d: "distinct (map m_id (pendingMatches matches config))" and c: "courts \<noteq> []"
    and H: "reschedule_horizon matches config < MAX_DATE"
  shows "\<exists>s. mainLoop ck (rescheduleParams matches config)
                (rescheduleInit ck matches courts config) = Some (Inr s) \<and>
              length (filter (\<lambda>e. sm_matchId e \<notin> cm_matchId ` set (completedMatches config))
                        (st_schedule s))
                \<le> length (pendingMatches matches config)"
proof -
  let ?p = "rescheduleParams matches config"
  let ?ms = "pendingMatches matches config"
  let ?lk = "registered ?ms"
  let ?t0 = "rescheduleInit0 ck matches courts config"
  let ?done = "map (completedEntry matches) (completedMatches config)"
  let ?notC = "\<lambda>e. sm_matchId e \<notin> cm_matchId ` set (completedMatches config)"
  have core: "core_inv ?lk ?p ?t0" by (rule core_inv_reschedule [OF d c])
  have hor: "horizon_inv (reschedule_horizon matches config) (max_duration ?ms) ?p ?t0"
    by (rule horizon_inv_reschedule [OF c])
  have lkD: "\<And>k m. ?lk k = Some m \<Longrightarrow> duration m \<le> max_duration ?ms"
    by (auto dest!: registered_id intro: max_duration_ge)
  have "\<exists>t. mainLoop ck ?p ?t0 = Some (Inr t)"
    by (rule mainLoop_returns [where ck = ck, OF core hor max_duration_nonneg _ H]) (rule lkD)
  then obtain t where run0: "mainLoop ck ?p ?t0 = Some (Inr t)" by blast
  define I where "I = (\<lambda>s :: sched_state. reg_inv ?lk s \<and> once_inv (lp_dependents ?p) s)"
  from core have dd: "\<forall>d. distinct (dependents_of (lp_dependents ?p) d)"
    and i0: "I ?t0" by (simp_all add: core_inv_def sched_inv_def I_def)
  have "I t \<and> st_queue t = [] \<and> st_events t = []"
  proof (rule loop_invariant [where I = I, OF run0 i0])
    fix s ev rest
    assume "I s" "st_events s = ev # rest"
    then show "I (handleEvent ck ?p ev (s\<lparr>st_events := rest\<rparr>))"
      unfolding I_def using dd by (auto intro: reg_inv_flush once_inv_flush)
  next
    fix s task s'
    assume inv: "I s" and q: "task \<in> set (st_queue s)" and tt: "tryTask ?p s task = Some s'"
    from tryTask_SomeD [OF tt] obtain ci where "s' = placeAt ?p s task ci" by blast
    with inv q show "I s'"
      unfolding I_def by (auto intro: reg_inv_place once_inv_place)
  next
    fix s :: sched_state and t
    assume "I s"
    then show "I (s\<lparr>st_currentTime := t\<rparr>)"
      unfolding I_def by (auto intro: reg_inv_advance once_inv_advance)
  qed
  then have reg: "reg_inv ?lk t" and once: "once_inv (lp_dependents ?p) t"
    by (simp_all add: I_def)
  from once have dP: "distinct (map sm_matchId (st_schedule t))"
    by (simp add: once_inv_def)
  have sub: "set (map sm_matchId (st_schedule t)) \<subseteq> set (map m_id ?ms)"
  proof
    fix k assume "k \<in> set (map sm_matchId (st_schedule t))"
    with once obtain tk where "map_of (st_matchMap t) k = Some tk"
      unfolding once_inv_def by blast
    with reg have "?lk k = Some (task_match tk)" by (simp add: reg_inv_def)
    from registered_id [OF this] show "k \<in> set (map m_id ?ms)" by auto
  qed
  have keep: "filter ?notC (st_schedule t) = st_schedule t"
  proof (rule filter_True, rule ballI)
    fix e assume "e \<in> set (st_schedule t)"
    with sub have "sm_matchId e \<in> set (map m_id ?ms)" by auto
    then have "sm_matchId e \<notin> set (completedMatchIds config)"
      by (auto simp: pendingMatches_def simp del: set_completedMatchIds)
    then show "?notC e" by simp
  qed
  have drop: "filter ?notC ?done = []"
    by (auto simp: filter_empty_conv completedEntry_def)
  from rebase_mainLoop_forward [OF run0, of ?done]
  have run: "mainLoop ck ?p (rescheduleInit ck matches courts config) = Some (Inr (rebase ?done t))"
    by (simp add: rescheduleInit_rebase)
  have f: "filter ?notC (st_schedule (rebase ?done t)) = st_schedule t"
    by (simp add: keep drop)
  have "length (st_schedule t) = card (set (map sm_matchId (st_schedule t)))"
    using dP by (metis distinct_card length_map)
  also have "\<dots> \<le> card (set (map m_id ?ms))"
    using sub by (intro card_mono) simp_all
  also have "\<dots> \<le> length ?ms"
    by (metis card_length length_map)
  finally have "length (st_schedule t) \<le> length ?ms" .
  with run f show ?thesis by (intro exI [of _ "rebase ?done t"]) simp
qed
section \<open>The entries of a live reschedule\<close>

lemma rerun_dangling:
  "rescheduleMatches codeunit_key dangling_matches one_court fresh_reconfig
     = Some (Inl (FailedToRescheduleAll 0 1))"
  by code_simp

lemma rerun_dup_dangling:
  "rescheduleMatches codeunit_key dup_dangling_matches three_courts fresh_reconfig
     = Some (Inr dup_dangling_result)"
  by code_simp

text \<open>
  Claim C6 as stated fails on an input in which two pending matches share an identity.
  Nothing is completed, so all five matches are pending. As in \<open>scheduleMatches\<close>,
  \<open>M1\<close> is placed three times and \<open>M4\<close>, which waits for the unknown \<open>M9\<close>,
  never: the count of entries equals the count of pending matches, the final check passes,
  and the returned schedule has no entry for the pending match \<open>M4\<close>.
\<close>

theorem C6_duplicate_counterexample:
  "rescheduleMatches codeunit_key dup_dangling_matches three_courts fresh_reconfig
     = Some (Inr dup_dangling_result) \<and>
   pendingMatches dup_dangling_matches fresh_reconfig = dup_dangling_matches \<and>
   IdStr ''M4'' \<in> set (map m_id dup_dangling_matches) \<and>
   IdStr ''M4'' \<notin> set (map sm_matchId (schedule dup_dangling_result)) \<and>
   \<not> distinct (map sm_matchId (schedule dup_dangling_result))"
proof -
  have "pendingMatches dup_dangling_matches fresh_reconfig = dup_dangling_matches"
    by code_simp
  moreover have "IdStr ''M4'' \<in> set (map m_id dup_dangling_matches)" by code_simp
  moreover have "IdStr ''M4'' \<notin> set (map sm_matchId (schedule dup_dangling_result))"
    by code_simp
  moreover have "\<not> distinct (map sm_matchId (schedule dup_dangling_result))" by code_simp
  ultimately show ?thesis using rerun_dup_dangling by simp
qed

text \<open>
  Claim C6, amended.
  \<^item> The schedule that \<open>rescheduleMatches\<close> returns has no entry for a completed match
    and as many entries as there are pending input matches (those not marked completed);
    when the identities of the pending matches are pairwise distinct, it has exactly one
    entry for each pending match.
  \<^item> When the identities of the pending matches are pairwise distinct, there is at least
    one match and one court, and the dates of the run are in the range of valid dates (the
    latest of the current time, the start time and the ends of the completed matches, plus,
    for each pending match, the longest duration and the larger of rest time and court
    setup time, is before the maximal date), the loop ends without the deadlock error, and
    \<open>rescheduleMatches\<close> either returns or raises the error of the final count,
    \<open>FailedToRescheduleAll\<close>, with fewer placed than pending matches.
\<close>

theorem C6_pending_only:
  "(\<forall>r. rescheduleMatches ck matches courts config = Some (Inr r) \<longrightarrow>
      (\<forall>e \<in> set (schedule r). sm_matchId e \<notin> cm_matchId ` set (completedMatches config)) \<and>
      length (schedule r) = length (pendingMatches matches config) \<and>
      (distinct (map m_id (pendingMatches matches config)) \<longrightarrow>
         distinct (map sm_matchId (schedule r)) \<and>
         set (map sm_matchId (schedule r)) = set (map m_id (pendingMatches matches config)))) \<and>
   (distinct (map m_id (pendingMatches matches config)) \<and> matches \<noteq> [] \<and> courts \<noteq> [] \<and>
    reschedule_horizon matches config < MAX_DATE \<longrightarrow>
      (\<exists>r. rescheduleMatches ck matches courts config = Some (Inr r)) \<or>
      (\<exists>n < length (pendingMatches matches config).
         rescheduleMatches ck matches courts config
           = Some (Inl (FailedToRescheduleAll n (length (pendingMatches matches config))))))"
proof (intro conjI allI impI)
  fix r
  assume ret: "rescheduleMatches ck matches courts config = Some (Inr r)"
  then obtain s where
    run: "mainLoop ck (rescheduleParams matches config) (rescheduleInit ck matches courts config)
       = Some (Inr s)" and
    r: "schedule r = sort_key sm_startTime
       (filter (\<lambda>e. sm_matchId e \<notin> cm_matchId ` set (completedMatches config)) (st_schedule s))" and
    len: "length (filter (\<lambda>e. sm_matchId e \<notin> cm_matchId ` set (completedMatches config)) (st_schedule s))
       = length (pendingMatches matches config)"
    by (rule rescheduleMatches_InrE)
  show "\<forall>e \<in> set (schedule r). sm_matchId e \<notin> cm_matchId ` set (completedMatches config)"
    by (auto simp: r)
  show "length (schedule r) = length (pendingMatches matches config)"
    using len by (simp add: r)
  assume d: "distinct (map m_id (pendingMatches matches config))"
  from rescheduleMatches_distinct_final [OF ret d]
  show "distinct (map sm_matchId (schedule r))"
    "set (map sm_matchId (schedule r)) = set (map m_id (pendingMatches matches config))"
    by simp_all
next
  let ?notC = "\<lambda>e. sm_matchId e \<notin> cm_matchId ` set (completedMatches config)"
  let ?n = "length (pendingMatches matches config)"
  assume "distinct (map m_id (pendingMatches matches config)) \<and> matches \<noteq> [] \<and> courts \<noteq> [] \<and>
    reschedule_horizon matches config < MAX_DATE"
  then have d: "distinct (map m_id (pendingMatches matches config))" and m: "matches \<noteq> []"
    and c: "courts \<noteq> []" and H: "reschedule_horizon matches config < MAX_DATE" by simp_all
  from rescheduleMatches_loop_returns [OF d c H, of ck] obtain s where
    run: "mainLoop ck (rescheduleParams matches config) (rescheduleInit ck matches courts config)
       = Some (Inr s)" and le: "length (filter ?notC (st_schedule s)) \<le> ?n"
    by blast
  show "(\<exists>r. rescheduleMatches ck matches courts config = Some (Inr r)) \<or>
      (\<exists>n < ?n. rescheduleMatches ck matches courts config
           = Some (Inl (FailedToRescheduleAll n ?n)))"
  proof (cases "length (filter ?notC (st_schedule s)) = ?n")
    case True
    with m c run show ?thesis by (simp add: rescheduleMatches_def Let_def)
  next
    case False
    with le have "length (filter ?notC (st_schedule s)) < ?n" by simp
    moreover from False m c run
    have "rescheduleMatches ck matches courts config
            = Some (Inl (FailedToRescheduleAll (length (filter ?notC (st_schedule s))) ?n))"
      by (simp add: rescheduleMatches_def Let_def)
    ultimately show ?thesis by blast
  qed
qed

theorem C6_pending_only_witness:
  "rescheduleMatches codeunit_key sample_matches sample_courts sample_reconfig
     = Some (Inr sample_reresult) \<and>
   map m_id (pendingMatches sample_matches sample_reconfig) = [IdStr ''M3''] \<and>
   list_all (\<lambda>e. sm_matchId e \<notin> cm_matchId ` set (completedMatches sample_reconfig))
     (schedule sample_reresult) \<and>
   length (schedule sample_reresult) = 1 \<and>
   set (map sm_matchId (schedule sample_reresult)) = {IdStr ''M3''} \<and>
   reschedule_horizon sample_matches sample_reconfig < MAX_DATE \<and>
   distinct (map m_id (pendingMatches dangling_matches fresh_reconfig)) \<and>
   length (pendingMatches dangling_matches fresh_reconfig) = 1 \<and>
   reschedule_horizon dangling_matches fresh_reconfig < MAX_DATE \<and>
   rescheduleMatches codeunit_key dangling_matches one_court fresh_reconfig
     = Some (Inl (FailedToRescheduleAll 0 1))"
proof -
  have p: "map m_id (pendingMatches sample_matches sample_reconfig) = [IdStr ''M3'']"
    by code_simp
  then have d: "distinct (map m_id (pendingMatches sample_matches sample_reconfig))" by simp
  from p have l: "length (pendingMatches sample_matches sample_reconfig) = 1"
    by (metis length_map length_Cons list.size(3) One_nat_def)
  have H1: "reschedule_horizon sample_matches sample_reconfig < MAX_DATE" by code_simp
  have d2: "distinct (map m_id (pendingMatches dangling_matches fresh_reconfig))" by code_simp
  have l2: "length (pendingMatches dangling_matches fresh_reconfig) = 1" by code_simp
  have H2: "reschedule_horizon dangling_matches fresh_reconfig < MAX_DATE" by code_simp
  have ne: "dangling_matches \<noteq> []" "one_court \<noteq> []"
    by (simp_all add: dangling_matches_def one_court_def)
  from C6_pending_only [of codeunit_key sample_matches sample_courts sample_reconfig]
    rerun_sample d
  have "(\<forall>e \<in> set (schedule sample_reresult).
           sm_matchId e \<notin> cm_matchId ` set (completedMatches sample_reconfig)) \<and>
        length (schedule sample_reresult) = length (pendingMatches sample_matches sample_reconfig) \<and>
        set (map sm_matchId (schedule sample_reresult))
          = set (map m_id (pendingMatches sample_matches sample_reconfig))"
    by blast
  moreover
  from C6_pending_only [of codeunit_key dangling_matches one_court fresh_reconfig] d2 ne H2
  have "(\<exists>r. rescheduleMatches codeunit_key dangling_matches one_court fresh_reconfig = Some (Inr r)) \<or>
      (\<exists>n < length (pendingMatches dangling_matches fresh_reconfig).
         rescheduleMatches codeunit_key dangling_matches one_court fresh_reconfig
           = Some (Inl (FailedToRescheduleAll n (length (pendingMatches dangling_matches fresh_reconfig)))))"
    by blast
  then have "\<exists>n < 1. rescheduleMatches codeunit_key dangling_matches one_court fresh_reconfig
           = Some (Inl (FailedToRescheduleAll n 1))"
    using rerun_dangling by (simp add: l2)
  then have "rescheduleMatches codeunit_key dangling_matches one_court fresh_reconfig
           = Some (Inl (FailedToRescheduleAll 0 1))"
    by auto
  ultimately show ?thesis using rerun_sample p l H1 d2 l2 H2 by (simp add: list_all_iff)
qed

text \<open>
  A pending match that depends on a completed match and on a pending one is never released:
  the set of its remaining dependencies keeps the completed identity, for which no end event
  is ever processed. On the input of the repository's test \<open>should reschedule pending
  matches after some are completed\<close> (\<open>M1\<close> completed, \<open>M3\<close> waits for
  \<open>M1\<close> and \<open>M2\<close>) the function raises the error of the final count, one
  match placed out of two, where the test expects a schedule of two entries.
\<close>

lemma rerun_mixed:
  "rescheduleMatches codeunit_key sample_matches sample_courts mixed_reconfig
     = Some (Inl (FailedToRescheduleAll 1 2))"
  by code_simp
section \<open>The result depends on the collation only through the order of the identities\<close>

lemma insort_key_cong_order:
  assumes "\<forall>y \<in> set ys. (f x \<le> f y) = (g x \<le> g y)"
  shows "insort_key f x ys = insort_key g x ys"
  using assms by (induction ys) simp_all

lemma sort_key_cong_order:
  assumes "\<forall>x \<in> set xs. \<forall>y \<in> set xs. (f x \<le> f y) = (g x \<le> g y)"
  shows "sort_key f xs = sort_key g xs"
  using assms
proof (induction xs)
  case Nil
  show ?case by simp
next
  case (Cons x xs)
  then have IH: "sort_key f xs = sort_key g xs" by simp
  have "insort_key f x (sort_key g xs) = insort_key g x (sort_key g xs)"
    by (rule insort_key_cong_order) (use Cons.prems in simp)
  with IH show ?case by (simp add: sort_key_simps)
qed

lemma same_order_sym: "same_order ck ck' S \<Longrightarrow> same_order ck' ck S"
  by (auto simp: same_order_def)

lemma enqueue_cong_order:
  assumes so: "same_order ck ck' S"
    and "m_id (task_match task) \<in> S" "\<forall>t \<in> set q. m_id (task_match t) \<in> S"
  shows "enqueue ck task q = enqueue ck' task q"
  unfolding enqueue_def
proof (rule sort_key_cong_order, intro ballI)
  fix x y assume "x \<in> set (q @ [task])" "y \<in> set (q @ [task])"
  with assms(2,3) have "m_id (task_match x) \<in> S" "m_id (task_match y) \<in> S" by auto
  with so have "(ck (m_id (task_match x)) \<le> ck (m_id (task_match y)))
      = (ck' (m_id (task_match x)) \<le> ck' (m_id (task_match y)))"
    by (simp add: same_order_def)
  then have "precedes ck x y = precedes ck' x y" by (simp add: precedes_def)
  then show "(task_key ck x \<le> task_key ck y) = (task_key ck' x \<le> task_key ck' y)"
    by (simp add: precedes_key)
qed


lemma unlockDependent_cong_order:
  assumes so: "same_order ck ck' S" and lkS: "\<And>k m. lk k = Some m \<Longrightarrow> m_id m \<in> S"
    and reg: "reg_mq lk mq"
  shows "unlockDependent ck d X mq = unlockDependent ck' d X mq"
proof (cases "map_of (fst mq) X")
  case None
  then show ?thesis by (simp add: unlockDependent_def)
next
  case (Some depTask)
  with reg have "lk X = Some (task_match depTask)" by (simp add: reg_mq_def)
  from lkS [OF this] have 1: "m_id (task_match depTask) \<in> S" .
  from reg lkS have 2: "\<forall>t \<in> set (snd mq). m_id (task_match t) \<in> S"
    by (auto simp: reg_mq_def)
  have "enqueue ck (depTask\<lparr>remainingDependencies := rd\<rparr>) (snd mq)
      = enqueue ck' (depTask\<lparr>remainingDependencies := rd\<rparr>) (snd mq)" for rd
    by (rule enqueue_cong_order [OF so]) (use 1 2 in simp_all)
  with Some show ?thesis by (simp add: unlockDependent_def Let_def)
qed

lemma fold_unlockDependent_cong_order:
  assumes so: "same_order ck ck' S" and lkS: "\<And>k m. lk k = Some m \<Longrightarrow> m_id m \<in> S"
    and reg: "reg_mq lk mq"
  shows "fold (unlockDependent ck d) todo mq = fold (unlockDependent ck' d) todo mq"
  using reg
proof (induction todo arbitrary: mq)
  case Nil
  show ?case by simp
next
  case (Cons X todo)
  have e: "unlockDependent ck d X mq = unlockDependent ck' d X mq"
    using so lkS Cons.prems by (rule unlockDependent_cong_order)
  have "reg_mq lk (unlockDependent ck d X mq)"
    using Cons.prems by (rule reg_mq_unlockDependent)
  from Cons.IH [OF this] e show ?case by simp
qed

lemma handleEvent_cong_order:
  assumes so: "same_order ck ck' S" and lkS: "\<And>k m. lk k = Some m \<Longrightarrow> m_id m \<in> S"
    and reg: "reg_inv lk s"
  shows "handleEvent ck p ev s = handleEvent ck' p ev s"
proof -
  from reg have "reg_mq lk (st_matchMap s, st_queue s)" by (simp add: reg_inv_mq)
  from fold_unlockDependent_cong_order [OF so lkS this]
  show ?thesis by (simp add: handleEvent_def Let_def)
qed

lemma processEvents_cong_order:
  assumes so: "same_order ck ck' S" and lkS: "\<And>k m. lk k = Some m \<Longrightarrow> m_id m \<in> S"
    and reg: "reg_inv lk s"
  shows "processEvents ck p evs s = processEvents ck' p evs s"
  using reg
proof (induction evs arbitrary: s)
  case Nil
  show ?case by simp
next
  case (Cons ev evs)
  let ?s0 = "s\<lparr>st_events := evs\<rparr>"
  from Cons.prems have r0: "reg_inv lk ?s0" by (simp add: reg_inv_def)
  have e: "handleEvent ck p ev ?s0 = handleEvent ck' p ev ?s0"
    using so lkS r0 by (rule handleEvent_cong_order)
  have "reg_inv lk (handleEvent ck p ev ?s0)"
    using reg_inv_flush [OF Cons.prems, of ck p ev evs] .
  from Cons.IH [OF this] e show ?case by simp
qed

lemma iteration_cong_order:
  assumes so: "same_order ck ck' S" and lkS: "\<And>k m. lk k = Some m \<Longrightarrow> m_id m \<in> S"
    and reg: "reg_inv lk s"
  shows "iteration ck p s = iteration ck' p s"
proof -
  have "processEvents ck p (st_events s) s = processEvents ck' p (st_events s) s"
    using so lkS reg by (rule processEvents_cong_order)
  then show ?thesis by (simp add: iteration_def)
qed

lemma reg_inv_iteration:
  assumes reg: "reg_inv lk s" and it: "iteration ck p s = Continue s'"
  shows "reg_inv lk s'"
proof -
  let ?s1 = "processEvents ck p (st_events s) s"
  have "reg_inv lk ?s1 \<and> flushed ?s1"
    by (rule processEvents_inv [where I = "reg_inv lk", OF reg refl]) (rule reg_inv_flush)
  then have r1: "reg_inv lk ?s1" by simp
  from it show ?thesis
  proof (cases rule: iteration_cases)
    case (placed task s'')
    from tryTask_SomeD [OF placed(3)] obtain ci where "s'' = placeAt p ?s1 task ci" by blast
    with placed(1) r1 show ?thesis by (simp add: reg_inv_place)
  next
    case next_event
    with r1 show ?thesis by (simp add: reg_inv_advance)
  next
    case next_time
    with r1 show ?thesis by (simp add: reg_inv_advance)
  next
    case deadlock
    then show ?thesis by simp
  next
    case finished
    then show ?thesis by simp
  qed
qed

lemma mainLoop_cong_order_Some:
  assumes so: "same_order ck ck' S" and lkS: "\<And>k m. lk k = Some m \<Longrightarrow> m_id m \<in> S"
    and reg: "reg_inv lk s" and run: "mainLoop ck p s = Some y"
  shows "mainLoop ck' p s = Some y"
proof -
  define P where "P = (\<lambda>ck0 p0 s (y :: error + sched_state).
      ck0 = ck \<and> p0 = p \<and> reg_inv lk s \<longrightarrow> mainLoop ck' p s = Some y)"
  have "P ck p s y"
  proof (rule mainLoop.raw_induct [OF _ run])
    fix loop :: "(ident \<Rightarrow> 'a) \<Rightarrow> loop_params \<Rightarrow> sched_state \<Rightarrow> (error + sched_state) option"
      and ck0 p0 s y
    assume IH: "\<And>ck p s y. loop ck p s = Some y \<Longrightarrow> P ck p s y"
      and body: "(if st_queue s \<noteq> [] \<or> st_events s \<noteq> []
        then case iteration ck0 p0 s of Continue s' \<Rightarrow> loop ck0 p0 s'
           | Break s' \<Rightarrow> Some (Inr s') | Throw e \<Rightarrow> Some (Inl e)
        else Some (Inr s)) = Some y"
    show "P ck0 p0 s y"
      unfolding P_def
    proof (intro impI, elim conjE)
      assume eq: "ck0 = ck" "p0 = p" and reg: "reg_inv lk s"
      have "iteration ck p s = iteration ck' p s"
        using so lkS reg by (rule iteration_cong_order)
      then have it: "iteration ck' p s = iteration ck p s" by simp
      show "mainLoop ck' p s = Some y"
      proof (cases "st_queue s \<noteq> [] \<or> st_events s \<noteq> []")
        case False
        with body show ?thesis by (subst mainLoop.simps) simp
      next
        case True
        show ?thesis
        proof (cases "iteration ck p s")
          case (Continue s1)
          with True body eq have "loop ck p s1 = Some y" by simp
          from IH [OF this] reg_inv_iteration [OF reg Continue]
          have "mainLoop ck' p s1 = Some y" by (simp add: P_def)
          with True Continue it show ?thesis by (subst mainLoop.simps) simp
        next
          case (Break s1)
          with True body eq it show ?thesis by (subst mainLoop.simps) simp
        next
          case (Throw e)
          with True body eq it show ?thesis by (subst mainLoop.simps) simp
        qed
      qed
    qed
  qed
  with reg show ?thesis by (simp add: P_def)
qed

lemma mainLoop_cong_order:
  assumes so: "same_order ck ck' S" and lkS: "\<And>k m. lk k = Some m \<Longrightarrow> m_id m \<in> S"
    and reg: "reg_inv lk s"
  shows "mainLoop ck p s = mainLoop ck' p s"
proof (cases "mainLoop ck p s")
  case (Some y)
  have "mainLoop ck' p s = Some y"
    using so lkS reg Some by (rule mainLoop_cong_order_Some)
  with Some show ?thesis by simp
next
  case None
  show ?thesis
  proof (cases "mainLoop ck' p s")
    case None
    with \<open>mainLoop ck p s = None\<close> show ?thesis by simp
  next
    case (Some y)
    have "mainLoop ck p s = Some y"
      using same_order_sym [OF so] lkS reg Some by (rule mainLoop_cong_order_Some)
    with None show ?thesis by simp
  qed
qed

lemma initialQueue_cong_order:
  assumes so: "same_order ck ck' S"
    and ids: "\<forall>(k, t) \<in> set mm. m_id (task_match t) \<in> S"
  shows "initialQueue ck mm = initialQueue ck' mm"
proof -
  have "fold (\<lambda>(matchId, task) queue.
             if remainingDependencies task = [] then enqueue ck task queue else queue) mm q
      = fold (\<lambda>(matchId, task) queue.
             if remainingDependencies task = [] then enqueue ck' task queue else queue) mm q"
    if "\<forall>t \<in> set q. m_id (task_match t) \<in> S" for q
    using ids that
  proof (induction mm arbitrary: q)
    case Nil
    show ?case by simp
  next
    case (Cons a mm)
    obtain k t where a: "a = (k, t)" by (cases a)
    from Cons.prems a have t: "m_id (task_match t) \<in> S" by simp
    have e: "enqueue ck t q = enqueue ck' t q"
      by (rule enqueue_cong_order [OF so t Cons.prems(2)])
    let ?q1 = "if remainingDependencies t = [] then enqueue ck t q else q"
    have q1: "\<forall>t \<in> set ?q1. m_id (task_match t) \<in> S" using Cons.prems(2) t by simp
    from Cons.prems(1) have mm: "\<forall>(k, t) \<in> set mm. m_id (task_match t) \<in> S" by simp
    have "fold (\<lambda>(matchId, task) queue.
             if remainingDependencies task = [] then enqueue ck task queue else queue) mm ?q1
      = fold (\<lambda>(matchId, task) queue.
             if remainingDependencies task = [] then enqueue ck' task queue else queue) mm ?q1"
      by (rule Cons.IH [OF mm q1])
    with e show ?case by (simp add: a)
  qed
  then show ?thesis by (simp add: initialQueue_def)
qed

lemma scheduleMatches_cong_order:
  assumes so: "same_order ck ck' (set (map m_id matches))"
  shows "scheduleMatches ck now matches courts config
           = scheduleMatches ck' now matches courts config"
proof -
  let ?S = "set (map m_id matches)"
  have lkS: "\<And>k m. registered matches k = Some m \<Longrightarrow> m_id m \<in> ?S"
    by (auto dest: registered_id)
  have ids: "\<forall>(k, t) \<in> set (fst (buildGraph matches)). m_id (task_match t) \<in> ?S"
  proof (intro ballI, clarify)
    fix k t assume "(k, t) \<in> set (fst (buildGraph matches))"
    from buildGraph_entries [OF this] obtain m where "m \<in> set matches" "t = initialTask m"
      by blast
    then show "m_id (task_match t) \<in> ?S" by (simp add: initialTask_def)
  qed
  have init: "scheduleInit ck start matches courts = scheduleInit ck' start matches courts"
    for start
    using initialQueue_cong_order [OF so ids] by (simp add: scheduleInit_def Let_def)
  have "mainLoop ck (scheduleParams start matches config) (scheduleInit ck start matches courts)
      = mainLoop ck' (scheduleParams start matches config) (scheduleInit ck' start matches courts)"
    for start
    unfolding init [symmetric]
    by (rule mainLoop_cong_order [OF so lkS reg_inv_init])
  then show ?thesis by (simp add: scheduleMatches_def Let_def)
qed

text \<open>
  Claim C9 as stated: two runs of \<open>scheduleMatches\<close> on the same matches, courts and
  config return the same result. Two things outside these inputs enter the result. The
  first pair of runs below differs only in the wall clock, which
  \<open>config.startTime || new Date()\<close> reads when \<open>startTime\<close> is absent. The second
  pair has a start time and differs only in the collation that \<open>localeCompare\<close> takes
  from the host: by code units \<open>B\<close> is scheduled first, by a collation that ignores
  case \<open>a\<close> is.
\<close>

theorem C9_environment_counterexample:
  "scheduleMatches codeunit_key 0 sample_matches sample_courts clock_config
     \<noteq> scheduleMatches codeunit_key 60000 sample_matches sample_courts clock_config \<and>
   startTime sample_config = Some 0 \<and>
   scheduleMatches codeunit_key 0 case_matches one_court sample_config
     \<noteq> scheduleMatches caseless_key 0 case_matches one_court sample_config"
proof -
  have "scheduleMatches codeunit_key 0 sample_matches sample_courts clock_config
     \<noteq> scheduleMatches codeunit_key 60000 sample_matches sample_courts clock_config"
    by code_simp
  moreover have "startTime sample_config = Some 0" by (simp add: sample_config_def)
  moreover have "scheduleMatches codeunit_key 0 case_matches one_court sample_config
     \<noteq> scheduleMatches caseless_key 0 case_matches one_court sample_config"
    by code_simp
  ultimately show ?thesis by blast
qed

text \<open>
  Claim C9, amended. When \<open>config.startTime\<close> is given, two runs of
  \<open>scheduleMatches\<close> on the same matches, courts and config return the same result
  (the same value, or the same error, or both do not end), whatever the wall clock and
  whatever the collations of the two hosts, provided the two collations order the
  identities of the input matches the same way.
\<close>

theorem C9_deterministic_given_start:
  assumes st: "startTime config = Some t"
    and so: "same_order ck ck' (set (map m_id matches))"
  shows "scheduleMatches ck now matches courts config
           = scheduleMatches ck' now' matches courts config"
proof -
  have "scheduleMatches ck now matches courts config
      = scheduleMatches ck' now matches courts config"
    using so by (rule scheduleMatches_cong_order)
  also have "\<dots> = scheduleMatches ck' now' matches courts config"
    using st by (simp add: scheduleMatches_def)
  finally show ?thesis .
qed

theorem C9_deterministic_given_start_witness:
  "startTime sample_config = Some 0 \<and>
   same_order codeunit_key caseless_key (set (map m_id sample_matches)) \<and>
   scheduleMatches codeunit_key 0 sample_matches sample_courts sample_config
     = scheduleMatches caseless_key 60000 sample_matches sample_courts sample_config \<and>
   scheduleMatches caseless_key 60000 sample_matches sample_courts sample_config
     = Some (Inr sample_result)"
proof -
  have s: "startTime sample_config = Some 0" by (simp add: sample_config_def)
  have o: "same_order codeunit_key caseless_key (set (map m_id sample_matches))"
    by code_simp
  from C9_deterministic_given_start [OF s o, of 0 sample_courts 60000]
  have e: "scheduleMatches codeunit_key 0 sample_matches sample_courts sample_config
     = scheduleMatches caseless_key 60000 sample_matches sample_courts sample_config" .
  have "scheduleMatches codeunit_key 0 sample_matches sample_courts sample_config
     = Some (Inr sample_result)" by code_simp
  with s o e show ?thesis by simp
qed


end
